(* ===== verification/Prelude.thy ===== *)
theory Prelude
  imports Main "HOL-Library.Word"
begin

text \<open>
  Shared vocabulary of the development: the machine types of the Rust code, the outcome of
  running a piece of code (it returns, it panics, or it waits forever on a channel), checked and
  saturating arithmetic, and the slices \<open>&xs[a..b]\<close> of a byte sequence.

  Conventions. A byte sequence (\<open>&[u8]\<close>, \<open>Vec<u8>\<close>, \<open>Bytes\<close>) is a list of 8-bit words. Offsets and
  lengths (\<open>u64\<close>/\<open>usize\<close> on a 64-bit target) are natural numbers: subtraction, which can underflow,
  is written with \<open>checked_sub\<close> wherever the source writes a plain \<open>-\<close>, and saturating operations carry
  the 64-bit bound explicitly. Counters whose wrap-around is observable (the atomics of the memory
  limiter and of the pool) are 64-bit words.
\<close>

section \<open>Machine types\<close>

type_synonym u8 = "8 word"
type_synonym u16 = "16 word"
type_synonym u32 = "32 word"
type_synonym u64 = "64 word"
type_synonym bytes = "u8 list"

definition u64_max :: nat where
  "u64_max = 2 ^ 64 - 1"

section \<open>Outcome of running code\<close>

text \<open>
  \<open>Panic\<close> is a failed assertion, an \<open>unwrap\<close> of nothing, an index out of range or an arithmetic
  underflow. \<open>Pending\<close> is a future that is never woken. A Rust \<open>Result\<close> is a sum, \<open>Inl\<close> the error.
\<close>

datatype 'a run = Done 'a | Panic | Pending

definition and_then :: "'a run \<Rightarrow> ('a \<Rightarrow> 'b run) \<Rightarrow> 'b run" where
  "and_then m f = (case m of Done x \<Rightarrow> f x | Panic \<Rightarrow> Panic | Pending \<Rightarrow> Pending)"

definition assert_that :: "bool \<Rightarrow> unit run" where
  "assert_that b = (if b then Done () else Panic)"

definition checked_sub :: "nat \<Rightarrow> nat \<Rightarrow> nat run" where
  "checked_sub a b = (if b \<le> a then Done (a - b) else Panic)"

lemma and_then_simps [simp]:
  "and_then (Done x) f = f x"
  "and_then Panic f = Panic"
  "and_then Pending f = Pending"
  by (simp_all add: and_then_def)

lemma and_then_cong [fundef_cong]:
  "m = m' \<Longrightarrow> (\<And>x. m' = Done x \<Longrightarrow> f x = g x) \<Longrightarrow> and_then m f = and_then m' g"
  by (cases m') simp_all

lemma and_then_Done_iff: "and_then m f = Done y \<longleftrightarrow> (\<exists>x. m = Done x \<and> f x = Done y)"
  by (cases m) simp_all

lemma case_sum_Done_iff:
  "(case x of Inl a \<Rightarrow> f a | Inr b \<Rightarrow> g b) = Done y \<longleftrightarrow>
    (\<exists>a. x = Inl a \<and> f a = Done y) \<or> (\<exists>b. x = Inr b \<and> g b = Done y)"
  by (cases x) simp_all

lemma and_then_DoneE [elim]:
  assumes "and_then m f = Done y"
  obtains x where "m = Done x" and "f x = Done y"
  using assms by (auto simp: and_then_Done_iff)

lemma assert_that_simps [simp]: "assert_that True = Done ()" "assert_that False = Panic"
  by (simp_all add: assert_that_def)

lemma assert_that_Done_iff [simp]: "assert_that b = Done u \<longleftrightarrow> b"
  by (simp add: assert_that_def)

lemma checked_sub_ok [simp]: "b \<le> a \<Longrightarrow> checked_sub a b = Done (a - b)"
  by (simp add: checked_sub_def)

lemma checked_sub_Done_iff: "checked_sub a b = Done c \<longleftrightarrow> b \<le> a \<and> c = a - b"
  by (auto simp: checked_sub_def)

section \<open>Saturating arithmetic\<close>

text \<open>On natural numbers standing for 64-bit values, and on the words themselves.\<close>

definition sat_add :: "nat \<Rightarrow> nat \<Rightarrow> nat" where
  "sat_add a b = min (a + b) u64_max"

definition sat_add_word :: "u64 \<Rightarrow> u64 \<Rightarrow> u64" where
  "sat_add_word a b = (if unat a + unat b < 2 ^ 64 then a + b else - 1)"

definition sat_sub_word :: "u64 \<Rightarrow> u64 \<Rightarrow> u64" where
  "sat_sub_word a b = (if b \<le> a then a - b else 0)"

lemma unat_minus_one_u64: "unat (- 1 :: u64) = 2 ^ 64 - 1"
  by (simp only: unsigned_minus_1_eq_mask) (simp add: mask_eq_exp_minus_1)

lemma unat_sat_add_word: "unat (sat_add_word a b) = min (unat a + unat b) (2 ^ 64 - 1)"
proof (cases "unat a + unat b < 2 ^ 64")
  case True
  then have "unat (a + b) = unat a + unat b"
    by (simp add: unat_word_ariths)
  with True show ?thesis by (simp add: sat_add_word_def)
next
  case False
  then have "sat_add_word a b = - 1" by (simp add: sat_add_word_def)
  with False show ?thesis by (simp add: unat_minus_one_u64 [simplified])
qed

lemma unat_sat_sub_word: "unat (sat_sub_word a b) = unat a - unat b"
proof (cases "b \<le> a")
  case True
  then show ?thesis by (simp add: sat_sub_word_def unat_sub)
next
  case False
  then have "unat a < unat b" by (simp add: word_less_nat_alt not_le)
  with False show ?thesis by (simp add: sat_sub_word_def)
qed

section \<open>Slices\<close>

definition seg :: "'a list \<Rightarrow> nat \<Rightarrow> nat \<Rightarrow> 'a list" where
  "seg xs a b = take (b - a) (drop a xs)"

lemma length_seg: "b \<le> length xs \<Longrightarrow> length (seg xs a b) = b - a"
  by (simp add: seg_def)

lemma seg_empty [simp]: "b \<le> a \<Longrightarrow> seg xs a b = []"
  by (simp add: seg_def)

lemma seg_zero [simp]: "seg xs 0 n = take n xs"
  by (simp add: seg_def)

lemma seg_append: "a \<le> b \<Longrightarrow> b \<le> c \<Longrightarrow> seg xs a b @ seg xs b c = seg xs a c"
  using take_add [of "b - a" "c - b" "drop a xs"] by (simp add: seg_def)

lemma seg_seg:
  "c \<le> d \<Longrightarrow> a + d \<le> b \<Longrightarrow> seg (seg xs a b) c d = seg xs (a + c) (a + d)"
  by (simp add: seg_def drop_take add.commute)

lemma seg_take_drop:
  "i \<le> b - a \<Longrightarrow> take i (seg xs a b) = seg xs a (a + i)"
  "drop i (seg xs a b) = seg xs (a + i) b"
  by (simp_all add: seg_def drop_take add.commute)

lemma seg_append_left: "b \<le> length xs \<Longrightarrow> seg (xs @ ys) a b = seg xs a b"
  by (simp add: seg_def)

section \<open>Lists\<close>

lemma distinct_map_other: "distinct (map f (xs @ y # ys)) \<Longrightarrow> z \<in> set (xs @ ys) \<Longrightarrow> f z \<noteq> f y"
  by (auto simp: image_iff)

end
