(* ===== verification/Paged_Pool.thy ===== *)
theory Paged_Pool
  imports Prelude
begin

unbundle bit_operations_syntax

text \<open>
  The memory pool of \<open>mountpoint-s3-fs/src/memory\<close>: pages of 16 equal buffers tracked by a 16-bit mask
  (\<open>pages.rs\<close>), one size pool per buffer size with usage counters (\<open>stats.rs\<close>, \<open>pool.rs\<close>) and the buffers
  handed out (\<open>buffers.rs\<close>). The address of a fresh page is an argument: it is what the system
  allocator returned. Atomic counters are 64-bit words, as \<open>fetch_add\<close> and \<open>fetch_sub\<close> wrap. The pool
  operations are composed into a transition system whose steps are the critical sections of the code,
  and the invariant over its reachable states says that no two live buffers share a byte and that the
  counters are exact.
\<close>

section \<open>Statistics\<close>

datatype buffer_kind = GetObject | PutObject | DiskCache | Append | Other

datatype meta_request_type = MetaDefault | MetaGetObject | MetaPutObject | MetaCopyObject

definition buffer_kind_of :: "meta_request_type \<Rightarrow> buffer_kind" where
  "buffer_kind_of t = (case t of
     MetaDefault \<Rightarrow> Other | MetaCopyObject \<Rightarrow> Other
   | MetaGetObject \<Rightarrow> GetObject | MetaPutObject \<Rightarrow> PutObject)"

type_synonym pool_stats = "buffer_kind \<Rightarrow> u64"

definition reserve_bytes :: "pool_stats \<Rightarrow> nat \<Rightarrow> buffer_kind \<Rightarrow> pool_stats" where
  "reserve_bytes ps n k = ps(k := ps k + of_nat n)"

definition release_bytes :: "pool_stats \<Rightarrow> nat \<Rightarrow> buffer_kind \<Rightarrow> pool_stats" where
  "release_bytes ps n k = ps(k := ps k - of_nat n)"

record size_pool_stats =
  buffer_size :: nat
  empty_pages :: u64
  reserved_buffers :: "buffer_kind \<Rightarrow> u64"

definition size_pool_stats_new :: "nat \<Rightarrow> size_pool_stats" where
  "size_pool_stats_new n = \<lparr>buffer_size = n, empty_pages = 0, reserved_buffers = (\<lambda>_. 0)\<rparr>"

definition add_empty_page :: "size_pool_stats \<Rightarrow> size_pool_stats" where
  "add_empty_page ss = ss\<lparr>empty_pages := empty_pages ss + 1\<rparr>"

definition remove_empty_page :: "size_pool_stats \<Rightarrow> size_pool_stats" where
  "remove_empty_page ss = ss\<lparr>empty_pages := empty_pages ss - 1\<rparr>"

definition add_reserved_buffer ::
  "pool_stats \<Rightarrow> size_pool_stats \<Rightarrow> buffer_kind \<Rightarrow> pool_stats \<times> size_pool_stats" where
  "add_reserved_buffer ps ss k =
     (reserve_bytes ps (buffer_size ss) k,
      ss\<lparr>reserved_buffers := (reserved_buffers ss)(k := reserved_buffers ss k + 1)\<rparr>)"

definition remove_reserved_buffer ::
  "pool_stats \<Rightarrow> size_pool_stats \<Rightarrow> buffer_kind \<Rightarrow> pool_stats \<times> size_pool_stats" where
  "remove_reserved_buffer ps ss k =
     (release_bytes ps (buffer_size ss) k,
      ss\<lparr>reserved_buffers := (reserved_buffers ss)(k := reserved_buffers ss k - 1)\<rparr>)"

section \<open>Pages\<close>

definition buffers_per_page :: nat where
  "buffers_per_page = 16"

definition full_mask :: u16 where
  "full_mask = - 1"

datatype page_status = Empty | NonEmpty

record page =
  page_bytes :: nat
  reserved_bitmask :: u16

text \<open>\<open>consume\<close> returns the index, the previous status and the new mask.\<close>

definition consume :: "u16 \<Rightarrow> (nat \<times> page_status \<times> u16) option" where
  "consume bitmask =
     (if bitmask \<noteq> full_mask then
        (let page_status = (if bitmask = 0 then Empty else NonEmpty)
         in case find (\<lambda>index. bitmask AND push_bit index 1 = 0) [0..<16] of
              Some index \<Rightarrow> Some (index, page_status, bitmask OR push_bit index 1)
            | None \<Rightarrow> None)
      else None)"

text \<open>\<open>Page::new\<close> on the address that the allocator returned.\<close>

definition page_new :: "size_pool_stats \<Rightarrow> nat \<Rightarrow> (size_pool_stats \<times> page) run" where
  "page_new ss addr =
     and_then (assert_that (buffer_size ss \<noteq> 0)) (\<lambda>_.
       Done (add_empty_page ss, \<lparr>page_bytes = addr, reserved_bitmask = 0\<rparr>))"

definition page_last_buffer :: "size_pool_stats \<Rightarrow> page \<Rightarrow> nat" where
  "page_last_buffer ss p = page_bytes p + (buffers_per_page - 1) * buffer_size ss"

definition page_try_reserve ::
  "pool_stats \<Rightarrow> size_pool_stats \<Rightarrow> page \<Rightarrow> buffer_kind \<Rightarrow>
     (pool_stats \<times> size_pool_stats \<times> page \<times> nat) option" where
  "page_try_reserve ps ss p k =
     (case consume (reserved_bitmask p) of
        None \<Rightarrow> None
      | Some (index, page_status, bitmask) \<Rightarrow>
          let offset = index * buffer_size ss;
              ss = (case page_status of Empty \<Rightarrow> remove_empty_page ss | NonEmpty \<Rightarrow> ss);
              (ps, ss) = add_reserved_buffer ps ss k
          in Some (ps, ss, p\<lparr>reserved_bitmask := bitmask\<rparr>, page_bytes p + offset))"

definition page_release ::
  "pool_stats \<Rightarrow> size_pool_stats \<Rightarrow> page \<Rightarrow> nat \<Rightarrow> buffer_kind \<Rightarrow>
     (pool_stats \<times> size_pool_stats \<times> page) run" where
  "page_release ps ss p ptr k =
     and_then (assert_that (page_bytes p \<le> ptr \<and> ptr \<le> page_last_buffer ss p)) (\<lambda>_.
       let offset = ptr - page_bytes p;
           index = offset div buffer_size ss;
           mask = NOT (push_bit index 1);
           bitmask = reserved_bitmask p AND mask;
           (ps, ss) = remove_reserved_buffer ps ss k;
           ss = (if bitmask = 0 then add_empty_page ss else ss)
       in Done (ps, ss, p\<lparr>reserved_bitmask := bitmask\<rparr>))"

definition invalidate_if_empty :: "size_pool_stats \<Rightarrow> page \<Rightarrow> size_pool_stats \<times> page \<times> bool" where
  "invalidate_if_empty ss p =
     (if reserved_bitmask p \<noteq> 0 then (ss, p, False)
      else (remove_empty_page ss, p\<lparr>reserved_bitmask := full_mask\<rparr>, True))"

section \<open>Size pools\<close>

record size_pool =
  sp_pages :: "page list"
  sp_stats :: size_pool_stats

record paged_buffer_ptr =
  bp_ptr :: nat
  bp_page :: nat
  bp_kind :: buffer_kind

text \<open>\<open>pages.find_map(|page| page.try_reserve(kind))\<close>, threading the pages and the counters.\<close>

fun try_get_buffer_ptr ::
  "pool_stats \<Rightarrow> size_pool_stats \<Rightarrow> page list \<Rightarrow> buffer_kind \<Rightarrow>
     (pool_stats \<times> size_pool_stats \<times> page list \<times> paged_buffer_ptr) option" where
  "try_get_buffer_ptr ps ss [] k = None"
| "try_get_buffer_ptr ps ss (p # pages) k =
     (case page_try_reserve ps ss p k of
        Some (ps, ss, p, ptr) \<Rightarrow>
          Some (ps, ss, p # pages, \<lparr>bp_ptr = ptr, bp_page = page_bytes p, bp_kind = k\<rparr>)
      | None \<Rightarrow>
          map_option (\<lambda>(ps, ss, pages, b). (ps, ss, p # pages, b)) (try_get_buffer_ptr ps ss pages k))"

text \<open>The fast path of \<open>SizePool::reserve\<close>, under the read lock, and the slow path, under the write lock.\<close>

definition reserve_fast ::
  "pool_stats \<Rightarrow> size_pool \<Rightarrow> buffer_kind \<Rightarrow> (pool_stats \<times> size_pool \<times> paged_buffer_ptr) option" where
  "reserve_fast ps sp k =
     map_option (\<lambda>(ps, ss, pages, b). (ps, \<lparr>sp_pages = pages, sp_stats = ss\<rparr>, b))
       (try_get_buffer_ptr ps (sp_stats sp) (sp_pages sp) k)"

definition reserve_slow ::
  "pool_stats \<Rightarrow> size_pool \<Rightarrow> buffer_kind \<Rightarrow> nat \<Rightarrow> (pool_stats \<times> size_pool \<times> paged_buffer_ptr) run" where
  "reserve_slow ps sp k addr =
     (case try_get_buffer_ptr ps (sp_stats sp) (sp_pages sp) k of
        Some (ps, ss, pages, b) \<Rightarrow> Done (ps, \<lparr>sp_pages = pages, sp_stats = ss\<rparr>, b)
      | None \<Rightarrow> and_then (page_new (sp_stats sp) addr) (\<lambda>(ss, p).
          case page_try_reserve ps ss p k of
            None \<Rightarrow> Panic
          | Some (ps, ss, p, ptr) \<Rightarrow>
              Done (ps, \<lparr>sp_pages = sp_pages sp @ [p], sp_stats = ss\<rparr>,
                    \<lparr>bp_ptr = ptr, bp_page = page_bytes p, bp_kind = k\<rparr>)))"

definition size_pool_reserve ::
  "pool_stats \<Rightarrow> size_pool \<Rightarrow> buffer_kind \<Rightarrow> nat \<Rightarrow> (pool_stats \<times> size_pool \<times> paged_buffer_ptr) run" where
  "size_pool_reserve ps sp k addr =
     (case reserve_fast ps sp k of Some r \<Rightarrow> Done r | None \<Rightarrow> reserve_slow ps sp k addr)"

text \<open>
  Dropping a \<open>PagedBufferPtr\<close> releases it to the page it holds. A page that is not in the pool any more
  would be a page trimmed while one of its buffers is live; the outcome \<open>Panic\<close> marks that case, which
  the invariant below excludes.
\<close>

fun release_in_pages ::
  "pool_stats \<Rightarrow> size_pool_stats \<Rightarrow> page list \<Rightarrow> paged_buffer_ptr \<Rightarrow>
     (pool_stats \<times> size_pool_stats \<times> page list) run" where
  "release_in_pages ps ss [] b = Panic"
| "release_in_pages ps ss (p # pages) b =
     (if page_bytes p = bp_page b then
        and_then (page_release ps ss p (bp_ptr b) (bp_kind b)) (\<lambda>(ps, ss, p). Done (ps, ss, p # pages))
      else and_then (release_in_pages ps ss pages b) (\<lambda>(ps, ss, pages). Done (ps, ss, p # pages)))"

definition paged_buffer_drop ::
  "pool_stats \<Rightarrow> size_pool \<Rightarrow> paged_buffer_ptr \<Rightarrow> (pool_stats \<times> size_pool) run" where
  "paged_buffer_drop ps sp b =
     and_then (release_in_pages ps (sp_stats sp) (sp_pages sp) b)
       (\<lambda>(ps, ss, pages). Done (ps, \<lparr>sp_pages = pages, sp_stats = ss\<rparr>))"

text \<open>\<open>write.retain(|p| !p.invalidate_if_empty())\<close> and the trim of one size pool.\<close>

fun retain_non_empty :: "size_pool_stats \<Rightarrow> page list \<Rightarrow> size_pool_stats \<times> page list" where
  "retain_non_empty ss [] = (ss, [])"
| "retain_non_empty ss (p # pages) =
     (let (ss, p, invalid) = invalidate_if_empty ss p;
          (ss, pages) = retain_non_empty ss pages
      in (ss, if invalid then pages else p # pages))"

definition size_pool_trim :: "size_pool \<Rightarrow> size_pool \<times> bool" where
  "size_pool_trim sp =
     (if empty_pages (sp_stats sp) = 0 then (sp, False)
      else let (ss, pages) = retain_non_empty (sp_stats sp) (sp_pages sp);
               pages_freed = length (sp_pages sp) - length pages
           in (\<lparr>sp_pages = pages, sp_stats = ss\<rparr>, 0 < pages_freed))"

section \<open>The pool\<close>

record paged_pool =
  ordered_size_pools :: "size_pool list"
  pool_stats_of :: pool_stats

definition max_buffer_size :: nat where
  "max_buffer_size = 64 * 1024 * 1024"

definition default_buffer_size :: nat where
  "default_buffer_size = 8 * 1024 * 1024"

definition candidate_sizes :: "nat list \<Rightarrow> nat list" where
  "candidate_sizes buffer_sizes =
     (let ordered_sizes = filter (\<lambda>sz. 0 < sz \<and> sz \<le> max_buffer_size) buffer_sizes;
          ordered_sizes = remdups_adj ordered_sizes;
          ordered_sizes = sort ordered_sizes
      in if ordered_sizes = [] then [default_buffer_size] else ordered_sizes)"

definition new_with_candidate_sizes :: "nat list \<Rightarrow> paged_pool" where
  "new_with_candidate_sizes buffer_sizes =
     \<lparr>ordered_size_pools =
        map (\<lambda>n. \<lparr>sp_pages = [], sp_stats = size_pool_stats_new n\<rparr>) (candidate_sizes buffer_sizes),
      pool_stats_of = (\<lambda>_. 0)\<rparr>"

definition reserved_bytes :: "paged_pool \<Rightarrow> buffer_kind \<Rightarrow> u64" where
  "reserved_bytes pool k = pool_stats_of pool k"

text \<open>\<open>partition_point\<close> on a slice ordered by sz is the length of the prefix of smaller sizes.\<close>

definition get_pool_for_size :: "paged_pool \<Rightarrow> nat \<Rightarrow> nat option" where
  "get_pool_for_size pool sz =
     (if sz = 0 then None
      else let index = length (takeWhile (\<lambda>sp. buffer_size (sp_stats sp) < sz) (ordered_size_pools pool))
           in if index = length (ordered_size_pools pool) then None else Some index)"

definition pool_trim :: "paged_pool \<Rightarrow> paged_pool \<times> bool" where
  "pool_trim pool =
     (let trimmed = map size_pool_trim (ordered_size_pools pool)
      in (pool\<lparr>ordered_size_pools := map fst trimmed\<rparr>, list_ex snd trimmed))"

section \<open>Buffers\<close>

text \<open>
  A primary buffer names the size pool whose statistics its page shares. A secondary buffer owns its
  data; the bytes of primary buffers live in the memory of their page.
\<close>

datatype pool_buffer =
  Primary nat paged_buffer_ptr nat
| Secondary bytes buffer_kind

type_synonym memory = "nat \<Rightarrow> u8"

definition new_primary :: "paged_pool \<Rightarrow> nat \<Rightarrow> paged_buffer_ptr \<Rightarrow> nat \<Rightarrow> pool_buffer run" where
  "new_primary pool i b sz =
     and_then (assert_that (sz \<le> buffer_size (sp_stats (ordered_size_pools pool ! i))))
       (\<lambda>_. Done (Primary i b sz))"

definition new_secondary :: "pool_stats \<Rightarrow> nat \<Rightarrow> buffer_kind \<Rightarrow> pool_stats \<times> pool_buffer" where
  "new_secondary ps sz k = (reserve_bytes ps sz k, Secondary (replicate sz 0) k)"

definition get_buffer :: "paged_pool \<Rightarrow> nat \<Rightarrow> buffer_kind \<Rightarrow> nat \<Rightarrow> (paged_pool \<times> pool_buffer) run" where
  "get_buffer pool sz k addr =
     (case get_pool_for_size pool sz of
        Some i \<Rightarrow>
          and_then (size_pool_reserve (pool_stats_of pool) (ordered_size_pools pool ! i) k addr) (\<lambda>(ps, sp, b).
            let pool = \<lparr>ordered_size_pools = (ordered_size_pools pool)[i := sp], pool_stats_of = ps\<rparr>
            in and_then (checked_sub (buffer_size (sp_stats sp)) sz) (\<lambda>_.
                 and_then (new_primary pool i b sz) (\<lambda>buf. Done (pool, buf))))
      | None \<Rightarrow>
          let (ps, buf) = new_secondary (pool_stats_of pool) sz k
          in Done (pool\<lparr>pool_stats_of := ps\<rparr>, buf))"

definition pool_buffer_drop :: "paged_pool \<Rightarrow> pool_buffer \<Rightarrow> paged_pool run" where
  "pool_buffer_drop pool buf = (case buf of
     Primary i b _ \<Rightarrow>
       and_then (paged_buffer_drop (pool_stats_of pool) (ordered_size_pools pool ! i) b) (\<lambda>(ps, sp).
         Done \<lparr>ordered_size_pools = (ordered_size_pools pool)[i := sp], pool_stats_of = ps\<rparr>)
   | Secondary data k \<Rightarrow>
       Done (pool\<lparr>pool_stats_of := release_bytes (pool_stats_of pool) (length data) k\<rparr>))"

definition pool_buffer_capacity :: "pool_buffer \<Rightarrow> nat" where
  "pool_buffer_capacity buf = (case buf of Primary _ _ sz \<Rightarrow> sz | Secondary data _ \<Rightarrow> length data)"

definition pool_buffer_deref :: "memory \<Rightarrow> pool_buffer \<Rightarrow> bytes" where
  "pool_buffer_deref mem buf = (case buf of
     Primary _ b sz \<Rightarrow> map mem [bp_ptr b ..< bp_ptr b + sz]
   | Secondary data _ \<Rightarrow> data)"

text \<open>\<open>buffer.as_mut()[at..at + xs.len()].copy_from_slice(xs)\<close>: panics if the range is out of bounds.\<close>

definition copy_from_slice ::
  "memory \<Rightarrow> pool_buffer \<Rightarrow> nat \<Rightarrow> bytes \<Rightarrow> (memory \<times> pool_buffer) run" where
  "copy_from_slice mem buf at xs =
     and_then (assert_that (at + length xs \<le> pool_buffer_capacity buf)) (\<lambda>_.
       case buf of
         Primary i b sz \<Rightarrow>
           let start = bp_ptr b + at
           in Done (\<lambda>a. if start \<le> a \<and> a < start + length xs then xs ! (a - start) else mem a, buf)
       | Secondary data k \<Rightarrow>
           Done (mem, Secondary (take at data @ xs @ drop (at + length xs) data) k))"

record pool_buffer_mut =
  pm_buffer :: pool_buffer
  pm_len :: nat

definition pool_buffer_mut_new :: "pool_buffer \<Rightarrow> pool_buffer_mut" where
  "pool_buffer_mut_new buf = \<lparr>pm_buffer = buf, pm_len = 0\<rparr>"

definition get_buffer_mut ::
  "paged_pool \<Rightarrow> nat \<Rightarrow> buffer_kind \<Rightarrow> nat \<Rightarrow> (paged_pool \<times> pool_buffer_mut) run" where
  "get_buffer_mut pool capacity k addr =
     and_then (get_buffer pool capacity k addr) (\<lambda>(pool, buf). Done (pool, pool_buffer_mut_new buf))"

text \<open>Returns the memory, the buffer, what the caller's slice became and the overflow.\<close>

definition append_from_slice ::
  "memory \<Rightarrow> pool_buffer_mut \<Rightarrow> bytes \<Rightarrow> (memory \<times> pool_buffer_mut \<times> bytes \<times> bytes) run" where
  "append_from_slice mem pm xs =
     and_then (checked_sub (pool_buffer_capacity (pm_buffer pm)) (pm_len pm)) (\<lambda>available.
       let n = min available (length xs);
           overflow = drop n xs;
           xs = take n xs;
           new_len = pm_len pm + length xs
       in and_then (copy_from_slice mem (pm_buffer pm) (pm_len pm) xs) (\<lambda>(mem, buf).
            Done (mem, \<lparr>pm_buffer = buf, pm_len = new_len\<rparr>, xs, overflow)))"

text \<open>
  \<open>Read::read_exact\<close> fills the rest of the buffer or fails with an unexpected end of file; the reader
  is the bytes it still has.
\<close>

datatype io_error = UnexpectedEof | OtherIo

definition fill_from_reader ::
  "memory \<Rightarrow> pool_buffer_mut \<Rightarrow> bytes \<Rightarrow> (memory \<times> pool_buffer_mut \<times> (io_error + bytes)) run" where
  "fill_from_reader mem pm reader =
     and_then (checked_sub (pool_buffer_capacity (pm_buffer pm)) (pm_len pm)) (\<lambda>n.
       if length reader < n then Done (mem, pm, Inl UnexpectedEof)
       else and_then (copy_from_slice mem (pm_buffer pm) (pm_len pm) (take n reader)) (\<lambda>(mem, buf).
              Done (mem, \<lparr>pm_buffer = buf, pm_len = pool_buffer_capacity buf\<rparr>, Inr (drop n reader))))"

definition pm_is_full :: "pool_buffer_mut \<Rightarrow> bool" where
  "pm_is_full pm \<longleftrightarrow> pm_len pm = pool_buffer_capacity (pm_buffer pm)"

definition pm_is_empty :: "pool_buffer_mut \<Rightarrow> bool" where
  "pm_is_empty pm \<longleftrightarrow> pm_len pm = 0"

definition pool_buffer_mut_deref :: "memory \<Rightarrow> pool_buffer_mut \<Rightarrow> bytes" where
  "pool_buffer_mut_deref mem pm = take (pm_len pm) (pool_buffer_deref mem (pm_buffer pm))"

section \<open>The bit mask of a page\<close>

lemma mask_bit_free_iff: "(m :: u16) AND 2 ^ i = 0 \<longleftrightarrow> \<not> bit m i"
  using bit_iff_and_push_bit_not_eq_0 [of m i] by (simp add: push_bit_of_1)

lemma mask_bit_set: "i < 16 \<Longrightarrow> bit ((m :: u16) OR push_bit i 1) j \<longleftrightarrow> bit m j \<or> j = i"
  by (auto simp: bit_simps)

lemma mask_bit_cleared: "i < 16 \<Longrightarrow> bit ((m :: u16) AND NOT (push_bit i 1)) j \<longleftrightarrow> bit m j \<and> j \<noteq> i"
  by (auto simp: bit_simps dest: bit_imp_le_length)

lemma mask_zero_iff: "(m :: u16) = 0 \<longleftrightarrow> (\<forall>i. \<not> bit m i)"
  using bit_eq_iff [of m 0] by (auto dest: bit_imp_le_length)

lemma mask_full_iff: "(m :: u16) = full_mask \<longleftrightarrow> (\<forall>i < 16. bit m i)"
  using bit_eq_iff [of m full_mask] by (auto simp: full_mask_def dest: bit_imp_le_length)

lemma consume_None_iff: "consume m = None \<longleftrightarrow> m = full_mask"
  by (auto simp: consume_def find_None_iff mask_bit_free_iff mask_full_iff Let_def split: option.splits)

lemma consume_SomeD:
  assumes "consume m = Some (i, st, m')"
  shows "i < 16" and "\<not> bit m i" and "\<And>j. bit m' j \<longleftrightarrow> bit m j \<or> j = i"
    and "st = Empty \<longleftrightarrow> m = 0" and "m' \<noteq> 0"
proof -
  from assms obtain f: "find (\<lambda>index. m AND push_bit index 1 = 0) [0..<16] = Some i"
    and m': "m' = m OR push_bit i 1" and st: "st = (if m = 0 then Empty else NonEmpty)"
    by (auto simp: consume_def Let_def split: if_splits option.splits)
  from f show i: "i < 16" and "\<not> bit m i"
    by (auto simp: find_Some_iff mask_bit_free_iff)
  show bits: "bit m' j \<longleftrightarrow> bit m j \<or> j = i" for j
    using i m' mask_bit_set by blast
  then show "m' \<noteq> 0" by (auto simp: mask_zero_iff)
  show "st = Empty \<longleftrightarrow> m = 0" using st by simp
qed

section \<open>Invariant of a size pool\<close>

text \<open>
  \<open>L\<close> is the list of live buffers of the size pool. Each of them is the start of one of the 16 slots of a
  page that is still in the pool, no two are the same slot, a bit is set exactly when its slot is live,
  and the counters count.
\<close>

definition slot :: "nat \<Rightarrow> paged_buffer_ptr \<Rightarrow> nat" where
  "slot n b = (bp_ptr b - bp_page b) div n"

definition slot_ok :: "nat \<Rightarrow> paged_buffer_ptr \<Rightarrow> bool" where
  "slot_ok n b \<longleftrightarrow> bp_ptr b = bp_page b + slot n b * n \<and> slot n b < 16"

definition page_ok :: "nat \<Rightarrow> paged_buffer_ptr list \<Rightarrow> page \<Rightarrow> bool" where
  "page_ok n L p \<longleftrightarrow>
     (\<forall>i. bit (reserved_bitmask p) i \<longleftrightarrow> (\<exists>b \<in> set L. bp_page b = page_bytes p \<and> slot n b = i))"

definition page_is_empty :: "page \<Rightarrow> bool" where
  "page_is_empty p \<longleftrightarrow> reserved_bitmask p = 0"

definition size_pool_inv :: "size_pool \<Rightarrow> paged_buffer_ptr list \<Rightarrow> bool" where
  "size_pool_inv sp L \<longleftrightarrow>
     0 < buffer_size (sp_stats sp) \<and>
     distinct (map page_bytes (sp_pages sp)) \<and>
     distinct (map (\<lambda>b. (bp_page b, slot (buffer_size (sp_stats sp)) b)) L) \<and>
     (\<forall>b \<in> set L. slot_ok (buffer_size (sp_stats sp)) b \<and> bp_page b \<in> page_bytes ` set (sp_pages sp)) \<and>
     (\<forall>p \<in> set (sp_pages sp). page_ok (buffer_size (sp_stats sp)) L p) \<and>
     empty_pages (sp_stats sp) = of_nat (length (filter page_is_empty (sp_pages sp))) \<and>
     (\<forall>k. reserved_buffers (sp_stats sp) k = of_nat (length (filter (\<lambda>b. bp_kind b = k) L)))"

lemma size_pool_inv_member:
  assumes "size_pool_inv sp L" and "b \<in> set L"
  shows "slot_ok (buffer_size (sp_stats sp)) b" and "bp_page b \<in> page_bytes ` set (sp_pages sp)"
  using assms by (simp_all add: size_pool_inv_def)

lemma slot_at: "0 < n \<Longrightarrow> slot n \<lparr>bp_ptr = a + i * n, bp_page = a, bp_kind = k\<rparr> = i"
  by (simp add: slot_def)

text \<open>What a successful search does: it takes the first free slot of some page.\<close>

definition take_slot :: "size_pool_stats \<Rightarrow> u16 \<Rightarrow> buffer_kind \<Rightarrow> size_pool_stats" where
  "take_slot ss m k = snd (add_reserved_buffer (\<lambda>_. 0) (if m = 0 then remove_empty_page ss else ss) k)"

lemma page_try_reserve_Some:
  assumes "page_try_reserve ps ss p k = Some (ps', ss', p', ptr)"
  obtains i st m' where "consume (reserved_bitmask p) = Some (i, st, m')"
    and "p' = p\<lparr>reserved_bitmask := m'\<rparr>" and "ptr = page_bytes p + i * buffer_size ss"
    and "ss' = take_slot ss (reserved_bitmask p) k" and "ps' = reserve_bytes ps (buffer_size ss) k"
proof -
  from assms obtain i st m' where c: "consume (reserved_bitmask p) = Some (i, st, m')"
    by (auto simp: page_try_reserve_def split: option.splits)
  with assms consume_SomeD(4) [OF c] show thesis
    by (intro that [OF c])
      (auto simp: page_try_reserve_def take_slot_def add_reserved_buffer_def remove_empty_page_def Let_def
        split: page_status.splits)
qed

lemma page_try_reserve_None_iff: "page_try_reserve ps ss p k = None \<longleftrightarrow> reserved_bitmask p = full_mask"
  by (auto simp: page_try_reserve_def consume_None_iff [symmetric] Let_def add_reserved_buffer_def
      split: option.splits)

lemma try_get_buffer_ptr_None_iff:
  "try_get_buffer_ptr ps ss pages k = None \<longleftrightarrow> (\<forall>p \<in> set pages. reserved_bitmask p = full_mask)"
  by (induction pages) (auto simp: page_try_reserve_None_iff [of ps ss _ k, symmetric] split: option.splits)

lemma try_get_buffer_ptr_Some:
  assumes "try_get_buffer_ptr ps ss pages k = Some (ps', ss', pages', b)"
  shows "\<exists>xs p ys i st m'. pages = xs @ p # ys \<and> consume (reserved_bitmask p) = Some (i, st, m') \<and>
    pages' = xs @ p\<lparr>reserved_bitmask := m'\<rparr> # ys \<and>
    b = \<lparr>bp_ptr = page_bytes p + i * buffer_size ss, bp_page = page_bytes p, bp_kind = k\<rparr> \<and>
    ss' = take_slot ss (reserved_bitmask p) k \<and> ps' = reserve_bytes ps (buffer_size ss) k"
  using assms
proof (induction pages arbitrary: pages')
  case (Cons p pages)
  show ?case
  proof (cases "page_try_reserve ps ss p k")
    case None
    with Cons.prems obtain r where r: "try_get_buffer_ptr ps ss pages k = Some (ps', ss', r, b)"
      and "pages' = p # r"
      by auto
    with Cons.IH [OF r] show ?thesis by (metis append_Cons)
  next
    case (Some t)
    with Cons.prems obtain p' ptr where t: "page_try_reserve ps ss p k = Some (ps', ss', p', ptr)"
      and "pages' = p' # pages" and "b = \<lparr>bp_ptr = ptr, bp_page = page_bytes p', bp_kind = k\<rparr>"
      by (cases t) auto
    then show ?thesis
      by (elim page_try_reserve_Some) (rule exI [of _ "[]"], auto)
  qed
qed simp

lemma take_slot_simps [simp]:
  "buffer_size (take_slot ss m k) = buffer_size ss"
  "reserved_buffers (take_slot ss m k) = (reserved_buffers ss)(k := reserved_buffers ss k + 1)"
  "empty_pages (take_slot ss m k) = empty_pages ss - (if m = 0 then 1 else 0)"
  by (simp_all add: take_slot_def add_reserved_buffer_def remove_empty_page_def)

lemma size_pool_inv_take:
  assumes inv: "size_pool_inv \<lparr>sp_pages = xs @ p # ys, sp_stats = ss\<rparr> L"
    and c: "consume (reserved_bitmask p) = Some (i, st, m')"
    and b: "b = \<lparr>bp_ptr = page_bytes p + i * buffer_size ss, bp_page = page_bytes p, bp_kind = k\<rparr>"
  shows "size_pool_inv \<lparr>sp_pages = xs @ p\<lparr>reserved_bitmask := m'\<rparr> # ys,
           sp_stats = take_slot ss (reserved_bitmask p) k\<rparr> (b # L)"
proof -
  let ?n = "buffer_size ss"
  note c' = consume_SomeD [OF c]
  have n: "0 < ?n" using inv by (simp add: size_pool_inv_def)
  have sb: "slot ?n b = i" using n by (simp add: b slot_at)
  have ok: "slot_ok ?n b" using sb c'(1) by (simp add: slot_ok_def b)
  have fresh: "(page_bytes p, i) \<noteq> (bp_page d, slot ?n d)" if "d \<in> set L" for d
    using inv that c'(2) by (auto simp: size_pool_inv_def page_ok_def)
  have po: "page_ok ?n L q" if "q \<in> set (xs @ p # ys)" for q
    using inv that by (auto simp: size_pool_inv_def)
  have pb: "bp_page b = page_bytes p" by (simp add: b)
  have "page_ok ?n (b # L) (p\<lparr>reserved_bitmask := m'\<rparr>)"
    using po [of p] c'(3) sb pb by (auto simp: page_ok_def)
  moreover have "page_ok ?n (b # L) q" if "q \<in> set (xs @ ys)" for q
  proof -
    have "page_bytes q \<noteq> page_bytes p"
      using inv that distinct_map_other [of page_bytes xs p ys q] by (simp add: size_pool_inv_def)
    then show ?thesis using po [of q] that pb by (auto simp: page_ok_def)
  qed
  ultimately show ?thesis
    using inv n sb ok fresh c'(5) pb
    by (auto simp: size_pool_inv_def page_is_empty_def b)
qed

lemma size_pool_inv_new_page:
  assumes inv: "size_pool_inv \<lparr>sp_pages = pages, sp_stats = ss\<rparr> L" and fresh: "addr \<notin> page_bytes ` set pages"
  shows "size_pool_inv \<lparr>sp_pages = pages @ [\<lparr>page_bytes = addr, reserved_bitmask = 0\<rparr>],
           sp_stats = add_empty_page ss\<rparr> L"
proof -
  have "bp_page b \<noteq> addr" if "b \<in> set L" for b
    using inv fresh that by (auto simp: size_pool_inv_def)
  then have "page_ok (buffer_size ss) L \<lparr>page_bytes = addr, reserved_bitmask = 0\<rparr>"
    by (auto simp: page_ok_def)
  with inv fresh show ?thesis
    by (auto simp: size_pool_inv_def add_empty_page_def page_is_empty_def)
qed

lemma reserve_slow_inv:
  assumes inv: "size_pool_inv sp L" and fresh: "addr \<notin> page_bytes ` set (sp_pages sp)"
  obtains sp' b where
    "reserve_slow ps sp k addr = Done (reserve_bytes ps (buffer_size (sp_stats sp)) k, sp', b)"
    and "size_pool_inv sp' (b # L)" and "bp_kind b = k"
    and "buffer_size (sp_stats sp') = buffer_size (sp_stats sp)"
    and "page_bytes ` set (sp_pages sp') = page_bytes ` set (sp_pages sp) \<or>
         page_bytes ` set (sp_pages sp') = insert addr (page_bytes ` set (sp_pages sp))"
proof (cases "try_get_buffer_ptr ps (sp_stats sp) (sp_pages sp) k")
  case (Some t)
  obtain ps' ss' pages' b where t: "t = (ps', ss', pages', b)" by (cases t)
  from try_get_buffer_ptr_Some [OF Some [unfolded t]]
  obtain xs p ys i st m' where e: "sp_pages sp = xs @ p # ys" "consume (reserved_bitmask p) = Some (i, st, m')"
    "pages' = xs @ p\<lparr>reserved_bitmask := m'\<rparr> # ys"
    "b = \<lparr>bp_ptr = page_bytes p + i * buffer_size (sp_stats sp), bp_page = page_bytes p, bp_kind = k\<rparr>"
    "ss' = take_slot (sp_stats sp) (reserved_bitmask p) k"
    "ps' = reserve_bytes ps (buffer_size (sp_stats sp)) k"
    by blast
  have "size_pool_inv \<lparr>sp_pages = xs @ p # ys, sp_stats = sp_stats sp\<rparr> L"
    using inv e(1) by (simp add: size_pool_inv_def)
  from size_pool_inv_take [OF this e(2) e(4)]
  have i: "size_pool_inv \<lparr>sp_pages = pages', sp_stats = ss'\<rparr> (b # L)" using e by simp
  show thesis
    by (rule that [OF _ i]) (use Some t e in \<open>auto simp: reserve_slow_def\<close>)
next
  case None
  let ?p = "\<lparr>page_bytes = addr, reserved_bitmask = 0\<rparr>" and ?ss = "add_empty_page (sp_stats sp)"
  let ?b = "\<lparr>bp_ptr = page_bytes ?p + 0 * buffer_size ?ss, bp_page = page_bytes ?p, bp_kind = k\<rparr>"
  have n: "buffer_size (sp_stats sp) \<noteq> 0" using inv by (simp add: size_pool_inv_def)
  have inv': "size_pool_inv \<lparr>sp_pages = sp_pages sp, sp_stats = sp_stats sp\<rparr> L"
    using inv by (simp add: size_pool_inv_def)
  have c: "consume (reserved_bitmask ?p) = Some (0, Empty, 0 OR push_bit 0 1)"
    by (simp add: consume_def full_mask_def upt_conv_Cons)
  have r: "page_try_reserve ps ?ss ?p k = Some (reserve_bytes ps (buffer_size (sp_stats sp)) k,
      take_slot ?ss (reserved_bitmask ?p) k, ?p\<lparr>reserved_bitmask := 0 OR push_bit 0 1\<rparr>, page_bytes ?p + 0 * buffer_size ?ss)"
    using c by (simp add: page_try_reserve_def take_slot_def add_reserved_buffer_def remove_empty_page_def add_empty_page_def Let_def)
  have i: "size_pool_inv \<lparr>sp_pages = sp_pages sp @ [?p\<lparr>reserved_bitmask := 0 OR push_bit 0 1\<rparr>],
      sp_stats = take_slot ?ss (reserved_bitmask ?p) k\<rparr> (?b # L)"
    using size_pool_inv_take [OF size_pool_inv_new_page [OF inv' fresh, folded append_Nil2] c refl] by simp
  show thesis
    by (rule that [OF _ i])
      (use None r n in \<open>simp_all add: reserve_slow_def page_new_def add_empty_page_def\<close>)
qed

text \<open>The fast path only repeats what the slow path does first, so the composition is the slow path.\<close>

lemma size_pool_reserve_eq: "size_pool_reserve ps sp k addr = reserve_slow ps sp k addr"
  by (auto simp: size_pool_reserve_def reserve_fast_def reserve_slow_def split: option.splits)

lemma release_in_pages_at:
  assumes "page_bytes p = bp_page b" and "bp_page b \<notin> page_bytes ` set xs"
  shows "release_in_pages ps ss (xs @ p # ys) b =
    and_then (page_release ps ss p (bp_ptr b) (bp_kind b)) (\<lambda>(ps, ss, p). Done (ps, ss, xs @ p # ys))"
  using assms
  by (induction xs) (auto simp: and_then_def split: run.splits)

lemma page_release_live:
  assumes "slot_ok n b" and "buffer_size ss = n" and "page_bytes p = bp_page b" and "0 < n"
  shows "page_release ps ss p (bp_ptr b) (bp_kind b) =
    (let m = reserved_bitmask p AND NOT (push_bit (slot n b) 1)
     in Done (release_bytes ps n (bp_kind b),
          ss\<lparr>reserved_buffers := (reserved_buffers ss)(bp_kind b := reserved_buffers ss (bp_kind b) - 1),
             empty_pages := empty_pages ss + (if m = 0 then 1 else 0)\<rparr>,
          p\<lparr>reserved_bitmask := m\<rparr>))"
proof -
  have "bp_ptr b \<le> page_bytes p + 15 * n"
    using assms by (simp add: slot_ok_def)
  moreover have "bp_page b \<le> bp_ptr b"
    using assms(1) by (simp add: slot_ok_def)
  ultimately show ?thesis
    using assms
    by (simp add: page_release_def page_last_buffer_def buffers_per_page_def slot_def
        remove_reserved_buffer_def add_empty_page_def Let_def)
qed

lemma paged_buffer_drop_inv:
  assumes inv: "size_pool_inv sp (L1 @ b # L2)"
  obtains sp' where
    "paged_buffer_drop ps sp b = Done (release_bytes ps (buffer_size (sp_stats sp)) (bp_kind b), sp')"
    and "size_pool_inv sp' (L1 @ L2)" and "buffer_size (sp_stats sp') = buffer_size (sp_stats sp)"
    and "page_bytes ` set (sp_pages sp') = page_bytes ` set (sp_pages sp)"
proof -
  let ?ss = "sp_stats sp" and ?n = "buffer_size (sp_stats sp)" and ?L = "L1 @ b # L2"
  from inv have n: "0 < ?n" and ok: "slot_ok ?n b"
    and "\<exists>p \<in> set (sp_pages sp). page_bytes p = bp_page b"
    by (auto simp: size_pool_inv_def)
  then obtain xs p ys where pg: "sp_pages sp = xs @ p # ys" and pb: "page_bytes p = bp_page b"
    by (metis split_list)
  have dist: "distinct (map page_bytes (xs @ p # ys))"
    using inv pg by (simp add: size_pool_inv_def)
  then have notin: "bp_page b \<notin> page_bytes ` set xs" using pb by auto
  define m where "m = reserved_bitmask p AND NOT (push_bit (slot ?n b) 1)"
  let ?p = "p\<lparr>reserved_bitmask := m\<rparr>"
  let ?ss' = "?ss\<lparr>reserved_buffers := (reserved_buffers ?ss)(bp_kind b := reserved_buffers ?ss (bp_kind b) - 1),
     empty_pages := empty_pages ?ss + (if m = 0 then 1 else 0)\<rparr>"
  have rel: "paged_buffer_drop ps sp b =
      Done (release_bytes ps ?n (bp_kind b), \<lparr>sp_pages = xs @ ?p # ys, sp_stats = ?ss'\<rparr>)"
    by (simp add: paged_buffer_drop_def pg release_in_pages_at [OF pb notin]
        page_release_live [OF ok refl pb n] m_def Let_def)
  have uniq: "(bp_page d, slot ?n d) \<noteq> (bp_page b, slot ?n b)" if "d \<in> set (L1 @ L2)" for d
  proof -
    have "distinct (map (\<lambda>b. (bp_page b, slot ?n b)) (L1 @ b # L2))"
      using inv by (simp only: size_pool_inv_def)
    from distinct_map_other [OF this that] show ?thesis .
  qed
  have po: "page_ok ?n ?L q" if "q \<in> set (xs @ p # ys)" for q
    using inv that pg by (auto simp: size_pool_inv_def)
  have mb: "bit m j \<longleftrightarrow> bit (reserved_bitmask p) j \<and> j \<noteq> slot ?n b" for j
    unfolding m_def using ok by (intro mask_bit_cleared) (simp add: slot_ok_def)
  have "page_ok ?n (L1 @ L2) ?p"
    using po [of p] mb uniq pb by (fastforce simp: page_ok_def)
  moreover have "page_ok ?n (L1 @ L2) q" if "q \<in> set (xs @ ys)" for q
    using po [of q] that pb distinct_map_other [OF dist that] by (auto simp: page_ok_def)
  moreover have "reserved_bitmask p \<noteq> 0"
    using po [of p] pb by (auto simp: page_ok_def mask_zero_iff)
  ultimately have "size_pool_inv \<lparr>sp_pages = xs @ ?p # ys, sp_stats = ?ss'\<rparr> (L1 @ L2)"
    using inv pg by (auto simp: size_pool_inv_def page_is_empty_def)
  then show thesis
    by (rule that [OF rel]) (simp_all add: pg)
qed

lemma retain_non_empty_eq:
  "retain_non_empty ss pages =
    (ss\<lparr>empty_pages := empty_pages ss - of_nat (length (filter page_is_empty pages))\<rparr>,
     filter (\<lambda>p. \<not> page_is_empty p) pages)"
  by (induction pages arbitrary: ss)
    (simp_all add: invalidate_if_empty_def page_is_empty_def remove_empty_page_def Let_def)

lemma size_pool_trim_inv:
  assumes inv: "size_pool_inv sp L"
  shows "size_pool_inv (fst (size_pool_trim sp)) L"
    and "buffer_size (sp_stats (fst (size_pool_trim sp))) = buffer_size (sp_stats sp)"
    and "page_bytes ` set (sp_pages (fst (size_pool_trim sp))) \<subseteq> page_bytes ` set (sp_pages sp)"
proof -
  have keep: "bp_page b \<in> page_bytes ` {p \<in> set (sp_pages sp). \<not> page_is_empty p}" if "b \<in> set L" for b
  proof -
    have "bp_page b \<in> page_bytes ` set (sp_pages sp)"
      using inv that by (simp add: size_pool_inv_def)
    then obtain p where p: "p \<in> set (sp_pages sp)" "bp_page b = page_bytes p" ..
    moreover have "page_ok (buffer_size (sp_stats sp)) L p"
      using inv p by (simp add: size_pool_inv_def)
    with that p have "\<not> page_is_empty p"
      by (auto simp: page_ok_def page_is_empty_def mask_zero_iff)
    ultimately show ?thesis by force
  qed
  show "size_pool_inv (fst (size_pool_trim sp)) L"
    using inv keep
    by (auto simp: size_pool_trim_def size_pool_inv_def retain_non_empty_eq Let_def distinct_map_filter)
qed (auto simp: size_pool_trim_def retain_non_empty_eq Let_def)

section \<open>The pool as a transition system\<close>

text \<open>
  A state is the pool and the list of live buffers. A fresh page is placed by the allocator outside of
  every page of the pool. The steps are the critical sections: getting a buffer (by
  \<open>size_pool_reserve_eq\<close> a failed fast path has no effect of its own), dropping one, trimming.
\<close>

definition page_span :: "size_pool \<Rightarrow> nat" where
  "page_span sp = buffers_per_page * buffer_size (sp_stats sp)"

definition apart :: "nat \<Rightarrow> nat \<Rightarrow> nat \<Rightarrow> nat \<Rightarrow> bool" where
  "apart a m b n \<longleftrightarrow> a + m \<le> b \<or> b + n \<le> a"

definition fresh_region :: "paged_pool \<Rightarrow> nat \<Rightarrow> nat \<Rightarrow> bool" where
  "fresh_region pool sz addr \<longleftrightarrow> (case get_pool_for_size pool sz of
     None \<Rightarrow> True
   | Some i \<Rightarrow> list_all (\<lambda>sp. list_all (\<lambda>p.
       apart addr (page_span (ordered_size_pools pool ! i)) (page_bytes p) (page_span sp)) (sp_pages sp))
       (ordered_size_pools pool))"

inductive pool_step :: "paged_pool \<times> pool_buffer list \<Rightarrow> paged_pool \<times> pool_buffer list \<Rightarrow> bool" where
  step_get: "get_buffer pool sz k addr = Done (pool', buf) \<Longrightarrow> fresh_region pool sz addr \<Longrightarrow>
    pool_step (pool, live) (pool', buf # live)"
| step_drop: "pool_buffer_drop pool buf = Done pool' \<Longrightarrow>
    pool_step (pool, live1 @ buf # live2) (pool', live1 @ live2)"
| step_trim: "pool_step (pool, live) (fst (pool_trim pool), live)"

inductive pool_reachable :: "nat list \<Rightarrow> paged_pool \<times> pool_buffer list \<Rightarrow> bool" for sizes where
  reach_new: "pool_reachable sizes (new_with_candidate_sizes sizes, [])"
| reach_step: "pool_reachable sizes s \<Longrightarrow> pool_step s t \<Longrightarrow> pool_reachable sizes t"

definition primaries :: "nat \<Rightarrow> pool_buffer list \<Rightarrow> paged_buffer_ptr list" where
  "primaries i live = concat (map (\<lambda>buf. case buf of
     Primary j b _ \<Rightarrow> if j = i then [b] else [] | Secondary _ _ \<Rightarrow> []) live)"

definition buffer_kind_in :: "pool_buffer \<Rightarrow> buffer_kind" where
  "buffer_kind_in buf = (case buf of Primary _ b _ \<Rightarrow> bp_kind b | Secondary _ k \<Rightarrow> k)"

text \<open>The memory a live buffer holds: the whole slot of a primary buffer.\<close>

definition footprint :: "paged_pool \<Rightarrow> pool_buffer \<Rightarrow> nat" where
  "footprint pool buf = (case buf of
     Primary i _ _ \<Rightarrow> buffer_size (sp_stats (ordered_size_pools pool ! i)) | Secondary data _ \<Rightarrow> length data)"

definition kind_footprint :: "paged_pool \<Rightarrow> buffer_kind \<Rightarrow> pool_buffer list \<Rightarrow> nat" where
  "kind_footprint pool k live =
     sum_list (map (\<lambda>buf. if buffer_kind_in buf = k then footprint pool buf else 0) live)"

definition buffer_ok :: "paged_pool \<Rightarrow> pool_buffer \<Rightarrow> bool" where
  "buffer_ok pool buf \<longleftrightarrow> (case buf of
     Primary i _ sz \<Rightarrow> i < length (ordered_size_pools pool) \<and>
       sz \<le> buffer_size (sp_stats (ordered_size_pools pool ! i))
   | Secondary _ _ \<Rightarrow> True)"

text \<open>Pages of different size pools, and different pages of one size pool, do not overlap.\<close>

definition pages_apart :: "size_pool list \<Rightarrow> bool" where
  "pages_apart sps \<longleftrightarrow> (\<forall>i < length sps. \<forall>j < length sps.
     \<forall>a \<in> page_bytes ` set (sp_pages (sps ! i)). \<forall>b \<in> page_bytes ` set (sp_pages (sps ! j)).
       i \<noteq> j \<or> a \<noteq> b \<longrightarrow> apart a (page_span (sps ! i)) b (page_span (sps ! j)))"

lemma pages_apartD:
  assumes "pages_apart sps" and "i < length sps" and "j < length sps"
    and "a \<in> page_bytes ` set (sp_pages (sps ! i))" and "b \<in> page_bytes ` set (sp_pages (sps ! j))"
    and "i \<noteq> j \<or> a \<noteq> b"
  shows "apart a (page_span (sps ! i)) b (page_span (sps ! j))"
  using assms unfolding pages_apart_def by blast

definition pool_inv :: "paged_pool \<times> pool_buffer list \<Rightarrow> bool" where
  "pool_inv s = (case s of (pool, live) \<Rightarrow>
     (\<forall>i < length (ordered_size_pools pool). size_pool_inv (ordered_size_pools pool ! i) (primaries i live)) \<and>
     pages_apart (ordered_size_pools pool) \<and> list_all (buffer_ok pool) live \<and>
     (\<forall>k. pool_stats_of pool k = of_nat (kind_footprint pool k live)))"

lemma primaries_simps [simp]:
  "primaries i [] = []"
  "primaries i (Primary j b sz # live) = (if j = i then b # primaries i live else primaries i live)"
  "primaries i (Secondary d k # live) = primaries i live"
  "primaries i (live1 @ live2) = primaries i live1 @ primaries i live2"
  by (simp_all add: primaries_def)

lemma kind_footprint_simps [simp]:
  "kind_footprint pool k [] = 0"
  "kind_footprint pool k (buf # live) =
     (if buffer_kind_in buf = k then footprint pool buf else 0) + kind_footprint pool k live"
  "kind_footprint pool k (live1 @ live2) = kind_footprint pool k live1 + kind_footprint pool k live2"
  by (simp_all add: kind_footprint_def)

lemma apart_sym: "apart a m b n \<longleftrightarrow> apart b n a m"
  by (auto simp: apart_def)

text \<open>Changing the pages of one size pool, keeping its size.\<close>

lemma pages_apart_update:
  assumes "pages_apart sps" and "i < length sps"
    and sz: "buffer_size (sp_stats sp) = buffer_size (sp_stats (sps ! i))"
    and new: "\<And>a. a \<in> page_bytes ` set (sp_pages sp) \<Longrightarrow> a \<notin> page_bytes ` set (sp_pages (sps ! i)) \<Longrightarrow>
      a = addr \<and> (\<forall>sp' \<in> set sps. \<forall>p \<in> set (sp_pages sp'). apart addr (page_span (sps ! i)) (page_bytes p) (page_span sp'))"
  shows "pages_apart (sps[i := sp])"
proof -
  have span: "page_span (sps[i := sp] ! j) = page_span (sps ! j)" if "j < length sps" for j
    using that assms(2) sz by (cases "j = i") (simp_all add: page_span_def)
  have old: "apart a (page_span (sps ! j)) b (page_span (sps ! l))"
    if "j < length sps" "l < length sps" "a \<in> page_bytes ` set (sp_pages (sps ! j))"
      "b \<in> page_bytes ` set (sp_pages (sps ! l))" "j \<noteq> l \<or> a \<noteq> b" for j l a b
    using assms(1) that unfolding pages_apart_def by blast
  have fresh: "apart addr (page_span (sps ! i)) b (page_span (sps ! l))"
    if "addr \<in> page_bytes ` set (sp_pages sp)" "addr \<notin> page_bytes ` set (sp_pages (sps ! i))"
      "l < length sps" "b \<in> page_bytes ` set (sp_pages (sps ! l))" for b l
    using new [OF that(1,2)] that(3,4) by fastforce
  show ?thesis
    unfolding pages_apart_def
  proof (intro allI impI ballI)
    fix j l a b
    assume jl: "j < length (sps[i := sp])" "l < length (sps[i := sp])" and ne: "j \<noteq> l \<or> a \<noteq> b"
      and a: "a \<in> page_bytes ` set (sp_pages (sps[i := sp] ! j))"
      and b: "b \<in> page_bytes ` set (sp_pages (sps[i := sp] ! l))"
    have a': "a \<in> page_bytes ` set (sp_pages (sps ! j)) \<or> j = i \<and> a = addr \<and> addr \<in> page_bytes ` set (sp_pages sp)
        \<and> addr \<notin> page_bytes ` set (sp_pages (sps ! i))"
      using a jl assms(2) new by (cases "j = i") auto
    have b': "b \<in> page_bytes ` set (sp_pages (sps ! l)) \<or> l = i \<and> b = addr \<and> addr \<in> page_bytes ` set (sp_pages sp)
        \<and> addr \<notin> page_bytes ` set (sp_pages (sps ! i))"
      using b jl assms(2) new by (cases "l = i") auto
    have "apart a (page_span (sps ! j)) b (page_span (sps ! l))"
      using a' b' old [of j l a b] fresh jl ne by (metis apart_sym length_list_update)
    then show "apart a (page_span (sps[i := sp] ! j)) b (page_span (sps[i := sp] ! l))"
      using span jl by simp
  qed
qed

lemma pages_apart_mono:
  assumes "pages_apart sps" and "length sps' = length sps"
    and "\<And>i. i < length sps \<Longrightarrow> buffer_size (sp_stats (sps' ! i)) = buffer_size (sp_stats (sps ! i))"
    and "\<And>i. i < length sps \<Longrightarrow> page_bytes ` set (sp_pages (sps' ! i)) \<subseteq> page_bytes ` set (sp_pages (sps ! i))"
  shows "pages_apart sps'"
  unfolding pages_apart_def
proof (intro allI impI ballI)
  fix i j a b
  assume ij: "i < length sps'" "j < length sps'" "i \<noteq> j \<or> a \<noteq> b"
    and "a \<in> page_bytes ` set (sp_pages (sps' ! i))" "b \<in> page_bytes ` set (sp_pages (sps' ! j))"
  then have "a \<in> page_bytes ` set (sp_pages (sps ! i))" "b \<in> page_bytes ` set (sp_pages (sps ! j))"
    using assms(2,4) by auto
  with ij assms(1,2) have "apart a (page_span (sps ! i)) b (page_span (sps ! j))"
    unfolding pages_apart_def by auto
  with ij assms(2,3) show "apart a (page_span (sps' ! i)) b (page_span (sps' ! j))"
    by (simp add: page_span_def)
qed

lemma same_sizes:
  assumes "map (\<lambda>sp. buffer_size (sp_stats sp)) (ordered_size_pools pool') =
    map (\<lambda>sp. buffer_size (sp_stats sp)) (ordered_size_pools pool)" and "buffer_ok pool buf"
  shows "buffer_ok pool' buf" and "footprint pool' buf = footprint pool buf"
proof -
  have "length (ordered_size_pools pool') = length (ordered_size_pools pool)"
    using assms(1) map_eq_imp_length_eq by blast
  moreover have "i < length (ordered_size_pools pool) \<Longrightarrow>
    buffer_size (sp_stats (ordered_size_pools pool' ! i)) = buffer_size (sp_stats (ordered_size_pools pool ! i))" for i
    using assms(1) by (metis calculation nth_map)
  ultimately show "buffer_ok pool' buf" "footprint pool' buf = footprint pool buf"
    using assms(2) by (auto simp: buffer_ok_def footprint_def split: pool_buffer.splits)
qed

lemma kind_footprint_same_sizes:
  assumes "map (\<lambda>sp. buffer_size (sp_stats sp)) (ordered_size_pools pool') =
    map (\<lambda>sp. buffer_size (sp_stats sp)) (ordered_size_pools pool)" and "list_all (buffer_ok pool) live"
  shows "kind_footprint pool' k live = kind_footprint pool k live"
  using assms(2) by (induction live) (simp_all add: same_sizes [OF assms(1)])

lemma pool_inv_update:
  assumes inv: "pool_inv (pool, live)" and i: "i < length (ordered_size_pools pool)"
    and sz: "buffer_size (sp_stats sp) = buffer_size (sp_stats (ordered_size_pools pool ! i))"
    and sp: "size_pool_inv sp (primaries i live')"
    and other: "\<And>j. j \<noteq> i \<Longrightarrow> primaries j live' = primaries j live"
    and pages: "pages_apart ((ordered_size_pools pool)[i := sp])"
    and ok: "list_all (buffer_ok pool) live'"
    and stats: "\<And>k. ps k = of_nat (kind_footprint pool k live')"
  shows "pool_inv (\<lparr>ordered_size_pools = (ordered_size_pools pool)[i := sp], pool_stats_of = ps\<rparr>, live')"
    (is "pool_inv (?pool, _)")
proof -
  have same: "map (\<lambda>sp. buffer_size (sp_stats sp)) (ordered_size_pools ?pool) =
    map (\<lambda>sp. buffer_size (sp_stats sp)) (ordered_size_pools pool)"
    using i sz by (auto simp: list_eq_iff_nth_eq nth_list_update)
  have "list_all (buffer_ok ?pool) live'"
    using ok same_sizes(1) [OF same] by (auto simp: list_all_iff)
  moreover have "size_pool_inv ((ordered_size_pools pool)[i := sp] ! j) (primaries j live')"
    if "j < length (ordered_size_pools pool)" for j
    using that inv sp other i by (cases "j = i") (auto simp: pool_inv_def)
  ultimately show ?thesis
    using pages stats kind_footprint_same_sizes [OF same ok] by (simp add: pool_inv_def)
qed

lemma stats_update_simps [simp]:
  "footprint (pool\<lparr>pool_stats_of := ps\<rparr>) = footprint pool"
  "buffer_ok (pool\<lparr>pool_stats_of := ps\<rparr>) = buffer_ok pool"
  by (auto simp: fun_eq_iff footprint_def buffer_ok_def split: pool_buffer.splits)

lemma kind_footprint_stats_update [simp]:
  "kind_footprint (pool\<lparr>pool_stats_of := ps\<rparr>) k live = kind_footprint pool k live"
  by (simp add: kind_footprint_def cong: if_cong)

lemma pool_inv_stats_update:
  assumes "pool_inv (pool, live)" and "\<And>j. primaries j live' = primaries j live"
    and "list_all (buffer_ok pool) live'" and "\<And>k. ps k = of_nat (kind_footprint pool k live')"
  shows "pool_inv (pool\<lparr>pool_stats_of := ps\<rparr>, live')"
  using assms by (simp add: pool_inv_def)

lemma get_pool_for_size_Some:
  assumes "get_pool_for_size pool sz = Some i"
  shows "i < length (ordered_size_pools pool)"
    and "sz \<le> buffer_size (sp_stats (ordered_size_pools pool ! i))"
    and "\<And>j. j < i \<Longrightarrow> buffer_size (sp_stats (ordered_size_pools pool ! j)) < sz"
proof -
  let ?P = "\<lambda>sp. buffer_size (sp_stats sp) < sz"
  from assms have i: "i = length (takeWhile ?P (ordered_size_pools pool))"
    and ne: "i \<noteq> length (ordered_size_pools pool)"
    by (auto simp: get_pool_for_size_def Let_def split: if_splits)
  show lt: "i < length (ordered_size_pools pool)"
    using i ne length_takeWhile_le [of ?P "ordered_size_pools pool"] by simp
  then show "sz \<le> buffer_size (sp_stats (ordered_size_pools pool ! i))"
    using nth_length_takeWhile [of ?P "ordered_size_pools pool"] i by (simp add: not_less)
  show "buffer_size (sp_stats (ordered_size_pools pool ! j)) < sz" if "j < i" for j
    using that i by (metis nth_mem set_takeWhileD takeWhile_nth)
qed

text \<open>Getting a buffer always succeeds and keeps the invariant.\<close>

lemma get_buffer_inv:
  assumes inv: "pool_inv (pool, live)" and fresh: "fresh_region pool sz addr"
  obtains pool' buf where "get_buffer pool sz k addr = Done (pool', buf)" and "pool_inv (pool', buf # live)"
    and "pool_buffer_capacity buf = sz" and "buffer_kind_in buf = k"
proof (cases "get_pool_for_size pool sz")
  case None
  let ?pool = "pool\<lparr>pool_stats_of := reserve_bytes (pool_stats_of pool) sz k\<rparr>"
  have g: "get_buffer pool sz k addr = Done (?pool, Secondary (replicate sz 0) k)"
    using None by (simp add: get_buffer_def new_secondary_def)
  have "pool_inv (?pool, Secondary (replicate sz 0) k # live)"
    by (rule pool_inv_stats_update [OF inv])
      (use inv in \<open>auto simp: pool_inv_def buffer_ok_def buffer_kind_in_def footprint_def reserve_bytes_def\<close>)
  from that [OF g this] show thesis
    by (simp add: pool_buffer_capacity_def buffer_kind_in_def)
next
  case (Some i)
  note i = get_pool_for_size_Some [OF Some]
  let ?sp = "ordered_size_pools pool ! i"
  have sinv: "size_pool_inv ?sp (primaries i live)" using inv i(1) by (simp add: pool_inv_def)
  have apart: "\<forall>sp' \<in> set (ordered_size_pools pool). \<forall>p \<in> set (sp_pages sp').
      apart addr (page_span ?sp) (page_bytes p) (page_span sp')"
    using fresh Some by (auto simp: fresh_region_def list_all_iff)
  have "0 < page_span ?sp" using sinv by (simp add: size_pool_inv_def page_span_def buffers_per_page_def)
  then have "addr \<notin> page_bytes ` set (sp_pages ?sp)"
    using apart i(1) by (fastforce simp: apart_def)
  then obtain sp' b where r: "reserve_slow (pool_stats_of pool) ?sp k addr =
      Done (reserve_bytes (pool_stats_of pool) (buffer_size (sp_stats ?sp)) k, sp', b)"
    and sp': "size_pool_inv sp' (b # primaries i live)" "buffer_size (sp_stats sp') = buffer_size (sp_stats ?sp)"
    and k: "bp_kind b = k"
    and bases: "page_bytes ` set (sp_pages sp') = page_bytes ` set (sp_pages ?sp) \<or>
      page_bytes ` set (sp_pages sp') = insert addr (page_bytes ` set (sp_pages ?sp))"
    by (rule reserve_slow_inv [OF sinv])
  let ?ps = "reserve_bytes (pool_stats_of pool) (buffer_size (sp_stats ?sp)) k"
  let ?pool = "\<lparr>ordered_size_pools = (ordered_size_pools pool)[i := sp'], pool_stats_of = ?ps\<rparr>"
  have g: "get_buffer pool sz k addr = Done (?pool, Primary i b sz)"
    using Some r sp'(2) i by (simp add: get_buffer_def size_pool_reserve_eq new_primary_def)
  have "pages_apart ((ordered_size_pools pool)[i := sp'])"
    by (rule pages_apart_update [where addr = addr]) (use inv i(1) sp'(2) bases apart in \<open>auto simp: pool_inv_def\<close>)
  then have "pool_inv (?pool, Primary i b sz # live)"
    by (intro pool_inv_update [OF inv i(1) sp'(2)])
      (use sp'(1) inv i k in \<open>auto simp: pool_inv_def buffer_ok_def reserve_bytes_def buffer_kind_in_def footprint_def\<close>)
  from that [OF g this] show thesis
    using k by (simp add: pool_buffer_capacity_def buffer_kind_in_def)
qed

text \<open>Dropping a live buffer never panics and keeps the invariant; so does a trim.\<close>

lemma pool_buffer_drop_inv:
  assumes inv: "pool_inv (pool, live1 @ buf # live2)"
  obtains pool' where "pool_buffer_drop pool buf = Done pool'" and "pool_inv (pool', live1 @ live2)"
proof (cases buf)
  case (Secondary data k)
  let ?pool = "pool\<lparr>pool_stats_of := release_bytes (pool_stats_of pool) (length data) k\<rparr>"
  have d: "pool_buffer_drop pool buf = Done ?pool"
    using Secondary by (simp add: pool_buffer_drop_def)
  have "pool_inv (?pool, live1 @ live2)"
    by (rule pool_inv_stats_update [OF inv])
      (use inv Secondary in \<open>auto simp: pool_inv_def buffer_kind_in_def footprint_def release_bytes_def\<close>)
  with d show thesis by (rule that)
next
  case (Primary i b sz)
  let ?sp = "ordered_size_pools pool ! i"
  have i: "i < length (ordered_size_pools pool)"
    using inv Primary by (auto simp: pool_inv_def buffer_ok_def)
  have "size_pool_inv ?sp (primaries i (live1 @ buf # live2))"
    using inv i by (simp only: pool_inv_def prod.case)
  then have "size_pool_inv ?sp (primaries i live1 @ b # primaries i live2)"
    using Primary by simp
  then obtain sp' where r: "paged_buffer_drop (pool_stats_of pool) ?sp b =
      Done (release_bytes (pool_stats_of pool) (buffer_size (sp_stats ?sp)) (bp_kind b), sp')"
    and sp': "size_pool_inv sp' (primaries i live1 @ primaries i live2)"
      "buffer_size (sp_stats sp') = buffer_size (sp_stats ?sp)"
    and bases: "page_bytes ` set (sp_pages sp') = page_bytes ` set (sp_pages ?sp)"
    by (rule paged_buffer_drop_inv)
  have "pages_apart ((ordered_size_pools pool)[i := sp'])"
    by (rule pages_apart_update [where addr = 0]) (use inv i sp'(2) bases in \<open>auto simp: pool_inv_def\<close>)
  then have "pool_inv (\<lparr>ordered_size_pools = (ordered_size_pools pool)[i := sp'],
      pool_stats_of = release_bytes (pool_stats_of pool) (buffer_size (sp_stats ?sp)) (bp_kind b)\<rparr>, live1 @ live2)"
    by (intro pool_inv_update [OF inv i sp'(2)])
      (use sp'(1) inv Primary in \<open>auto simp: pool_inv_def release_bytes_def buffer_kind_in_def footprint_def\<close>)
  with r Primary show thesis
    by (intro that) (auto simp: pool_buffer_drop_def)
qed

lemma pool_trim_inv:
  assumes inv: "pool_inv (pool, live)"
  shows "pool_inv (fst (pool_trim pool), live)"
proof -
  let ?sps = "ordered_size_pools pool" and ?pool = "fst (pool_trim pool)"
  have sps: "ordered_size_pools ?pool = map (\<lambda>sp. fst (size_pool_trim sp)) ?sps"
    and stats: "pool_stats_of ?pool = pool_stats_of pool"
    by (simp_all add: pool_trim_def Let_def comp_def)
  have s: "size_pool_inv (?sps ! i) (primaries i live)" if "i < length ?sps" for i
    using inv that by (simp add: pool_inv_def)
  note trim = size_pool_trim_inv [OF s]
  have same: "map (\<lambda>sp. buffer_size (sp_stats sp)) (ordered_size_pools ?pool) = map (\<lambda>sp. buffer_size (sp_stats sp)) ?sps"
    using trim(2) by (auto simp: sps list_eq_iff_nth_eq)
  have ok: "list_all (buffer_ok pool) live" using inv by (simp add: pool_inv_def)
  have "list_all (buffer_ok ?pool) live"
    using ok same_sizes(1) [OF same] by (auto simp: list_all_iff)
  moreover have "pages_apart (ordered_size_pools ?pool)"
    by (rule pages_apart_mono [of ?sps]) (use inv trim(2,3) in \<open>simp_all add: pool_inv_def sps\<close>)
  ultimately show ?thesis
    using inv trim(1) stats kind_footprint_same_sizes [OF same ok] by (simp add: pool_inv_def sps)
qed

lemma candidate_sizes_pos: "n \<in> set (candidate_sizes sizes) \<Longrightarrow> 0 < n \<and> n \<le> max_buffer_size"
  by (auto simp: candidate_sizes_def Let_def default_buffer_size_def max_buffer_size_def split: if_splits)

lemma pool_inv_new: "pool_inv (new_with_candidate_sizes sizes, [])"
  using candidate_sizes_pos nth_mem
  by (fastforce simp: pool_inv_def new_with_candidate_sizes_def size_pool_inv_def size_pool_stats_new_def pages_apart_def)

lemma pool_step_inv: "pool_step s t \<Longrightarrow> pool_inv s \<Longrightarrow> pool_inv t"
proof (induction rule: pool_step.induct)
  case (step_get pool sz k addr pool' buf live)
  then show ?case using get_buffer_inv [of pool live sz addr k] by auto
next
  case (step_drop pool buf pool' live1 live2)
  then show ?case using pool_buffer_drop_inv [of pool live1 buf live2] by auto
qed (rule pool_trim_inv)

lemma pool_reachable_inv: "pool_reachable sizes s \<Longrightarrow> pool_inv s"
  by (induction rule: pool_reachable.induct) (auto intro: pool_inv_new pool_step_inv)

section \<open>Live buffers are disjoint\<close>

lemma two_elements:
  assumes "i < j" and "j < length xs"
  obtains A B C where "xs = A @ xs ! i # B @ xs ! j # C"
proof -
  have "xs = take i xs @ xs ! i # drop (Suc i) xs"
    using assms by (simp add: id_take_nth_drop)
  moreover have "drop (Suc i) xs ! (j - Suc i) = xs ! j" and "j - Suc i < length (drop (Suc i) xs)"
    using assms by simp_all
  ultimately show thesis
    using that id_take_nth_drop [of "j - Suc i" "drop (Suc i) xs"] by metis
qed

definition buffer_range_apart :: "pool_buffer \<Rightarrow> pool_buffer \<Rightarrow> bool" where
  "buffer_range_apart x y = (case (x, y) of
     (Primary _ b m, Primary _ c n) \<Rightarrow> apart (bp_ptr b) m (bp_ptr c) n | _ \<Rightarrow> True)"

lemma buffer_range_apart_sym: "buffer_range_apart x y \<longleftrightarrow> buffer_range_apart y x"
  by (auto simp: buffer_range_apart_def apart_sym split: pool_buffer.splits)

lemma slots_apart:
  assumes "slot_ok n b" and "slot_ok n c" and "bp_page b = bp_page c" and "slot n b \<noteq> slot n c"
    and "sb \<le> n" and "sc \<le> n"
  shows "apart (bp_ptr b) sb (bp_ptr c) sc"
proof -
  have "slot n b * n + n \<le> slot n c * n \<or> slot n c * n + n \<le> slot n b * n"
    using assms(4) by (metis add.commute linorder_neqE_nat mult_Suc mult_le_mono1 Suc_leI)
  then show ?thesis
    using assms(1,2,3,5,6) unfolding slot_ok_def apart_def by linarith
qed

lemma slot_in_page:
  assumes "slot_ok n b" and "sb \<le> n"
  shows "bp_page b \<le> bp_ptr b" and "bp_ptr b + sb \<le> bp_page b + 16 * n"
proof -
  have "slot n b * n + n \<le> 16 * n"
    using assms(1) mult_le_mono1 [of "Suc (slot n b)" 16 n] by (simp add: slot_ok_def)
  then show "bp_ptr b + sb \<le> bp_page b + 16 * n"
    using assms unfolding slot_ok_def by linarith
qed (use assms in \<open>simp add: slot_ok_def\<close>)

lemma live_ordered_apart:
  assumes inv: "pool_inv (pool, A @ x # B @ y # C)"
  shows "buffer_range_apart x y"
proof (cases "\<exists>i b m j c n. x = Primary i b m \<and> y = Primary j c n")
  case True
  then obtain i b m j c n where x: "x = Primary i b m" and y: "y = Primary j c n" by blast
  let ?live = "A @ x # B @ y # C" and ?sps = "ordered_size_pools pool"
  let ?ni = "buffer_size (sp_stats (?sps ! i))" and ?nj = "buffer_size (sp_stats (?sps ! j))"
  have i: "i < length ?sps" "m \<le> ?ni" and j: "j < length ?sps" "n \<le> ?nj"
    using inv x y by (auto simp: pool_inv_def buffer_ok_def)
  have "\<forall>i < length ?sps. size_pool_inv (?sps ! i) (primaries i ?live)"
    by (rule inv [unfolded pool_inv_def prod.case, THEN conjunct1])
  then have si: "size_pool_inv (?sps ! i) (primaries i ?live)" and sj: "size_pool_inv (?sps ! j) (primaries j ?live)"
    using i(1) j(1) by blast+
  have pa: "pages_apart ?sps"
    by (rule inv [unfolded pool_inv_def prod.case, THEN conjunct2, THEN conjunct1])
  have b: "slot_ok ?ni b" "bp_page b \<in> page_bytes ` set (sp_pages (?sps ! i))"
    using x by (auto intro: size_pool_inv_member [OF si])
  have c: "slot_ok ?nj c" "bp_page c \<in> page_bytes ` set (sp_pages (?sps ! j))"
    using y by (auto intro!: size_pool_inv_member [OF sj] simp: primaries_def)
  have "apart (bp_ptr b) m (bp_ptr c) n"
  proof (cases "i = j \<and> bp_page b = bp_page c")
    case True
    have "distinct (map (\<lambda>b. (bp_page b, slot ?ni b)) (primaries i ?live))"
      using si by (simp only: size_pool_inv_def)
    then have "slot ?ni b \<noteq> slot ?ni c"
      using True x y by auto
    with True b(1) c(1) i(2) j(2) show ?thesis
      by (intro slots_apart) auto
  next
    case False
    then have "apart (bp_page b) (page_span (?sps ! i)) (bp_page c) (page_span (?sps ! j))"
      by (intro pages_apartD [OF pa i(1) j(1) b(2) c(2)]) blast
    with slot_in_page [OF b(1) i(2)] slot_in_page [OF c(1) j(2)] show ?thesis
      unfolding apart_def page_span_def buffers_per_page_def by linarith
  qed
  with x y show ?thesis by (simp add: buffer_range_apart_def)
qed (auto simp: buffer_range_apart_def split: pool_buffer.splits)

lemma live_apart:
  assumes "pool_inv (pool, live)" and "i < length live" and "j < length live" and "i \<noteq> j"
  shows "buffer_range_apart (live ! i) (live ! j)"
proof (cases "i < j")
  case True
  from two_elements [OF this assms(3)] live_ordered_apart assms(1) show ?thesis by metis
next
  case False
  then have "j < i" using assms(4) by simp
  from two_elements [OF this assms(2)] live_ordered_apart assms(1) show ?thesis
    by (metis buffer_range_apart_sym)
qed

text \<open>Writing through one buffer.\<close>

lemma copy_from_slice_spec:
  assumes "at + length xs \<le> pool_buffer_capacity buf"
  obtains mem' buf' where "copy_from_slice mem buf at xs = Done (mem', buf')"
    and "pool_buffer_capacity buf' = pool_buffer_capacity buf"
    and "take (at + length xs) (pool_buffer_deref mem' buf') = take at (pool_buffer_deref mem buf) @ xs"
    and "\<forall>other. buffer_range_apart buf other \<longrightarrow> pool_buffer_deref mem' other = pool_buffer_deref mem other"
proof (cases buf)
  case (Secondary data k)
  then show thesis
    using assms
    by (intro that [of mem "Secondary (take at data @ xs @ drop (at + length xs) data) k"])
      (auto simp: copy_from_slice_def pool_buffer_capacity_def pool_buffer_deref_def)
next
  case (Primary i b sz)
  let ?s = "bp_ptr b + at"
  let ?mem = "\<lambda>a. if ?s \<le> a \<and> a < ?s + length xs then xs ! (a - ?s) else mem a"
  have range: "at + length xs \<le> sz" using assms Primary by (simp add: pool_buffer_capacity_def)
  show thesis
  proof (rule that [of ?mem buf])
    show "take (at + length xs) (pool_buffer_deref ?mem buf) = take at (pool_buffer_deref mem buf) @ xs"
      using Primary range
      by (auto simp: pool_buffer_deref_def list_eq_iff_nth_eq nth_append)
    show "\<forall>other. buffer_range_apart buf other \<longrightarrow> pool_buffer_deref ?mem other = pool_buffer_deref mem other"
    proof (intro allI impI)
      fix other assume "buffer_range_apart buf other"
      then show "pool_buffer_deref ?mem other = pool_buffer_deref mem other"
        using Primary range
        by (auto simp: pool_buffer_deref_def buffer_range_apart_def apart_def split: pool_buffer.splits)
    qed
  qed (use Primary assms in \<open>auto simp: copy_from_slice_def Let_def\<close>)
qed

section \<open>Properties\<close>

text \<open>
  C13: buffers of the pool are isolated. In every state the pool can reach, for any two different live
  buffers, appending a slice through the first (as a \<open>PoolBufferMut\<close> filled up to \<open>pm_len\<close>) never
  panics, stores exactly the bytes that fit after those already there, returns the rest as the
  overflow, and leaves the contents of the second buffer unchanged.
\<close>

theorem append_from_slice_isolated:
  assumes reach: "pool_reachable sizes (pool, live)" and ij: "i < length live" "j < length live" "i \<noteq> j"
    and pm: "pm_buffer pm = live ! i" "pm_len pm \<le> pool_buffer_capacity (live ! i)"
  shows "\<exists>mem' pm'. let n = min (pool_buffer_capacity (live ! i) - pm_len pm) (length xs) in
    append_from_slice mem pm xs = Done (mem', pm', take n xs, drop n xs) \<and>
    pool_buffer_mut_deref mem' pm' = pool_buffer_mut_deref mem pm @ take n xs \<and>
    pool_buffer_deref mem' (live ! j) = pool_buffer_deref mem (live ! j)"
proof -
  let ?n = "min (pool_buffer_capacity (live ! i) - pm_len pm) (length xs)"
  have "pm_len pm + length (take ?n xs) \<le> pool_buffer_capacity (pm_buffer pm)"
    using pm by auto
  then obtain mem' buf' where c: "copy_from_slice mem (pm_buffer pm) (pm_len pm) (take ?n xs) = Done (mem', buf')"
    and "pool_buffer_capacity buf' = pool_buffer_capacity (pm_buffer pm)"
    and d: "take (pm_len pm + length (take ?n xs)) (pool_buffer_deref mem' buf') =
      take (pm_len pm) (pool_buffer_deref mem (pm_buffer pm)) @ take ?n xs"
    and o: "\<forall>other. buffer_range_apart (pm_buffer pm) other \<longrightarrow>
      pool_buffer_deref mem' other = pool_buffer_deref mem other"
    by (rule copy_from_slice_spec [where mem = mem])
  let ?pm = "\<lparr>pm_buffer = buf', pm_len = pm_len pm + length (take ?n xs)\<rparr>"
  have "append_from_slice mem pm xs = Done (mem', ?pm, take ?n xs, drop ?n xs)"
    using c pm by (simp add: append_from_slice_def Let_def)
  moreover have "pool_buffer_deref mem' (live ! j) = pool_buffer_deref mem (live ! j)"
    using o live_apart [OF pool_reachable_inv [OF reach] ij] pm(1) by simp
  ultimately show ?thesis
    using d by (auto simp: pool_buffer_mut_deref_def Let_def)
qed

definition witness_pool1 :: paged_pool where
  "witness_pool1 = \<lparr>ordered_size_pools = [\<lparr>sp_pages = [\<lparr>page_bytes = 100, reserved_bitmask = 1\<rparr>],
      sp_stats = \<lparr>buffer_size = 4, empty_pages = 0, reserved_buffers = (\<lambda>_. 0)(GetObject := 1)\<rparr>\<rparr>],
    pool_stats_of = (\<lambda>_. 0)(GetObject := 4)\<rparr>"

definition witness_pool2 :: paged_pool where
  "witness_pool2 = \<lparr>ordered_size_pools = [\<lparr>sp_pages = [\<lparr>page_bytes = 100, reserved_bitmask = 3\<rparr>],
      sp_stats = \<lparr>buffer_size = 4, empty_pages = 0, reserved_buffers = (\<lambda>_. 0)(GetObject := 1, Append := 1)\<rparr>\<rparr>],
    pool_stats_of = (\<lambda>_. 0)(GetObject := 4, Append := 4)\<rparr>"

definition witness_live :: "pool_buffer list" where
  "witness_live = [Primary 0 \<lparr>bp_ptr = 104, bp_page = 100, bp_kind = Append\<rparr> 3,
     Primary 0 \<lparr>bp_ptr = 100, bp_page = 100, bp_kind = GetObject\<rparr> 4]"

lemmas get_buffer_eval = get_buffer_def get_pool_for_size_def size_pool_reserve_eq reserve_slow_def
  page_try_reserve_def consume_def full_mask_def page_new_def add_empty_page_def remove_empty_page_def
  add_reserved_buffer_def reserve_bytes_def new_primary_def size_pool_stats_new_def upt_conv_Cons

lemma witness_reachable: "pool_reachable [4] (witness_pool2, witness_live)"
proof -
  let ?p0 = "new_with_candidate_sizes [4]"
  have p0: "?p0 = \<lparr>ordered_size_pools = [\<lparr>sp_pages = [], sp_stats = size_pool_stats_new 4\<rparr>], pool_stats_of = (\<lambda>_. 0)\<rparr>"
    by (simp add: new_with_candidate_sizes_def candidate_sizes_def max_buffer_size_def)
  have "get_buffer ?p0 4 GetObject 100 = Done (witness_pool1, witness_live ! 1)"
    by (simp add: p0 get_buffer_eval witness_pool1_def witness_live_def)
  moreover have "fresh_region ?p0 4 100"
    by (simp add: fresh_region_def p0 get_pool_for_size_def size_pool_stats_new_def)
  ultimately have r1: "pool_reachable [4] (witness_pool1, [witness_live ! 1])"
    by (rule reach_step [OF reach_new step_get])
  have "get_buffer witness_pool1 3 Append 200 = Done (witness_pool2, witness_live ! 0)"
    by (simp add: get_buffer_eval witness_pool1_def witness_pool2_def witness_live_def)
  moreover have "fresh_region witness_pool1 3 200"
    by (simp add: fresh_region_def witness_pool1_def get_pool_for_size_def apart_def page_span_def buffers_per_page_def)
  ultimately have "pool_reachable [4] (witness_pool2, [witness_live ! 0, witness_live ! 1])"
    by (rule reach_step [OF r1 step_get])
  then show ?thesis by (simp add: witness_live_def)
qed

theorem append_from_slice_isolated_witness:
  "\<exists>mem' pm'. append_from_slice (\<lambda>_. 0) \<lparr>pm_buffer = witness_live ! 0, pm_len = 1\<rparr> [7, 8, 9] = Done (mem', pm', [7, 8], [9]) \<and>
    pool_buffer_mut_deref mem' pm' = [0, 7, 8] \<and> pool_buffer_deref mem' (witness_live ! 1) = [0, 0, 0, 0]"
  using append_from_slice_isolated [OF witness_reachable, of 0 1 "\<lparr>pm_buffer = witness_live ! 0, pm_len = 1\<rparr>" "[7, 8, 9]" "\<lambda>_. 0"]
  by (simp add: witness_live_def pool_buffer_capacity_def pool_buffer_mut_deref_def pool_buffer_deref_def upt_conv_Cons)

text \<open>
  C14: the accounting of the pool is exact and its buffers can always be returned. In every reachable state
  the bytes reported for a kind (which the memory limiter reads) are the sum of what the live buffers of
  that kind hold, the empty-page counter of each size pool counts its pages without a live buffer,
  dropping any live buffer succeeds (its page is still in the pool, so a trim never frees a page in use),
  and a new buffer of any size can be obtained.
\<close>

theorem pool_accounting_exact:
  assumes "pool_reachable sizes (pool, live)"
  shows "reserved_bytes pool k = of_nat (kind_footprint pool k live) \<and>
    list_all (\<lambda>sp. empty_pages (sp_stats sp) = of_nat (length (filter page_is_empty (sp_pages sp))))
      (ordered_size_pools pool) \<and>
    (\<forall>buf \<in> set live. \<exists>pool'. pool_buffer_drop pool buf = Done pool') \<and>
    (\<forall>sz kd addr. fresh_region pool sz addr \<longrightarrow>
      (\<exists>pool' buf. get_buffer pool sz kd addr = Done (pool', buf) \<and> pool_buffer_capacity buf = sz))"
proof (intro conjI ballI allI impI)
  note inv = pool_reachable_inv [OF assms]
  show "reserved_bytes pool k = of_nat (kind_footprint pool k live)"
    using inv by (simp add: reserved_bytes_def pool_inv_def)
  show "list_all (\<lambda>sp. empty_pages (sp_stats sp) = of_nat (length (filter page_is_empty (sp_pages sp))))
      (ordered_size_pools pool)"
    using inv by (auto simp: list_all_length pool_inv_def size_pool_inv_def)
  show "\<exists>pool'. pool_buffer_drop pool buf = Done pool'" if "buf \<in> set live" for buf
    using inv split_list [OF that] by (metis pool_buffer_drop_inv)
  show "\<exists>pool' buf. get_buffer pool sz kd addr = Done (pool', buf) \<and> pool_buffer_capacity buf = sz"
    if "fresh_region pool sz addr" for sz kd addr
    using get_buffer_inv [OF inv that] by metis
qed

theorem pool_accounting_exact_witness:
  "reserved_bytes witness_pool2 Append = 4 \<and> (\<exists>pool'. pool_buffer_drop witness_pool2 (witness_live ! 0) = Done pool') \<and>
    fresh_region witness_pool2 4 200 \<and> (\<exists>pool' buf. get_buffer witness_pool2 4 PutObject 200 = Done (pool', buf))"
proof -
  have f: "fresh_region witness_pool2 4 200"
    by (simp add: fresh_region_def witness_pool2_def get_pool_for_size_def apart_def page_span_def buffers_per_page_def)
  have "kind_footprint witness_pool2 Append witness_live = 4"
    by (simp add: kind_footprint_def witness_live_def footprint_def witness_pool2_def buffer_kind_in_def)
  moreover have "witness_live ! 0 \<in> set witness_live" by (simp add: witness_live_def)
  ultimately show ?thesis
    using f pool_accounting_exact [OF witness_reachable, of Append] by auto blast
qed

end
