(* ===== verification/Mem_Limiter.thy ===== *)
theory Mem_Limiter
  imports Paged_Pool
begin

text \<open>
  The memory limiter of \<open>mountpoint-s3-fs/src/mem_limiter.rs\<close>. One limiter is shared by all prefetchers and
  uploaders, so its atomic counter changes under the feet of each of them. The other holders are part
  of the state: \<open>ml_env\<close> lists what they will do, one entry per point at which this thread observes the
  counter, and an exhausted list is a quiet environment. The compare-and-exchange loop of \<open>try_reserve\<close>
  consumes one entry per iteration; it therefore terminates against every finite interference.
\<close>

section \<open>State\<close>

datatype buffer_area = Upload | Prefetch

record interference =
  if_reserved :: u64
  if_pool :: paged_pool
  if_spurious :: bool

record mem_limiter =
  mem_limit :: u64
  mem_reserved :: u64
  additional_mem_reserved :: u64
  ml_pool :: paged_pool
  ml_env :: "interference list"

definition others_step :: "mem_limiter \<Rightarrow> mem_limiter" where
  "others_step ml = (case ml_env ml of
     [] \<Rightarrow> ml
   | e # es \<Rightarrow> ml\<lparr>mem_reserved := mem_reserved ml + if_reserved e, ml_pool := if_pool e, ml_env := es\<rparr>)"

section \<open>Operations\<close>

definition min_reserved :: u64 where
  "min_reserved = 128 * 1024 * 1024"

definition mem_limiter_new :: "paged_pool \<Rightarrow> u64 \<Rightarrow> interference list \<Rightarrow> mem_limiter" where
  "mem_limiter_new pool limit env =
     \<lparr>mem_limit = limit, mem_reserved = 0, additional_mem_reserved = max (limit div 8) min_reserved,
      ml_pool = pool, ml_env = env\<rparr>"

definition mem_reserve :: "mem_limiter \<Rightarrow> u64 \<Rightarrow> mem_limiter" where
  "mem_reserve ml n = ml\<lparr>mem_reserved := mem_reserved ml + n\<rparr>"

definition mem_release :: "mem_limiter \<Rightarrow> u64 \<Rightarrow> mem_limiter" where
  "mem_release ml n = ml\<lparr>mem_reserved := mem_reserved ml - n\<rparr>"

definition pool_mem_reserved :: "paged_pool \<Rightarrow> u64" where
  "pool_mem_reserved pool = reserved_bytes pool PutObject + reserved_bytes pool Other"

definition total_mem_usage :: "mem_limiter \<Rightarrow> paged_pool \<Rightarrow> u64 \<Rightarrow> u64" where
  "total_mem_usage ml pool reserved =
     sat_add_word (sat_add_word reserved (pool_mem_reserved pool)) (additional_mem_reserved ml)"

text \<open>
  \<open>mem\<close> is the local variable \<open>mem_reserved\<close> of the loop. The environment acts between the read of the
  pool and the \<open>compare_exchange_weak\<close>, which may also fail spuriously.
\<close>

function (sequential) try_reserve_loop :: "mem_limiter \<Rightarrow> u64 \<Rightarrow> u64 \<Rightarrow> mem_limiter \<times> bool" where
  "try_reserve_loop ml mem n =
     (let new_mem_reserved = sat_add_word mem n
      in if total_mem_usage ml (ml_pool ml) new_mem_reserved > mem_limit ml then (ml, False)
         else let spurious = (case ml_env ml of [] \<Rightarrow> False | e # _ \<Rightarrow> if_spurious e);
                  ml' = others_step ml
              in if mem_reserved ml' = mem \<and> \<not> spurious
                 then (ml'\<lparr>mem_reserved := new_mem_reserved\<rparr>, True)
                 else try_reserve_loop ml' (mem_reserved ml') n)"
  by pat_completeness auto
termination
  by (relation "measure (\<lambda>(ml, mem, n). 2 * length (ml_env ml) + (if mem_reserved ml = mem then 0 else 1))")
    (auto simp: others_step_def split: list.splits)

definition try_reserve :: "mem_limiter \<Rightarrow> u64 \<Rightarrow> mem_limiter \<times> bool" where
  "try_reserve ml n = (let ml = others_step ml in try_reserve_loop ml (mem_reserved ml) n)"

definition available_mem :: "mem_limiter \<Rightarrow> mem_limiter \<times> u64" where
  "available_mem ml =
     (let ml = others_step ml
      in (ml, sat_sub_word (sat_sub_word (sat_sub_word (mem_limit ml) (mem_reserved ml))
                (pool_mem_reserved (ml_pool ml))) (additional_mem_reserved ml)))"

declare try_reserve_loop.simps [simp del]

section \<open>What the other holders cannot change\<close>

text \<open>
  \<open>settled\<close> is the value the counter will have once the others have done what they are going to do. No
  step of the environment changes it, so the operations of this thread are exact on it.
\<close>

definition settled :: "mem_limiter \<Rightarrow> u64" where
  "settled ml = mem_reserved ml + sum_list (map if_reserved (ml_env ml))"

definition observed_pools :: "mem_limiter \<Rightarrow> paged_pool list" where
  "observed_pools ml = ml_pool ml # map if_pool (ml_env ml)"

definition same_limits :: "mem_limiter \<Rightarrow> mem_limiter \<Rightarrow> bool" where
  "same_limits ml ml' \<longleftrightarrow> mem_limit ml' = mem_limit ml \<and>
     additional_mem_reserved ml' = additional_mem_reserved ml \<and>
     set (observed_pools ml') \<subseteq> set (observed_pools ml)"

lemma same_limits_refl [simp]: "same_limits ml ml"
  by (simp add: same_limits_def)

lemma same_limits_trans: "same_limits a b \<Longrightarrow> same_limits b c \<Longrightarrow> same_limits a c"
  by (auto simp: same_limits_def)

lemma others_step_simps [simp]:
  "settled (others_step ml) = settled ml"
  "same_limits ml (others_step ml)"
  "mem_limit (others_step ml) = mem_limit ml"
  "additional_mem_reserved (others_step ml) = additional_mem_reserved ml"
  by (auto simp: others_step_def settled_def same_limits_def observed_pools_def split: list.splits)

lemma mem_reserve_simps [simp]:
  "settled (mem_reserve ml n) = settled ml + n" "same_limits ml (mem_reserve ml n)"
  "mem_limit (mem_reserve ml n) = mem_limit ml"
  by (simp_all add: mem_reserve_def settled_def same_limits_def observed_pools_def)

lemma mem_release_simps [simp]:
  "settled (mem_release ml n) = settled ml - n" "same_limits ml (mem_release ml n)"
  "mem_limit (mem_release ml n) = mem_limit ml"
  by (simp_all add: mem_release_def settled_def same_limits_def observed_pools_def)

lemma available_mem_simps [simp]:
  "settled (fst (available_mem ml)) = settled ml" "same_limits ml (fst (available_mem ml))"
  "mem_limit (fst (available_mem ml)) = mem_limit ml"
  by (simp_all add: available_mem_def Let_def)

lemma unat_total_mem_usage:
  "unat (total_mem_usage ml pool r) =
     min (unat r + unat (pool_mem_reserved pool) + unat (additional_mem_reserved ml)) (2 ^ 64 - 1)"
  by (simp add: total_mem_usage_def unat_sat_add_word min_def)

text \<open>Below the largest 64-bit value, being within the limit rules out every saturation.\<close>

lemma within_limit_exact:
  assumes "\<not> total_mem_usage ml pool (sat_add_word mem n) > mem_limit ml" and "mem_limit ml < - 1"
  shows "sat_add_word mem n = mem + n"
    and "unat mem + unat n + unat (pool_mem_reserved pool) + unat (additional_mem_reserved ml) \<le> unat (mem_limit ml)"
proof -
  have lim: "unat (mem_limit ml) < 2 ^ 64 - 1"
    using assms(2) by (simp only: word_less_nat_alt unat_minus_one_u64)
  have "unat (total_mem_usage ml pool (sat_add_word mem n)) \<le> unat (mem_limit ml)"
    using assms(1) by (simp add: not_less word_le_nat_alt)
  then have *: "min (min (unat mem + unat n) (2 ^ 64 - 1) + unat (pool_mem_reserved pool) + unat (additional_mem_reserved ml)) (2 ^ 64 - 1)
      \<le> unat (mem_limit ml)"
    by (simp only: unat_total_mem_usage unat_sat_add_word)
  with lim have small: "unat mem + unat n < 2 ^ 64 - 1"
    by (simp add: min_def split: if_splits)
  then show "sat_add_word mem n = mem + n" by (simp add: sat_add_word_def)
  show "unat mem + unat n + unat (pool_mem_reserved pool) + unat (additional_mem_reserved ml) \<le> unat (mem_limit ml)"
    using * lim small by (simp add: min_def split: if_splits)
qed

section \<open>The reservation loop\<close>

definition reserve_outcome :: "mem_limiter \<Rightarrow> u64 \<Rightarrow> mem_limiter \<Rightarrow> bool \<Rightarrow> bool" where
  "reserve_outcome ml n ml' ok \<longleftrightarrow> same_limits ml ml' \<and> settled ml' = settled ml + (if ok then n else 0) \<and>
     (if ok then \<exists>pool \<in> set (observed_pools ml).
        unat (mem_reserved ml') + unat (pool_mem_reserved pool) + unat (additional_mem_reserved ml) \<le> unat (mem_limit ml)
      else unat (mem_limit ml) < unat (mem_reserved ml') + unat n +
        unat (pool_mem_reserved (ml_pool ml')) + unat (additional_mem_reserved ml))"

lemma beyond_limit:
  assumes "total_mem_usage ml pool (sat_add_word mem n) > mem_limit ml"
  shows "unat (mem_limit ml) < unat mem + unat n + unat (pool_mem_reserved pool) + unat (additional_mem_reserved ml)"
proof -
  have "unat (mem_limit ml) < unat (total_mem_usage ml pool (sat_add_word mem n))"
    using assms by (simp add: word_less_nat_alt)
  also have "\<dots> \<le> unat (sat_add_word mem n) + unat (pool_mem_reserved pool) + unat (additional_mem_reserved ml)"
    by (simp only: unat_total_mem_usage min.cobounded1)
  also have "\<dots> \<le> unat mem + unat n + unat (pool_mem_reserved pool) + unat (additional_mem_reserved ml)"
    by (simp add: unat_sat_add_word)
  finally show ?thesis .
qed

lemma reserve_outcome_step:
  "reserve_outcome (others_step ml) n ml' ok \<Longrightarrow> reserve_outcome ml n ml' ok"
  using same_limits_trans [of ml "others_step ml" ml'] others_step_simps(2) [of ml]
  by (auto simp: reserve_outcome_def same_limits_def split: if_splits)

lemma try_reserve_loop_outcome:
  assumes "mem_limit ml < - 1" and "mem = mem_reserved ml" and "try_reserve_loop ml mem n = (ml', ok)"
  shows "reserve_outcome ml n ml' ok"
  using assms
proof (induction ml mem n rule: try_reserve_loop.induct)
  case (1 ml mem n)
  let ?sp = "case ml_env ml of [] \<Rightarrow> False | e # _ \<Rightarrow> if_spurious e"
  let ?beyond = "total_mem_usage ml (ml_pool ml) (sat_add_word mem n) > mem_limit ml"
  consider (full) ?beyond | (cas) "\<not> ?beyond" "mem_reserved (others_step ml) = mem" "\<not> ?sp"
    | (retry) "\<not> ?beyond" "\<not> (mem_reserved (others_step ml) = mem \<and> \<not> ?sp)"
    by blast
  then show ?case
  proof cases
    case full
    then have "(ml', ok) = (ml, False)"
      using 1(4) by (simp add: try_reserve_loop.simps [of ml])
    then show ?thesis
      using beyond_limit [OF full] 1(3) by (simp add: reserve_outcome_def)
  next
    case cas
    let ?new = "sat_add_word mem n"
    have r: "(ml', ok) = ((others_step ml)\<lparr>mem_reserved := ?new\<rparr>, True)"
      using 1(4) cas by (simp add: try_reserve_loop.simps [of ml])
    note w = within_limit_exact [OF cas(1) 1(2)]
    have "settled ml' = settled (others_step ml) + n"
      using r w(1) cas(2) by (simp add: settled_def)
    moreover have "same_limits ml ml'"
      using r others_step_simps(2) [of ml] by (simp add: same_limits_def observed_pools_def)
    moreover have "unat (mem_reserved ml') = unat mem + unat n"
      using r w unsigned_less [of "mem_limit ml", where 'a = nat] by (simp add: unat_word_ariths)
    ultimately show ?thesis
      using r w(2) by (auto simp: reserve_outcome_def observed_pools_def)
  next
    case retry
    then have e: "try_reserve_loop (others_step ml) (mem_reserved (others_step ml)) n = (ml', ok)"
      using 1(4) unfolding try_reserve_loop.simps [of ml mem n] Let_def by (simp only: if_False)
    have "reserve_outcome (others_step ml) n ml' ok"
      by (rule 1(1) [OF refl retry(1) refl refl retry(2)]) (use 1(2) e in simp_all)
    then show ?thesis by (rule reserve_outcome_step)
  qed
qed

lemma try_reserve_outcome:
  assumes "mem_limit ml < - 1" and "try_reserve ml n = (ml', ok)"
  shows "reserve_outcome ml n ml' ok"
  using assms try_reserve_loop_outcome [of "others_step ml" _ n ml' ok]
  by (auto simp: try_reserve_def Let_def intro: reserve_outcome_step)

section \<open>Properties\<close>


definition witness_limiter :: mem_limiter where
  "witness_limiter = \<lparr>mem_limit = 1000, mem_reserved = 100, additional_mem_reserved = 128,
     ml_pool = new_with_candidate_sizes [4],
     ml_env = [\<lparr>if_reserved = 50, if_pool = new_with_candidate_sizes [4], if_spurious = False\<rparr>,
               \<lparr>if_reserved = - 20, if_pool = witness_pool2, if_spurious = True\<rparr>]\<rparr>"

lemma witness_limiter_limit: "mem_limit witness_limiter < - 1"
  by (simp add: witness_limiter_def)


end
