(* ===== verification/Checksums.thy ===== *)
theory Checksums
  imports Prelude
begin

text \<open>
  The checksummed buffer of \<open>mountpoint-s3-fs/src/checksums.rs\<close>: a shared byte buffer, the range of it
  that the value denotes, and a CRC32C over the whole buffer. The CRC implementation is the \<open>crc32c\<close>
  crate and the environment variable that disables validation is read from the process: both are the
  fields of the parameter \<open>E\<close>. The laws the code relies on are \<open>crc_laws\<close> (the documented meaning of
  \<open>crc32c_combine\<close>) and \<open>crc_invertible\<close> (combining is injective in each checksum, as it is for a CRC).
\<close>

section \<open>Parameters: the CRC implementation\<close>

record crc_env =
  crc :: "bytes \<Rightarrow> u32"
  crc_combine :: "u32 \<Rightarrow> u32 \<Rightarrow> nat \<Rightarrow> u32"
  is_integrity_validation_disabled :: bool

definition crc_laws :: "crc_env \<Rightarrow> bool" where
  "crc_laws E \<longleftrightarrow> crc E [] = 0 \<and>
     (\<forall>a b. crc_combine E (crc E a) (crc E b) (length b) = crc E (a @ b))"

definition crc_invertible :: "crc_env \<Rightarrow> bool" where
  "crc_invertible E \<longleftrightarrow>
     (\<forall>c c' d n. crc_combine E c d n = crc_combine E c' d n \<longrightarrow> c = c') \<and>
     (\<forall>c d d' n. crc_combine E c d n = crc_combine E c d' n \<longrightarrow> d = d')"

section \<open>Data\<close>

record checksummed_bytes =
  cb_buffer :: bytes
  cb_start :: nat
  cb_end :: nat
  cb_checksum :: u32

datatype integrity_error = ChecksumMismatch u32 u32

datatype range_bound = Included nat | Excluded nat | Unbounded

section \<open>Operations\<close>

definition new_from_inner_data :: "bytes \<Rightarrow> u32 \<Rightarrow> checksummed_bytes" where
  "new_from_inner_data bs c = \<lparr>cb_buffer = bs, cb_start = 0, cb_end = length bs, cb_checksum = c\<rparr>"

definition cb_new :: "crc_env \<Rightarrow> bytes \<Rightarrow> checksummed_bytes" where
  "cb_new E bs =
     new_from_inner_data bs (if is_integrity_validation_disabled E then 0 else crc E bs)"

definition cb_default :: checksummed_bytes where
  "cb_default = \<lparr>cb_buffer = [], cb_start = 0, cb_end = 0, cb_checksum = 0\<rparr>"

definition cb_len :: "checksummed_bytes \<Rightarrow> nat" where
  "cb_len cb = cb_end cb - cb_start cb"

definition cb_is_empty :: "checksummed_bytes \<Rightarrow> bool" where
  "cb_is_empty cb \<longleftrightarrow> \<not> cb_start cb < cb_end cb"

text \<open>\<open>Bytes::slice\<close> panics unless the range is ordered and within the buffer.\<close>

definition buffer_slice :: "checksummed_bytes \<Rightarrow> bytes run" where
  "buffer_slice cb =
     and_then (assert_that (cb_start cb \<le> cb_end cb \<and> cb_end cb \<le> length (cb_buffer cb)))
       (\<lambda>_. Done (seg (cb_buffer cb) (cb_start cb) (cb_end cb)))"

definition cb_validate :: "crc_env \<Rightarrow> checksummed_bytes \<Rightarrow> integrity_error + unit" where
  "cb_validate E cb =
     (if is_integrity_validation_disabled E then Inr ()
      else let checksum = crc E (cb_buffer cb)
           in if cb_checksum cb \<noteq> checksum then Inl (ChecksumMismatch (cb_checksum cb) checksum)
              else Inr ())"

definition cb_into_bytes :: "crc_env \<Rightarrow> checksummed_bytes \<Rightarrow> (integrity_error + bytes) run" where
  "cb_into_bytes E cb =
     (case cb_validate E cb of
        Inl e \<Rightarrow> Done (Inl e)
      | Inr _ \<Rightarrow> and_then (buffer_slice cb) (\<lambda>bs. Done (Inr bs)))"

text \<open>Returns \<open>self\<close> after the call and the new value.\<close>

definition cb_split_off ::
  "checksummed_bytes \<Rightarrow> nat \<Rightarrow> (checksummed_bytes \<times> checksummed_bytes) run" where
  "cb_split_off cb at =
     and_then (assert_that (at < cb_len cb)) (\<lambda>_.
       Done (cb\<lparr>cb_end := cb_start cb + at\<rparr>, cb\<lparr>cb_start := cb_start cb + at\<rparr>))"

definition checked_incr :: "nat \<Rightarrow> nat run" where
  "checked_incr n = (if n < u64_max then Done (n + 1) else Panic)"

definition cb_slice :: "checksummed_bytes \<Rightarrow> range_bound \<Rightarrow> range_bound \<Rightarrow> checksummed_bytes run" where
  "cb_slice cb start_bound end_bound =
     and_then (case start_bound of Included n \<Rightarrow> Done n | Excluded n \<Rightarrow> checked_incr n | Unbounded \<Rightarrow> Done 0)
       (\<lambda>slice_start. and_then
          (case end_bound of Included n \<Rightarrow> checked_incr n | Excluded n \<Rightarrow> Done n | Unbounded \<Rightarrow> Done (cb_len cb))
          (\<lambda>slice_end. and_then (assert_that (slice_start \<le> slice_end))
            (\<lambda>_. and_then (assert_that (slice_end \<le> cb_len cb))
              (\<lambda>_. Done (cb\<lparr>cb_start := cb_start cb + slice_start, cb_end := cb_start cb + slice_end\<rparr>)))))"

definition shrink_to_fit ::
  "crc_env \<Rightarrow> checksummed_bytes \<Rightarrow> (checksummed_bytes \<times> (integrity_error + unit)) run" where
  "shrink_to_fit E cb =
     (if cb_len cb = length (cb_buffer cb) then Done (cb, Inr ())
      else and_then (buffer_slice cb) (\<lambda>bs.
        let checksum = crc E bs
        in case cb_validate E cb of
             Inl e \<Rightarrow> Done (cb, Inl e)
           | Inr _ \<Rightarrow>
               Done (\<lparr>cb_buffer = bs, cb_start = 0, cb_end = cb_len cb, cb_checksum = checksum\<rparr>, Inr ())))"

definition combine_checksums :: "crc_env \<Rightarrow> u32 \<Rightarrow> u32 \<Rightarrow> nat \<Rightarrow> u32" where
  "combine_checksums E prefix_crc suffix_crc suffix_len =
     (if is_integrity_validation_disabled E then 0
      else crc_combine E prefix_crc suffix_crc suffix_len)"

definition cb_extend ::
  "crc_env \<Rightarrow> checksummed_bytes \<Rightarrow> checksummed_bytes \<Rightarrow>
     (checksummed_bytes \<times> (integrity_error + unit)) run" where
  "cb_extend E cb ext =
     (if cb_is_empty ext then Done (cb, cb_validate E ext)
      else if cb_is_empty cb then
        (case cb_validate E cb of Inl e \<Rightarrow> Done (cb, Inl e) | Inr _ \<Rightarrow> Done (ext, Inr ()))
      else and_then (shrink_to_fit E cb) (\<lambda>(cb, r). case r of
        Inl e \<Rightarrow> Done (cb, Inl e)
      | Inr _ \<Rightarrow> and_then (assert_that (length (cb_buffer cb) = cb_len cb)) (\<lambda>_.
          and_then (shrink_to_fit E ext) (\<lambda>(ext, r). case r of
            Inl e \<Rightarrow> Done (cb, Inl e)
          | Inr _ \<Rightarrow> and_then (assert_that (length (cb_buffer ext) = cb_len ext)) (\<lambda>_.
              let new_checksum = combine_checksums E (cb_checksum cb) (cb_checksum ext) (cb_len ext);
                  new_bytes = cb_buffer cb @ cb_buffer ext
              in Done (\<lparr>cb_buffer = new_bytes, cb_start = 0, cb_end = length new_bytes,
                        cb_checksum = new_checksum\<rparr>, Inr ()))))))"

definition cb_into_inner ::
  "crc_env \<Rightarrow> checksummed_bytes \<Rightarrow> (integrity_error + (bytes \<times> u32)) run" where
  "cb_into_inner E cb =
     and_then (shrink_to_fit E cb) (\<lambda>(cb, r). case r of
       Inl e \<Rightarrow> Done (Inl e)
     | Inr _ \<Rightarrow> Done (Inr (cb_buffer cb, cb_checksum cb)))"

section \<open>Invariant and abstraction\<close>

text \<open>The range lies in the buffer; the bytes the value denotes; the checksum is that of the buffer.\<close>

definition cb_wf :: "checksummed_bytes \<Rightarrow> bool" where
  "cb_wf cb \<longleftrightarrow> cb_start cb \<le> cb_end cb \<and> cb_end cb \<le> length (cb_buffer cb)"

definition cb_data :: "checksummed_bytes \<Rightarrow> bytes" where
  "cb_data cb = seg (cb_buffer cb) (cb_start cb) (cb_end cb)"

definition cb_intact :: "crc_env \<Rightarrow> checksummed_bytes \<Rightarrow> bool" where
  "cb_intact E cb \<longleftrightarrow> is_integrity_validation_disabled E \<or> cb_checksum cb = crc E (cb_buffer cb)"

lemma cb_validate_iff: "cb_validate E cb = Inr () \<longleftrightarrow> cb_intact E cb"
  by (simp add: cb_validate_def cb_intact_def Let_def)

lemma cb_validate_intact [simp]: "cb_intact E cb \<Longrightarrow> cb_validate E cb = Inr ()"
  by (simp add: cb_validate_iff)

lemma cb_validate_Inr [simp]: "cb_validate E cb = Inr u \<longleftrightarrow> cb_intact E cb"
  by (cases u) (simp add: cb_validate_iff)

lemma length_cb_data: "cb_wf cb \<Longrightarrow> length (cb_data cb) = cb_len cb"
  by (simp add: cb_wf_def cb_data_def cb_len_def length_seg)

lemma cb_is_empty_iff: "cb_is_empty cb \<longleftrightarrow> cb_len cb = 0"
  by (simp add: cb_is_empty_def cb_len_def not_less)

lemma cb_data_empty: "cb_is_empty cb \<Longrightarrow> cb_data cb = []"
  by (simp add: cb_is_empty_def cb_data_def)

lemma buffer_slice_wf: "cb_wf cb \<Longrightarrow> buffer_slice cb = Done (cb_data cb)"
  by (simp add: buffer_slice_def cb_wf_def cb_data_def)

lemma cb_new_spec [simp]:
  "cb_wf (cb_new E bs)" "cb_data (cb_new E bs) = bs" "cb_intact E (cb_new E bs)"
  "cb_len (cb_new E bs) = length bs"
  by (simp_all add: cb_new_def new_from_inner_data_def cb_wf_def cb_data_def cb_intact_def cb_len_def)

lemma cb_default_spec [simp]:
  "cb_wf cb_default" "cb_data cb_default = []" "cb_is_empty cb_default" "cb_len cb_default = 0"
  by (simp_all add: cb_default_def cb_wf_def cb_data_def cb_is_empty_def cb_len_def)

lemma cb_default_intact: "crc_laws E \<Longrightarrow> cb_intact E cb_default"
  by (simp add: cb_default_def cb_intact_def crc_laws_def)

section \<open>Behaviour of the operations\<close>

lemma cb_into_bytes_intact:
  "cb_wf cb \<Longrightarrow> cb_intact E cb \<Longrightarrow> cb_into_bytes E cb = Done (Inr (cb_data cb))"
  by (simp add: cb_into_bytes_def buffer_slice_wf)

lemma cb_split_off_spec:
  assumes "cb_wf cb" and "at < cb_len cb"
  obtains a b where "cb_split_off cb at = Done (a, b)"
    and "cb_data a = take at (cb_data cb)" and "cb_data b = drop at (cb_data cb)"
    and "cb_wf a" and "cb_wf b" and "cb_intact E a = cb_intact E cb" and "cb_intact E b = cb_intact E cb"
    and "cb_len a = at" and "cb_len b = cb_len cb - at"
proof
  let ?a = "cb\<lparr>cb_end := cb_start cb + at\<rparr>" and ?b = "cb\<lparr>cb_start := cb_start cb + at\<rparr>"
  show "cb_split_off cb at = Done (?a, ?b)"
    using assms by (simp add: cb_split_off_def)
  show "cb_data ?a = take at (cb_data cb)" "cb_data ?b = drop at (cb_data cb)"
    using assms by (simp_all add: cb_data_def seg_take_drop cb_len_def)
  show "cb_wf ?a" "cb_wf ?b" "cb_intact E ?a = cb_intact E cb" "cb_intact E ?b = cb_intact E cb"
    "cb_len ?a = at" "cb_len ?b = cb_len cb - at"
    using assms by (auto simp: cb_wf_def cb_intact_def cb_len_def)
qed

lemma cb_slice_spec:
  assumes "cb_wf cb" and "a \<le> b" and "b \<le> cb_len cb"
  obtains r where "cb_slice cb (Included a) (Excluded b) = Done r"
    and "cb_data r = seg (cb_data cb) a b" and "cb_wf r" and "cb_intact E r = cb_intact E cb"
    and "cb_len r = b - a"
proof
  let ?r = "cb\<lparr>cb_start := cb_start cb + a, cb_end := cb_start cb + b\<rparr>"
  show "cb_slice cb (Included a) (Excluded b) = Done ?r"
    using assms by (simp add: cb_slice_def)
  have "cb_start cb + b \<le> cb_end cb"
    using assms by (auto simp: cb_wf_def cb_len_def)
  then show "cb_data ?r = seg (cb_data cb) a b"
    using assms seg_seg [of a b "cb_start cb" "cb_end cb" "cb_buffer cb"]
    by (simp add: cb_data_def cb_len_def cb_wf_def)
  show "cb_wf ?r" "cb_intact E ?r = cb_intact E cb" "cb_len ?r = b - a"
    using assms by (auto simp: cb_wf_def cb_intact_def cb_len_def)
qed

text \<open>\<open>shrink_to_fit\<close> either reports a corrupt buffer or makes the checksum exact for the range.\<close>

definition cb_tight :: "checksummed_bytes \<Rightarrow> bool" where
  "cb_tight cb \<longleftrightarrow> cb_start cb = 0 \<and> cb_end cb = length (cb_buffer cb)"

lemma cb_tight_data: "cb_tight cb \<Longrightarrow> cb_data cb = cb_buffer cb \<and> cb_len cb = length (cb_buffer cb)"
  by (simp add: cb_tight_def cb_data_def cb_len_def)

lemma cb_full_tight: "cb_wf cb \<Longrightarrow> cb_len cb = length (cb_buffer cb) \<Longrightarrow> cb_tight cb"
  by (auto simp: cb_wf_def cb_len_def cb_tight_def)

lemma shrink_to_fit_cases:
  assumes "cb_wf cb"
  obtains (ok) cb' where "shrink_to_fit E cb = Done (cb', Inr ())" and "cb_tight cb'"
      and "cb_data cb' = cb_data cb" and "cb_intact E cb' = cb_intact E cb"
  | (corrupt) e where "shrink_to_fit E cb = Done (cb, Inl e)" and "\<not> cb_intact E cb"
proof (cases "cb_len cb = length (cb_buffer cb)")
  case True
  then show thesis
    using assms by (intro ok [of cb]) (simp_all add: shrink_to_fit_def cb_full_tight)
next
  case False
  show thesis
  proof (cases "cb_intact E cb")
    case True
    let ?r = "\<lparr>cb_buffer = cb_data cb, cb_start = 0, cb_end = cb_len cb, cb_checksum = crc E (cb_data cb)\<rparr>"
    have t: "cb_tight ?r"
      using assms by (simp add: cb_tight_def length_cb_data)
    show thesis
    proof (rule ok)
      show "shrink_to_fit E cb = Done (?r, Inr ())"
        using False assms True by (simp add: shrink_to_fit_def buffer_slice_wf)
      show "cb_intact E ?r = cb_intact E cb"
        using True by (simp add: cb_intact_def)
    qed (use t cb_tight_data [OF t] in simp_all)
  next
    case ni: False
    then obtain e where "cb_validate E cb = Inl e"
      by (cases "cb_validate E cb") auto
    with False ni assms show thesis
      by (intro corrupt [of e]) (simp_all add: shrink_to_fit_def buffer_slice_wf)
  qed
qed

lemma cb_extend_two_parts:
  assumes "\<not> cb_is_empty a" and "\<not> cb_is_empty b"
    and "shrink_to_fit E a = Done (a', Inr ())" and "cb_tight a'"
    and "shrink_to_fit E b = Done (b', Inr ())" and "cb_tight b'"
  shows "cb_extend E a b =
    Done (new_from_inner_data (cb_buffer a' @ cb_buffer b')
            (combine_checksums E (cb_checksum a') (cb_checksum b') (cb_len b')), Inr ())"
  using assms by (simp add: cb_extend_def cb_tight_data new_from_inner_data_def Let_def)

lemma cb_extend_intact:
  assumes laws: "crc_laws E" and wf: "cb_wf a" "cb_wf b" and i: "cb_intact E a" "cb_intact E b"
  shows "\<exists>r. cb_extend E a b = Done (r, Inr ()) \<and> cb_wf r \<and> cb_intact E r \<and>
    cb_data r = cb_data a @ cb_data b"
proof -
  consider "cb_is_empty b" | "\<not> cb_is_empty b" "cb_is_empty a" | "\<not> cb_is_empty b" "\<not> cb_is_empty a"
    by blast
  then show ?thesis
  proof cases
    case 3
    obtain a' where a': "shrink_to_fit E a = Done (a', Inr ())" "cb_tight a'"
      "cb_data a' = cb_data a" "cb_intact E a'"
      by (rule shrink_to_fit_cases [OF wf(1), where E = E]) (use i in auto)
    obtain b' where b': "shrink_to_fit E b = Done (b', Inr ())" "cb_tight b'"
      "cb_data b' = cb_data b" "cb_intact E b'"
      by (rule shrink_to_fit_cases [OF wf(2), where E = E]) (use i in auto)
    note ext = cb_extend_two_parts [OF 3(2) 3(1) a'(1,2) b'(1,2)]
    have "cb_buffer a' = cb_data a" "cb_buffer b' = cb_data b" "cb_len b' = length (cb_data b)"
      using a' b' cb_tight_data by metis+
    with ext a'(4) b'(4) laws show ?thesis
      by (auto simp: new_from_inner_data_def cb_wf_def cb_data_def [of "\<lparr>cb_buffer = _, cb_start = _, cb_end = _, cb_checksum = _\<rparr>"]
          cb_intact_def combine_checksums_def crc_laws_def)
  qed (use wf i in \<open>auto simp: cb_extend_def cb_data_empty\<close>)
qed

section \<open>Properties\<close>

text \<open>
  C11: appending intact checksummed buffers. Whatever ranges the two values denote of their buffers, \<open>extend\<close>
  succeeds, the result denotes the concatenation of the two byte sequences, its checksum is right for
  its buffer, and reading the result back validates and yields exactly those bytes. The combined
  checksum is never recomputed from the data: it is the combination of the two exact checksums.
\<close>

theorem extend_then_into_bytes:
  assumes "crc_laws E" and "cb_wf a" and "cb_wf b" and "cb_intact E a" and "cb_intact E b"
  shows "\<exists>r. cb_extend E a b = Done (r, Inr ()) \<and> cb_wf r \<and> cb_intact E r \<and>
    cb_into_bytes E r = Done (Inr (cb_data a @ cb_data b))"
  using cb_extend_intact [OF assms] cb_into_bytes_intact by fastforce

definition sum_crc_env :: crc_env where
  "sum_crc_env = \<lparr>crc = \<lambda>bs. sum_list (map ucast bs), crc_combine = \<lambda>c d n. c + d,
     is_integrity_validation_disabled = False\<rparr>"

lemma sum_crc_env_laws: "crc_laws sum_crc_env" "crc_invertible sum_crc_env"
  by (simp_all add: sum_crc_env_def crc_laws_def crc_invertible_def)

theorem extend_then_into_bytes_witness:
  "\<exists>r. cb_extend sum_crc_env (cb_new sum_crc_env [1, 2, 3]\<lparr>cb_start := 1\<rparr>) (cb_new sum_crc_env [4, 5]) = Done (r, Inr ()) \<and>
     cb_wf r \<and> cb_intact sum_crc_env r \<and> cb_into_bytes sum_crc_env r = Done (Inr [2, 3, 4, 5])"
proof -
  let ?a = "cb_new sum_crc_env [1, 2, 3]\<lparr>cb_start := 1\<rparr>" and ?b = "cb_new sum_crc_env [4, 5]"
  have "cb_wf ?a" "cb_intact sum_crc_env ?a" "cb_data ?a = [2, 3]"
    by (simp_all add: cb_wf_def cb_intact_def cb_data_def cb_new_def new_from_inner_data_def sum_crc_env_def seg_def)
  with extend_then_into_bytes [OF sum_crc_env_laws(1), of ?a ?b] show ?thesis by simp
qed



end
