(* ===== verification/Prefetch_Part.thy ===== *)
theory Prefetch_Part
  imports Checksums
begin

text \<open>
  The parts that flow through the prefetcher (\<open>mountpoint-s3-fs/src/prefetch/part.rs\<close>, \<open>object.rs\<close>) and the
  backward seek window (\<open>prefetch/seek_window.rs\<close>). A part carries the identity of its object and its
  offset, and only gives its bytes to a caller who names both. The specification side is a fixed object
  content: a list of parts covers a range of the object when the parts are consecutive slices of it.
\<close>

section \<open>Objects and parts\<close>

record object_id =
  oid_key :: string
  oid_etag :: string

datatype part_source = Cache | S3

record part =
  part_id :: object_id
  part_offset :: nat
  part_bytes :: checksummed_bytes
  part_source_of :: part_source

datatype part_operation_error =
  Integrity integrity_error
| IdMismatch object_id object_id
| OffsetMismatch nat nat

definition part_new :: "object_id \<Rightarrow> nat \<Rightarrow> checksummed_bytes \<Rightarrow> part_source \<Rightarrow> part" where
  "part_new i off cb src = \<lparr>part_id = i, part_offset = off, part_bytes = cb, part_source_of = src\<rparr>"

definition part_len :: "part \<Rightarrow> nat" where
  "part_len p = cb_len (part_bytes p)"

definition part_is_empty :: "part \<Rightarrow> bool" where
  "part_is_empty p \<longleftrightarrow> cb_is_empty (part_bytes p)"

definition is_from_cache :: "part \<Rightarrow> bool" where
  "is_from_cache p \<longleftrightarrow> part_source_of p = Cache"

definition part_check :: "part \<Rightarrow> object_id \<Rightarrow> nat \<Rightarrow> part_operation_error + unit" where
  "part_check p i off =
     (if part_id p \<noteq> i then Inl (IdMismatch (part_id p) i)
      else if part_offset p \<noteq> off then Inl (OffsetMismatch (part_offset p) off)
      else Inr ())"

definition part_into_bytes :: "part \<Rightarrow> object_id \<Rightarrow> nat \<Rightarrow> part_operation_error + checksummed_bytes" where
  "part_into_bytes p i off =
     (case part_check p i off of Inl e \<Rightarrow> Inl e | Inr _ \<Rightarrow> Inr (part_bytes p))"

definition part_split_off :: "part \<Rightarrow> nat \<Rightarrow> (part \<times> part) run" where
  "part_split_off p at =
     and_then (cb_split_off (part_bytes p) at) (\<lambda>(cb, new_bytes).
       Done (p\<lparr>part_bytes := cb\<rparr>,
             \<lparr>part_id = part_id p, part_offset = part_offset p + at, part_bytes = new_bytes,
              part_source_of = part_source_of p\<rparr>))"

definition part_extend ::
  "crc_env \<Rightarrow> part \<Rightarrow> part \<Rightarrow> (part \<times> (part_operation_error + unit)) run" where
  "part_extend E p other =
     (let expected_offset = part_offset p + cb_len (part_bytes p)
      in case part_check other (part_id p) expected_offset of
           Inl e \<Rightarrow> Done (p, Inl e)
         | Inr _ \<Rightarrow> and_then (cb_extend E (part_bytes p) (part_bytes other)) (\<lambda>(cb, r).
             Done (p\<lparr>part_bytes := cb\<rparr>, case r of Inl e \<Rightarrow> Inl (Integrity e) | Inr _ \<Rightarrow> Inr ())))"

section \<open>The backward seek window\<close>

record seek_window =
  sw_parts :: "part list"
  sw_max_size :: nat
  sw_current_size :: nat

definition seek_window_new :: "nat \<Rightarrow> seek_window run" where
  "seek_window_new max_size =
     and_then (assert_that (0 < max_size)) (\<lambda>_.
       Done \<lparr>sw_parts = [], sw_max_size = max_size, sw_current_size = 0\<rparr>)"

definition seek_window_clear :: "seek_window \<Rightarrow> seek_window" where
  "seek_window_clear sw = sw\<lparr>sw_parts := [], sw_current_size := 0\<rparr>"

text \<open>The loop of \<open>push\<close> that drops the oldest parts until \<open>need\<close> bytes fit.\<close>

fun drop_oldest :: "nat \<Rightarrow> nat \<Rightarrow> nat \<Rightarrow> part list \<Rightarrow> (part list \<times> nat) run" where
  "drop_oldest max_size need current parts =
     and_then (checked_sub max_size current) (\<lambda>free.
       if free < need then
         (case parts of
            [] \<Rightarrow> Panic
          | p # rest \<Rightarrow> and_then (checked_sub current (part_len p)) (\<lambda>current.
              drop_oldest max_size need current rest))
       else Done (parts, current))"

declare drop_oldest.simps [simp del]

definition seek_window_push :: "seek_window \<Rightarrow> part \<Rightarrow> seek_window run" where
  "seek_window_push sw p =
     (if part_len p > sw_max_size sw then Done (seek_window_clear sw)
      else and_then (drop_oldest (sw_max_size sw) (part_len p) (sw_current_size sw) (sw_parts sw))
        (\<lambda>(parts, current).
           Done (sw\<lparr>sw_parts := parts @ [p], sw_current_size := current + part_len p\<rparr>)))"

lemma part_split_off_len:
  "part_split_off p at = Done (front, back) \<Longrightarrow> part_len back = part_len p - at \<and> part_len front = at"
  by (auto simp: part_split_off_def cb_split_off_def part_len_def cb_len_def and_then_Done_iff)

text \<open>The loop of \<open>read_back\<close>; \<open>result\<close> is in object order.\<close>

function read_back_loop :: "part list \<Rightarrow> nat \<Rightarrow> nat \<Rightarrow> part list \<Rightarrow> (part list \<times> nat \<times> part list) run" where
  "read_back_loop parts current need result =
     (if need = 0 then Done (parts, current, result)
      else if parts = [] then Panic
      else let p = last parts; rest = butlast parts
           in if need < part_len p then
                and_then (part_split_off p (part_len p - need)) (\<lambda>(front, back).
                  and_then (checked_sub need (part_len back)) (\<lambda>need.
                    and_then (checked_sub current (part_len back)) (\<lambda>current.
                      read_back_loop (rest @ [front]) current need (back # result))))
              else and_then (checked_sub need (part_len p)) (\<lambda>need.
                     and_then (checked_sub current (part_len p)) (\<lambda>current.
                       read_back_loop rest current need (p # result))))"
  by pat_completeness auto
termination
  by (relation "measure (\<lambda>(parts, current, need, result). length parts + need)")
    (auto simp: checked_sub_def neq_Nil_conv dest: part_split_off_len split: if_splits)

declare read_back_loop.simps [simp del]

definition read_back :: "seek_window \<Rightarrow> nat \<Rightarrow> (seek_window \<times> part list option) run" where
  "read_back sw need =
     (if need > sw_current_size sw then Done (sw, None)
      else and_then (read_back_loop (sw_parts sw) (sw_current_size sw) need []) (\<lambda>(parts, current, result).
        Done (sw\<lparr>sw_parts := parts, sw_current_size := current\<rparr>, Some result)))"

section \<open>Parts of an object\<close>

text \<open>\<open>part_ok E i obj p\<close>: the part is a non-empty, intact slice of the object at its offset.\<close>

definition part_data :: "part \<Rightarrow> bytes" where
  "part_data p = cb_data (part_bytes p)"

definition part_ok :: "crc_env \<Rightarrow> object_id \<Rightarrow> bytes \<Rightarrow> part \<Rightarrow> bool" where
  "part_ok E i obj p \<longleftrightarrow> part_id p = i \<and> cb_wf (part_bytes p) \<and> cb_intact E (part_bytes p) \<and>
     0 < part_len p \<and> part_offset p + part_len p \<le> length obj \<and>
     part_data p = seg obj (part_offset p) (part_offset p + part_len p)"

fun parts_cover :: "crc_env \<Rightarrow> object_id \<Rightarrow> bytes \<Rightarrow> nat \<Rightarrow> part list \<Rightarrow> nat \<Rightarrow> bool" where
  "parts_cover E i obj a [] b \<longleftrightarrow> a = b"
| "parts_cover E i obj a (p # ps) b \<longleftrightarrow>
     part_offset p = a \<and> part_ok E i obj p \<and> parts_cover E i obj (a + part_len p) ps b"

definition parts_len :: "part list \<Rightarrow> nat" where
  "parts_len ps = sum_list (map part_len ps)"

lemma parts_len_simps [simp]:
  "parts_len [] = 0" "parts_len (p # ps) = part_len p + parts_len ps"
  "parts_len (ps @ qs) = parts_len ps + parts_len qs"
  by (simp_all add: parts_len_def)

lemma parts_cover_end: "parts_cover E i obj a ps b \<Longrightarrow> b = a + parts_len ps"
  by (induction ps arbitrary: a) fastforce+

lemma parts_cover_append:
  "parts_cover E i obj a (ps @ qs) b \<longleftrightarrow>
    parts_cover E i obj a ps (a + parts_len ps) \<and> parts_cover E i obj (a + parts_len ps) qs b"
  by (induction ps arbitrary: a) (auto simp: add.assoc)

lemma parts_cover_snoc:
  "parts_cover E i obj a (ps @ [p]) b \<longleftrightarrow>
    parts_cover E i obj a ps (part_offset p) \<and> part_ok E i obj p \<and> b = part_offset p + part_len p"
  using parts_cover_end [of E i obj a ps "part_offset p"] by (auto simp: parts_cover_append)

lemma parts_cover_data:
  "parts_cover E i obj a ps b \<Longrightarrow> concat (map part_data ps) = seg obj a b \<and> (a = b \<or> b \<le> length obj)"
proof (induction ps arbitrary: a)
  case (Cons p ps)
  then have "a + part_len p \<le> b" by (auto dest: parts_cover_end)
  with Cons show ?case
    by (auto simp: part_ok_def seg_append)
qed simp

lemma part_split_off_ok:
  assumes "part_ok E i obj p" and "0 < at" and "at < part_len p"
  obtains front tail where "part_split_off p at = Done (front, tail)"
    and "part_ok E i obj front" and "part_ok E i obj tail"
    and "part_len front = at" and "part_len tail = part_len p - at"
    and "part_offset front = part_offset p" and "part_offset tail = part_offset p + at"
    and "part_source_of front = part_source_of p" and "part_source_of tail = part_source_of p"
proof -
  have wf: "cb_wf (part_bytes p)" and lt: "at < cb_len (part_bytes p)"
    using assms by (simp_all add: part_ok_def part_len_def)
  from cb_split_off_spec [OF wf lt, where E = E] obtain a b where
    s: "cb_split_off (part_bytes p) at = Done (a, b)"
    and d: "cb_data a = take at (part_data p)" "cb_data b = drop at (part_data p)"
    and w: "cb_wf a" "cb_wf b" "cb_intact E a" "cb_intact E b" "cb_len a = at" "cb_len b = part_len p - at"
    using assms(1) unfolding part_ok_def part_len_def part_data_def by metis
  let ?f = "p\<lparr>part_bytes := a\<rparr>"
  let ?b = "\<lparr>part_id = part_id p, part_offset = part_offset p + at, part_bytes = b, part_source_of = part_source_of p\<rparr>"
  have l: "part_len ?f = at" "part_len ?b = part_len p - at" by (simp_all add: part_len_def w(5,6) [unfolded part_len_def])
  have "part_ok E i obj ?f"
    using assms w d l by (simp add: part_ok_def) (simp add: part_data_def seg_take_drop)
  moreover have "part_ok E i obj ?b"
    using assms w d l by (simp add: part_ok_def) (simp add: part_data_def seg_take_drop)
  ultimately show thesis
    using s l by (intro that [of ?f ?b]) (simp_all add: part_split_off_def)
qed

lemma part_into_bytes_ok:
  "part_ok E i obj p \<Longrightarrow> part_into_bytes p i (part_offset p) = Inr (part_bytes p)"
  by (simp add: part_into_bytes_def part_check_def part_ok_def)

section \<open>Behaviour of the seek window\<close>

text \<open>The window holds the last bytes before \<open>next\<close>, never more than its maximum.\<close>

definition sw_inv :: "crc_env \<Rightarrow> object_id \<Rightarrow> bytes \<Rightarrow> seek_window \<Rightarrow> nat \<Rightarrow> bool" where
  "sw_inv E i obj sw next \<longleftrightarrow> sw_current_size sw = parts_len (sw_parts sw) \<and>
     sw_current_size sw \<le> sw_max_size sw \<and> sw_current_size sw \<le> next \<and>
     parts_cover E i obj (next - sw_current_size sw) (sw_parts sw) next"

lemma drop_oldest_ok:
  assumes "parts_len parts \<le> max_size" and "need \<le> max_size"
  obtains k where "drop_oldest max_size need (parts_len parts) parts = Done (drop k parts, parts_len (drop k parts))"
    and "parts_len (drop k parts) + need \<le> max_size"
proof -
  have "\<exists>k. drop_oldest max_size need (parts_len parts) parts = Done (drop k parts, parts_len (drop k parts)) \<and>
    parts_len (drop k parts) + need \<le> max_size"
    using assms
  proof (induction parts)
    case Nil
    then show ?case by (subst drop_oldest.simps) simp
  next
    case (Cons p parts)
    show ?case
    proof (cases "max_size - parts_len (p # parts) < need")
      case True
      from Cons obtain k where
        "drop_oldest max_size need (parts_len parts) parts = Done (drop k parts, parts_len (drop k parts))"
        "parts_len (drop k parts) + need \<le> max_size"
        by auto
      with Cons.prems True show ?thesis
        by (subst drop_oldest.simps) (auto intro!: exI [of _ "Suc k"])
    next
      case False
      with Cons.prems show ?thesis
        by (subst drop_oldest.simps) (auto intro!: exI [of _ 0])
    qed
  qed
  then show thesis using that by blast
qed

lemma parts_cover_suffix:
  assumes "parts_cover E i obj a parts b"
  shows "parts_cover E i obj (b - parts_len (drop k parts)) (drop k parts) b"
proof -
  have "parts_cover E i obj a (take k parts @ drop k parts) b" using assms by simp
  then have "parts_cover E i obj (a + parts_len (take k parts)) (drop k parts) b"
    by (simp only: parts_cover_append)
  moreover from this have "b = a + parts_len (take k parts) + parts_len (drop k parts)"
    by (rule parts_cover_end)
  ultimately show ?thesis by simp
qed

lemma parts_len_drop_le: "parts_len (drop k parts) \<le> parts_len parts"
  using parts_len_simps(3) [of "take k parts" "drop k parts"] by simp

lemma seek_window_push_ok:
  assumes inv: "sw_inv E i obj sw next" and p: "part_ok E i obj p" "part_offset p = next"
  obtains sw' where "seek_window_push sw p = Done sw'" and "sw_inv E i obj sw' (next + part_len p)"
    and "sw_max_size sw' = sw_max_size sw"
proof (cases "part_len p > sw_max_size sw")
  case True
  then show thesis
    using that [of "seek_window_clear sw"]
    by (simp add: seek_window_push_def seek_window_clear_def sw_inv_def)
next
  case False
  with inv obtain k where k: "drop_oldest (sw_max_size sw) (part_len p) (sw_current_size sw) (sw_parts sw) =
      Done (drop k (sw_parts sw), parts_len (drop k (sw_parts sw)))"
    "parts_len (drop k (sw_parts sw)) + part_len p \<le> sw_max_size sw"
    by (metis drop_oldest_ok not_less sw_inv_def)
  have "parts_cover E i obj (next - parts_len (drop k (sw_parts sw))) (drop k (sw_parts sw)) next"
    using inv parts_cover_suffix by (auto simp: sw_inv_def)
  moreover have "parts_len (drop k (sw_parts sw)) \<le> next"
    using inv parts_len_drop_le [of k "sw_parts sw"] by (simp add: sw_inv_def)
  ultimately show thesis
    using k False p
    by (intro that [of "sw\<lparr>sw_parts := drop k (sw_parts sw) @ [p],
          sw_current_size := parts_len (drop k (sw_parts sw)) + part_len p\<rparr>"])
      (simp_all add: seek_window_push_def sw_inv_def parts_cover_snoc)
qed

lemma drop_oldest_size:
  "drop_oldest max_size need current parts = Done (parts', current') \<Longrightarrow> current' \<le> current"
  by (induction max_size need current parts rule: drop_oldest.induct)
    (subst (asm) (2) drop_oldest.simps, force simp: checked_sub_Done_iff elim!: and_then_DoneE split: if_splits list.splits)

lemma seek_window_push_size:
  "seek_window_push sw p = Done sw' \<Longrightarrow> sw_current_size sw' \<le> sw_current_size sw + part_len p"
  by (auto simp: seek_window_push_def seek_window_clear_def elim!: and_then_DoneE split: if_splits dest: drop_oldest_size)

lemma read_back_loop_ok:
  assumes "parts_cover E i obj a parts m" and "parts_cover E i obj m result next"
    and "need \<le> parts_len parts"
  shows "\<exists>parts' result'. read_back_loop parts (parts_len parts) need result =
      Done (parts', parts_len parts', result') \<and> parts_len parts' = parts_len parts - need \<and>
      parts_cover E i obj a parts' (m - need) \<and> parts_cover E i obj (m - need) result' next"
  using assms
proof (induction "length parts + need" arbitrary: parts m need result rule: less_induct)
  case less
  show ?case
  proof (cases "need = 0")
    case True
    then show ?thesis using less.prems by (subst read_back_loop.simps) auto
  next
    case need: False
    then have ne: "parts \<noteq> []" using less.prems by auto
    then obtain rest p where pr: "parts = rest @ [p]" by (metis append_butlast_last_id)
    have pok: "part_ok E i obj p" and pm: "m = part_offset p + part_len p"
      and cov: "parts_cover E i obj a rest (part_offset p)"
      using less.prems(1) by (simp_all add: pr parts_cover_snoc)
    show ?thesis
    proof (cases "need < part_len p")
      case True
      obtain f t where s: "part_split_off p (part_len p - need) = Done (f, t)"
        and ok: "part_ok E i obj f" "part_ok E i obj t"
        and l: "part_len f = part_len p - need" "part_len t = need"
        and o: "part_offset f = part_offset p" "part_offset t = part_offset p + (part_len p - need)"
        by (rule part_split_off_ok [OF pok, of "part_len p - need"]) (use need True in auto)
      have "read_back_loop parts (parts_len parts) need result =
          Done (rest @ [f], parts_len (rest @ [f]), t # result)"
        using need True s l ne
        by (subst read_back_loop.simps) (simp add: pr read_back_loop.simps [of _ _ 0])
      then show ?thesis
        using ok l o cov pm True less.prems(2)
        by (auto simp: pr parts_cover_snoc)
    next
      case False
      have c: "parts_cover E i obj (part_offset p) (p # result) next"
        using pok pm less.prems(2) by simp
      have "\<exists>parts' result'. read_back_loop rest (parts_len rest) (need - part_len p) (p # result) =
          Done (parts', parts_len parts', result') \<and> parts_len parts' = parts_len rest - (need - part_len p) \<and>
          parts_cover E i obj a parts' (part_offset p - (need - part_len p)) \<and>
          parts_cover E i obj (part_offset p - (need - part_len p)) result' next"
        by (rule less.hyps) (use cov c less.prems(3) False in \<open>auto simp: pr\<close>)
      moreover have "read_back_loop parts (parts_len parts) need result =
          read_back_loop rest (parts_len rest) (need - part_len p) (p # result)"
        using need False ne by (subst read_back_loop.simps) (simp add: pr)
      ultimately show ?thesis using pm False by (auto simp: pr)
    qed
  qed
qed

lemma read_back_ok:
  assumes inv: "sw_inv E i obj sw next" and "need \<le> sw_current_size sw"
  obtains sw' parts where "read_back sw need = Done (sw', Some parts)"
    and "parts_cover E i obj (next - need) parts next" and "sw_inv E i obj sw' (next - need)"
    and "sw_max_size sw' = sw_max_size sw" and "sw_current_size sw' = sw_current_size sw - need"
proof -
  from inv have cov: "parts_cover E i obj (next - sw_current_size sw) (sw_parts sw) next"
    and cur: "sw_current_size sw = parts_len (sw_parts sw)"
    by (auto simp: sw_inv_def)
  from read_back_loop_ok [OF cov, of "[]" "next" need] assms(2) cur obtain parts' result' where
    "read_back_loop (sw_parts sw) (sw_current_size sw) need [] = Done (parts', parts_len parts', result')"
    "parts_len parts' = sw_current_size sw - need"
    "parts_cover E i obj (next - sw_current_size sw) parts' (next - need)"
    "parts_cover E i obj (next - need) result' next"
    by auto
  then show thesis
    using inv assms(2)
    by (intro that [of "sw\<lparr>sw_parts := parts', sw_current_size := parts_len parts'\<rparr>" result'])
      (auto simp: read_back_def sw_inv_def)
qed

section \<open>Errors of a prefetch read\<close>

text \<open>The client's own errors are opaque; the service errors of \<open>GetObject\<close> are listed by the client crate.\<close>

datatype get_object_error = NoSuchBucket | NoSuchKey | PreconditionFailed

datatype object_client_error = ServiceError get_object_error | ClientError string

datatype prefetch_read_error =
  GetRequestFailed object_client_error string string
| GetRequestReturnedWrongOffset nat nat
| GetRequestTerminatedUnexpectedly
| ReadIntegrity integrity_error
| PartReadFailed part_operation_error
| BackpressurePreconditionFailed
| ReadWindowIncrement

end
