(* ===== verification/Backpressure.thy ===== *)
theory Backpressure
  imports Mem_Limiter Prefetch_Part
begin

text \<open>
  The flow control between the reader of a prefetched stream and its producer
  (\<open>mountpoint-s3-fs/src/prefetch/backpressure_controller.rs\<close>). The controller decides how far ahead of the
  reader the producer may fetch, reserves memory for it and sends increments over an unbounded channel;
  the limiter on the producer's side adds them up. The channel is the list of increments in flight.
\<close>

section \<open>Data\<close>

datatype backpressure_feedback_event = DataRead nat nat | PartQueueStall

datatype read_window_alignment_config = AlignToPartSize nat nat | Disable

record backpressure_config =
  initial_read_window_size :: nat
  min_read_window_size :: nat
  max_read_window_size :: nat
  read_window_size_multiplier :: nat
  request_range_start :: nat
  request_range_end :: nat
  read_window_alignment :: read_window_alignment_config

record backpressure_controller =
  bc_preferred :: nat
  bc_min :: nat
  bc_max :: nat
  bc_multiplier :: nat
  bc_window_end :: nat
  bc_next_read :: nat
  bc_request_end :: nat
  bc_alignment :: read_window_alignment_config

record backpressure_limiter =
  bl_window_end :: nat
  bl_request_end :: nat

section \<open>The controller\<close>

definition next_multiple_of :: "nat \<Rightarrow> nat \<Rightarrow> nat run" where
  "next_multiple_of a m =
     and_then (assert_that (m \<noteq> 0)) (\<lambda>_.
       Done (if a mod m = 0 then a else a + (m - a mod m)))"

definition align_window :: "read_window_alignment_config \<Rightarrow> nat \<Rightarrow> nat run" where
  "align_window cfg read_window_end = (case cfg of
     AlignToPartSize from_offset part_size \<Rightarrow>
       if read_window_end > from_offset then
         and_then (checked_sub read_window_end from_offset) (\<lambda>relative_end_offset.
           and_then (next_multiple_of relative_end_offset part_size) (\<lambda>e. Done (from_offset + e)))
       else Done read_window_end
   | Disable \<Rightarrow> Done read_window_end)"

definition min_window_size_multiplier :: nat where
  "min_window_size_multiplier = 2"

definition new_backpressure_controller ::
  "backpressure_config \<Rightarrow> mem_limiter \<Rightarrow> mem_limiter \<times> backpressure_controller \<times> backpressure_limiter" where
  "new_backpressure_controller cfg ml =
     (let read_window_end_offset = request_range_start cfg + initial_read_window_size cfg
      in (mem_reserve ml (of_nat (initial_read_window_size cfg)),
          \<lparr>bc_preferred = initial_read_window_size cfg,
           bc_min = min_read_window_size cfg,
           bc_max = max_read_window_size cfg,
           bc_multiplier = max (read_window_size_multiplier cfg) min_window_size_multiplier,
           bc_window_end = read_window_end_offset,
           bc_next_read = request_range_start cfg,
           bc_request_end = request_range_end cfg,
           bc_alignment = read_window_alignment cfg\<rparr>,
          \<lparr>bl_window_end = read_window_end_offset, bl_request_end = request_range_end cfg\<rparr>))"

definition increment_read_window ::
  "backpressure_controller \<Rightarrow> nat list \<Rightarrow> nat \<Rightarrow> backpressure_controller \<times> nat list" where
  "increment_read_window c ch len = (c\<lparr>bc_window_end := bc_window_end c + len\<rparr>, ch @ [len])"

definition scale_up :: "mem_limiter \<Rightarrow> backpressure_controller \<Rightarrow> (mem_limiter \<times> backpressure_controller) run" where
  "scale_up ml c =
     (if bc_preferred c < bc_max c then
        let new_read_window_size = min (max (bc_preferred c * bc_multiplier c) (bc_min c)) (bc_max c)
        in and_then (checked_sub new_read_window_size (bc_preferred c)) (\<lambda>to_increase.
             let (ml, available) = available_mem ml
             in Done (ml, if available \<ge> of_nat to_increase then c\<lparr>bc_preferred := new_read_window_size\<rparr> else c))
      else Done (ml, c))"

definition scale_down :: "backpressure_controller \<Rightarrow> backpressure_controller run" where
  "scale_down c =
     (if bc_preferred c > bc_min c then
        and_then (assert_that (bc_multiplier c > 1)) (\<lambda>_.
          Done (c\<lparr>bc_preferred := min (max (bc_preferred c div bc_multiplier c) (bc_min c)) (bc_max c)\<rparr>))
      else Done c)"

lemma scale_down_less:
  "scale_down c = Done c' \<Longrightarrow> bc_preferred c > bc_min c \<Longrightarrow> bc_preferred c' < bc_preferred c"
  by (auto simp: scale_down_def and_then_Done_iff min_less_iff_disj)

text \<open>The loop of \<open>send_feedback\<close> on \<open>DataRead\<close>; \<open>remaining_window\<close> is computed once, before it.\<close>

function data_read_loop ::
  "mem_limiter \<Rightarrow> nat list \<Rightarrow> backpressure_controller \<Rightarrow> nat \<Rightarrow>
     (mem_limiter \<times> nat list \<times> backpressure_controller) run" where
  "data_read_loop ml ch c remaining_window =
     (if remaining_window < bc_preferred c div 2 \<and> bc_window_end c < bc_request_end c then
        and_then (align_window (bc_alignment c) (sat_add (bc_next_read c) (bc_preferred c))) (\<lambda>aligned.
          let new_end = min aligned (bc_request_end c)
          in if new_end \<le> bc_window_end c then Done (ml, ch, c)
             else let to_increase = new_end - bc_window_end c
                  in if bc_preferred c \<le> bc_min c then
                       (let (c, ch) = increment_read_window c ch to_increase
                        in Done (mem_reserve ml (of_nat to_increase), ch, c))
                     else (case try_reserve ml (of_nat to_increase) of
                         (ml, True) \<Rightarrow>
                           (let (c, ch) = increment_read_window c ch to_increase in Done (ml, ch, c))
                       | (ml, False) \<Rightarrow>
                           and_then (scale_down c) (\<lambda>c. data_read_loop ml ch c remaining_window)))
      else Done (ml, ch, c))"
  by pat_completeness auto
termination
  by (relation "measure (\<lambda>(ml, ch, c, r). bc_preferred c)") (auto dest: scale_down_less)

declare data_read_loop.simps [simp del]

definition send_feedback ::
  "mem_limiter \<Rightarrow> nat list \<Rightarrow> backpressure_controller \<Rightarrow> backpressure_feedback_event \<Rightarrow>
     (mem_limiter \<times> nat list \<times> backpressure_controller) run" where
  "send_feedback ml ch c event = (case event of
     DataRead offset len \<Rightarrow>
       let c = c\<lparr>bc_next_read := offset + len\<rparr>;
           ml = mem_release ml (of_nat len);
           remaining_window = bc_window_end c - bc_next_read c
       in data_read_loop ml ch c remaining_window
   | PartQueueStall \<Rightarrow> and_then (scale_up ml c) (\<lambda>(ml, c). Done (ml, ch, c)))"

text \<open>Dropping the controller; the \<open>debug_assert\<close> is a panic.\<close>

definition controller_drop :: "mem_limiter \<Rightarrow> backpressure_controller \<Rightarrow> mem_limiter run" where
  "controller_drop ml c =
     and_then (assert_that (bc_next_read c \<le> bc_request_end c)) (\<lambda>_.
       Done (mem_release ml (of_nat (bc_window_end c - bc_next_read c))))"

section \<open>The limiter\<close>

text \<open>
  The increments the controller will still send, as the producer sees them: what is in the channel now,
  then the batches (a first increment and those that are there when it is drained) that arrive while the
  producer waits, then the channel is closed or stays open.
\<close>

record increment_queue =
  iq_now :: "nat list"
  iq_later :: "(nat \<times> nat list) list"
  iq_closes :: bool

definition try_recv_drain :: "increment_queue \<Rightarrow> increment_queue \<times> nat option" where
  "try_recv_drain q =
     (let total = sum_list (iq_now q)
      in (q\<lparr>iq_now := []\<rparr>, if 0 < total then Some total else None))"

definition recv_drain :: "increment_queue \<Rightarrow> (increment_queue \<times> (unit + nat)) run" where
  "recv_drain q = (case iq_now q of
     x # xs \<Rightarrow> Done (q\<lparr>iq_now := []\<rparr>, Inr (x + sum_list xs))
   | [] \<Rightarrow> (case iq_later q of
        (x, xs) # later \<Rightarrow> Done (q\<lparr>iq_later := later\<rparr>, Inr (x + sum_list xs))
      | [] \<Rightarrow> if iq_closes q then Done (q, Inl ()) else Pending))"

function wait_loop ::
  "increment_queue \<Rightarrow> backpressure_limiter \<Rightarrow> nat \<Rightarrow>
     (increment_queue \<times> backpressure_limiter \<times> (prefetch_read_error + nat option)) run" where
  "wait_loop q l offset =
     (if bl_window_end l \<le> offset \<and> bl_window_end l < bl_request_end l then
        and_then (recv_drain q) (\<lambda>(q, r). case r of
          Inl _ \<Rightarrow> Done (q, l, Inl ReadWindowIncrement)
        | Inr len \<Rightarrow> wait_loop q (l\<lparr>bl_window_end := bl_window_end l + len\<rparr>) offset)
      else Done (q, l, Inr (Some (bl_window_end l))))"
  by pat_completeness auto
termination
  by (relation "measure (\<lambda>(q, l, offset). (if iq_now q = [] then 0 else 1) + length (iq_later q))")
    (auto simp: recv_drain_def split: list.splits if_splits)

declare wait_loop.simps [simp del]

definition wait_for_read_window_increment ::
  "increment_queue \<Rightarrow> backpressure_limiter \<Rightarrow> nat \<Rightarrow>
     (increment_queue \<times> backpressure_limiter \<times> (prefetch_read_error + nat option)) run" where
  "wait_for_read_window_increment q l offset =
     (if bl_window_end l > offset then
        (case try_recv_drain q of
           (q, Some n) \<Rightarrow>
             let l = l\<lparr>bl_window_end := bl_window_end l + n\<rparr> in Done (q, l, Inr (Some (bl_window_end l)))
         | (q, None) \<Rightarrow> Done (q, l, Inr None))
      else wait_loop q l offset)"

section \<open>Invariant of the controller\<close>

text \<open>
  The bounds under which the window keeps moving. With a preferred size below two, half of it is zero and
  the guard of the loop never holds, so the sizes must be at least two; the multiplier is forced to be.
\<close>

definition alignment_ok :: "read_window_alignment_config \<Rightarrow> bool" where
  "alignment_ok cfg \<longleftrightarrow> (case cfg of AlignToPartSize _ part_size \<Rightarrow> part_size \<noteq> 0 | Disable \<Rightarrow> True)"

definition bc_inv :: "backpressure_controller \<Rightarrow> bool" where
  "bc_inv c \<longleftrightarrow> 2 \<le> bc_preferred c \<and> 2 \<le> bc_min c \<and> 2 \<le> bc_max c \<and> 2 \<le> bc_multiplier c \<and>
     bc_request_end c \<le> u64_max \<and> alignment_ok (bc_alignment c)"

definition window_open :: "backpressure_controller \<Rightarrow> bool" where
  "window_open c \<longleftrightarrow> bc_next_read c < bc_window_end c \<or> bc_request_end c \<le> bc_window_end c"

definition config_ok :: "backpressure_config \<Rightarrow> bool" where
  "config_ok cfg \<longleftrightarrow> 2 \<le> initial_read_window_size cfg \<and> 2 \<le> min_read_window_size cfg \<and>
     2 \<le> max_read_window_size cfg \<and> request_range_end cfg \<le> u64_max \<and> alignment_ok (read_window_alignment cfg)"

lemma new_backpressure_controller_inv:
  assumes "config_ok cfg" and "new_backpressure_controller cfg ml = (ml', c, l)"
  shows "bc_inv c" and "window_open c" and "bl_window_end l = bc_window_end c"
    and "settled ml' = settled ml + of_nat (bc_window_end c - bc_next_read c)" and "same_limits ml ml'"
    and "bc_next_read c = request_range_start cfg" and "bc_request_end c = request_range_end cfg"
  using assms
  by (auto simp: new_backpressure_controller_def config_ok_def bc_inv_def window_open_def
      min_window_size_multiplier_def Let_def)

lemma next_multiple_of_ok:
  assumes m: "m \<noteq> 0"
  shows "\<exists>r. next_multiple_of a m = Done r \<and> a \<le> r \<and> r mod m = 0 \<and> r < a + m"
proof (cases "a mod m = 0")
  case False
  have "a + (m - a mod m) = (a div m) * m + m"
    using m div_mult_mod_eq [of a m] mod_less_divisor [of m a] by linarith
  then have "(a + (m - a mod m)) mod m = 0" by simp
  moreover have "next_multiple_of a m = Done (a + (m - a mod m))"
    using m False by (simp add: next_multiple_of_def)
  moreover have "m - a mod m < m" using m False by simp
  ultimately show ?thesis by (metis le_add1 nat_add_left_cancel_less)
qed (use m in \<open>simp add: next_multiple_of_def\<close>)

lemma align_window_ok: "alignment_ok cfg \<Longrightarrow> \<exists>r. align_window cfg e = Done r \<and> e \<le> r"
proof (cases cfg)
  case (AlignToPartSize from_offset part_size)
  assume "alignment_ok cfg"
  then obtain r where "next_multiple_of (e - from_offset) part_size = Done r" "e - from_offset \<le> r"
    using AlignToPartSize next_multiple_of_ok [of part_size "e - from_offset"] by (auto simp: alignment_ok_def)
  with AlignToPartSize show ?thesis
    by (cases "from_offset < e") (auto simp: align_window_def)
qed (simp add: align_window_def)

lemma scale_down_inv:
  assumes "bc_inv c"
  obtains c' where "scale_down c = Done c'" and "bc_inv c'" and "c' = c\<lparr>bc_preferred := bc_preferred c'\<rparr>"
proof (cases "bc_preferred c > bc_min c")
  case True
  then show thesis
    by (intro that [of "c\<lparr>bc_preferred := min (max (bc_preferred c div bc_multiplier c) (bc_min c)) (bc_max c)\<rparr>"])
      (use assms in \<open>auto simp: scale_down_def bc_inv_def\<close>)
next
  case False
  then show thesis
    by (intro that [of c]) (use assms in \<open>simp_all add: scale_down_def\<close>)
qed

lemma scale_up_inv:
  assumes "bc_inv c"
  obtains ml' c' where "scale_up ml c = Done (ml', c')" and "bc_inv c'" and "c' = c\<lparr>bc_preferred := bc_preferred c'\<rparr>"
    and "settled ml' = settled ml" and "same_limits ml ml'"
proof (cases "bc_preferred c < bc_max c")
  case True
  let ?new = "min (max (bc_preferred c * bc_multiplier c) (bc_min c)) (bc_max c)"
  have "bc_preferred c \<le> bc_preferred c * bc_multiplier c"
    using assms by (simp add: bc_inv_def)
  then have ge: "bc_preferred c \<le> ?new" using True by linarith
  obtain ml' av where a: "available_mem ml = (ml', av)" by (cases "available_mem ml")
  have "settled ml' = settled ml" "same_limits ml ml'"
    using available_mem_simps [of ml] a by simp_all
  with True ge a assms show thesis
    by (intro that [of ml' "if av \<ge> of_nat (?new - bc_preferred c) then c\<lparr>bc_preferred := ?new\<rparr> else c"])
      (auto simp: scale_up_def Let_def bc_inv_def)
qed (use assms in \<open>auto intro!: that [of ml c] simp: scale_up_def\<close>)

text \<open>What the loop guarantees: its increments, the memory reserved for them, and an open window.\<close>

definition feedback_ok ::
  "mem_limiter \<Rightarrow> nat list \<Rightarrow> backpressure_controller \<Rightarrow>
   mem_limiter \<times> nat list \<times> backpressure_controller \<Rightarrow> bool" where
  "feedback_ok ml ch c s = (case s of (ml', ch', c') \<Rightarrow>
     (\<exists>incs. ch' = ch @ incs \<and> bc_window_end c' = bc_window_end c + sum_list incs \<and>
       settled ml' = settled ml + of_nat (sum_list incs)) \<and>
     same_limits ml ml' \<and> bc_inv c' \<and> bc_window_end c' \<le> max (bc_window_end c) (bc_request_end c) \<and>
     bc_next_read c' = bc_next_read c \<and> bc_request_end c' = bc_request_end c)"

lemma feedback_ok_same: "bc_inv c \<Longrightarrow> same_limits ml ml' \<Longrightarrow> settled ml' = settled ml \<Longrightarrow> feedback_ok ml ch c (ml', ch, c)"
  by (simp add: feedback_ok_def)

lemma feedback_ok_increment:
  assumes "bc_inv c" and "bc_window_end c < e" and "e \<le> bc_request_end c" and "same_limits ml ml'"
    and "settled ml' = settled ml + of_nat (e - bc_window_end c)"
  shows "feedback_ok ml ch c (ml', ch @ [e - bc_window_end c], c\<lparr>bc_window_end := e\<rparr>)"
  using assms by (auto simp: feedback_ok_def bc_inv_def)

lemma feedback_ok_retry:
  assumes "feedback_ok ml' ch c' s" and "same_limits ml ml'" and "settled ml' = settled ml"
    and "c' = c\<lparr>bc_preferred := bc_preferred c'\<rparr>"
  shows "feedback_ok ml ch c s"
proof -
  have "bc_window_end c' = bc_window_end c" "bc_next_read c' = bc_next_read c" "bc_request_end c' = bc_request_end c"
    by (subst assms(4), simp)+
  with assms(1-3) show ?thesis
    by (auto simp: feedback_ok_def intro: same_limits_trans)
qed

lemma data_read_loop_ok:
  assumes "bc_inv c" and "mem_limit ml < - 1"
  shows "\<exists>s. data_read_loop ml ch c rem = Done s \<and> feedback_ok ml ch c s \<and>
    (rem = bc_window_end c - bc_next_read c \<longrightarrow> window_open (snd (snd s)))"
  using assms
proof (induction ml ch c rem rule: data_read_loop.induct)
  case (1 ml ch c rem)
  let ?more = "rem < bc_preferred c div 2 \<and> bc_window_end c < bc_request_end c"
  obtain a where a: "align_window (bc_alignment c) (sat_add (bc_next_read c) (bc_preferred c)) = Done a"
    and a_ge: "sat_add (bc_next_read c) (bc_preferred c) \<le> a"
    using align_window_ok 1(2) by (metis bc_inv_def)
  let ?e = "min a (bc_request_end c)"
  let ?n = "?e - bc_window_end c"
  have beyond: "bc_next_read c < ?e \<or> ?e = bc_request_end c"
    using a_ge 1(2) by (auto simp: sat_add_def bc_inv_def)
  show ?case
  proof (cases ?more)
    case False
    then have "data_read_loop ml ch c rem = Done (ml, ch, c)"
      by (subst data_read_loop.simps) (rule if_not_P)
    moreover have "window_open c" if "rem = bc_window_end c - bc_next_read c"
      using False that 1(2) by (auto simp: window_open_def bc_inv_def)
    ultimately show ?thesis using 1(2) feedback_ok_same by simp
  next
    case more: True
    show ?thesis
    proof (cases "?e \<le> bc_window_end c")
      case True
      then have "data_read_loop ml ch c rem = Done (ml, ch, c)"
        using more a by (simp add: data_read_loop.simps)
      moreover have "window_open c" using True more beyond by (auto simp: window_open_def)
      ultimately show ?thesis using 1(2) feedback_ok_same by simp
    next
      case inc: False
      let ?c = "c\<lparr>bc_window_end := ?e\<rparr>"
      have incr: "increment_read_window c ch ?n = (?c, ch @ [?n])"
        using inc by (simp add: increment_read_window_def)
      have opn: "window_open ?c" using beyond by (auto simp: window_open_def)
      show ?thesis
      proof (cases "bc_preferred c \<le> bc_min c")
        case True
        then have "data_read_loop ml ch c rem = Done (mem_reserve ml (of_nat ?n), ch @ [?n], ?c)"
          using more a inc incr by (simp add: data_read_loop.simps Let_def)
        moreover have "feedback_ok ml ch c (mem_reserve ml (of_nat ?n), ch @ [?n], ?c)"
          using inc 1(2) by (intro feedback_ok_increment) auto
        ultimately show ?thesis using opn by simp
      next
        case force: False
        obtain ml' ok where t: "try_reserve ml (of_nat ?n) = (ml', ok)" by (cases "try_reserve ml (of_nat ?n)")
        then have res: "same_limits ml ml'" "settled ml' = settled ml + (if ok then of_nat ?n else 0)"
          using try_reserve_outcome [OF 1(3) t] by (auto simp: reserve_outcome_def)
        show ?thesis
        proof (cases ok)
          case True
          then have "data_read_loop ml ch c rem = Done (ml', ch @ [?n], ?c)"
            using more a inc incr force t by (simp add: data_read_loop.simps Let_def)
          moreover have "feedback_ok ml ch c (ml', ch @ [?n], ?c)"
            using inc 1(2) res True by (intro feedback_ok_increment) auto
          ultimately show ?thesis using opn by simp
        next
          case False
          obtain c' where c': "scale_down c = Done c'" "bc_inv c'" "c' = c\<lparr>bc_preferred := bc_preferred c'\<rparr>"
            by (rule scale_down_inv [OF 1(2)])
          have "mem_limit ml' < - 1" using res(1) 1(3) by (simp add: same_limits_def)
          then obtain s where s: "data_read_loop ml' ch c' rem = Done s" "feedback_ok ml' ch c' s"
            "rem = bc_window_end c' - bc_next_read c' \<longrightarrow> window_open (snd (snd s))"
            using 1(1) [OF more a refl inc refl force t [symmetric] _ c'(1,2)] False by auto
          have "data_read_loop ml ch c rem = Done s"
            using more a inc force t False c'(1) s(1) by (simp add: data_read_loop.simps [of ml] Let_def)
          moreover have "feedback_ok ml ch c s"
            using feedback_ok_retry [OF s(2) res(1) _ c'(3)] res(2) False by simp
          moreover have "bc_window_end c' = bc_window_end c" "bc_next_read c' = bc_next_read c"
            by (subst c'(3), simp)+
          ultimately show ?thesis using s(3) by simp
        qed
      qed
    qed
  qed
qed

lemma send_feedback_data_read:
  assumes "bc_inv c" and "mem_limit ml < - 1"
  obtains ml' incs c' where "send_feedback ml ch c (DataRead offset len) = Done (ml', ch @ incs, c')"
    and "bc_window_end c' = bc_window_end c + sum_list incs"
    and "settled ml' = settled ml - of_nat len + of_nat (sum_list incs)"
    and "same_limits ml ml'" and "bc_inv c'" and "bc_window_end c' \<le> max (bc_window_end c) (bc_request_end c)"
    and "bc_next_read c' = offset + len" and "bc_request_end c' = bc_request_end c" and "window_open c'"
proof -
  let ?c = "c\<lparr>bc_next_read := offset + len\<rparr>" and ?ml = "mem_release ml (of_nat len)"
  have "bc_inv ?c" using assms(1) by (simp add: bc_inv_def)
  from data_read_loop_ok [OF this, of ?ml ch "bc_window_end ?c - bc_next_read ?c"] assms(2) obtain s where
    s: "data_read_loop ?ml ch ?c (bc_window_end ?c - bc_next_read ?c) = Done s" "feedback_ok ?ml ch ?c s"
    "window_open (snd (snd s))"
    by auto
  obtain ml' ch' c' where e: "s = (ml', ch', c')" by (cases s)
  from s(2) obtain incs where "ch' = ch @ incs" "bc_window_end c' = bc_window_end c + sum_list incs"
    "settled ml' = settled ?ml + of_nat (sum_list incs)" "same_limits ?ml ml'" "bc_inv c'"
    "bc_window_end c' \<le> max (bc_window_end c) (bc_request_end c)" "bc_next_read c' = offset + len"
    "bc_request_end c' = bc_request_end c"
    by (auto simp: feedback_ok_def e)
  then show thesis
    using s e by (intro that [of ml' incs c']) (auto simp: send_feedback_def Let_def intro: same_limits_trans [OF mem_release_simps(2)])
qed

lemma send_feedback_stall:
  assumes "bc_inv c"
  obtains ml' c' where "send_feedback ml ch c PartQueueStall = Done (ml', ch, c')"
    and "bc_inv c'" and "c' = c\<lparr>bc_preferred := bc_preferred c'\<rparr>"
    and "settled ml' = settled ml" and "same_limits ml ml'"
  using assms that by (auto elim!: scale_up_inv [of c ml] simp: send_feedback_def)

section \<open>Properties\<close>

text \<open>
  C17: the reader can never be blocked by its own flow control. After every \<open>DataRead\<close> feedback, whatever the
  memory limiter answers to the reservations (with arbitrary interference), the call returns, and the read
  window extends beyond the next offset to read or to the end of the request. The increments it sent are
  exactly what the window grew by, and exactly that much memory was reserved for it while the bytes read
  were released.
\<close>

theorem data_read_keeps_window_open:
  assumes "bc_inv c" and "mem_limit ml < - 1"
  shows "\<exists>ml' incs c'. send_feedback ml ch c (DataRead offset len) = Done (ml', ch @ incs, c') \<and>
    (offset + len < bc_window_end c' \<or> bc_request_end c \<le> bc_window_end c') \<and>
    bc_window_end c' = bc_window_end c + sum_list incs \<and>
    bc_window_end c' \<le> max (bc_window_end c) (bc_request_end c) \<and>
    settled ml' = settled ml - of_nat len + of_nat (sum_list incs) \<and> bc_inv c'"
proof -
  obtain ml' incs c' where "send_feedback ml ch c (DataRead offset len) = Done (ml', ch @ incs, c')"
    "bc_window_end c' = bc_window_end c + sum_list incs"
    "settled ml' = settled ml - of_nat len + of_nat (sum_list incs)"
    "same_limits ml ml'" "bc_inv c'" "bc_window_end c' \<le> max (bc_window_end c) (bc_request_end c)"
    "bc_next_read c' = offset + len" "bc_request_end c' = bc_request_end c" "window_open c'"
    by (rule send_feedback_data_read [OF assms])
  then show ?thesis by (auto simp: window_open_def)
qed

definition witness_config :: backpressure_config where
  "witness_config = \<lparr>initial_read_window_size = 10, min_read_window_size = 4, max_read_window_size = 64,
     read_window_size_multiplier = 2, request_range_start = 100, request_range_end = 1000,
     read_window_alignment = AlignToPartSize 110 8\<rparr>"

definition witness_controller :: backpressure_controller where
  "witness_controller = fst (snd (new_backpressure_controller witness_config witness_limiter))"

lemma witness_controller_inv: "bc_inv witness_controller"
  by (simp add: witness_controller_def new_backpressure_controller_def witness_config_def bc_inv_def
      u64_max_def alignment_ok_def min_window_size_multiplier_def)

theorem data_read_keeps_window_open_witness:
  "\<exists>ml' incs c'. send_feedback witness_limiter [] witness_controller (DataRead 100 8) = Done (ml', incs, c') \<and>
    (108 < bc_window_end c' \<or> bc_request_end witness_controller \<le> bc_window_end c') \<and>
    bc_window_end c' = bc_window_end witness_controller + sum_list incs"
  using data_read_keeps_window_open [OF witness_controller_inv witness_limiter_limit, of "[]" 100 8] by auto

section \<open>Controller and limiter together\<close>

text \<open>
  The two ends of one channel: the reader's feedback and the producer's waits, interleaved in any order.
  A wait that would block is not a step.
\<close>

record flow =
  fl_mem :: mem_limiter
  fl_channel :: "nat list"
  fl_controller :: backpressure_controller
  fl_limiter :: backpressure_limiter

definition channel_queue :: "nat list \<Rightarrow> increment_queue" where
  "channel_queue ch = \<lparr>iq_now = ch, iq_later = [], iq_closes = False\<rparr>"

inductive flow_step :: "flow \<Rightarrow> flow \<Rightarrow> bool" where
  flow_feedback: "send_feedback (fl_mem s) (fl_channel s) (fl_controller s) ev = Done (ml, ch, c) \<Longrightarrow>
    flow_step s (s\<lparr>fl_mem := ml, fl_channel := ch, fl_controller := c\<rparr>)"
| flow_wait: "wait_for_read_window_increment (channel_queue (fl_channel s)) (fl_limiter s) offset = Done (q, l, r) \<Longrightarrow>
    flow_step s (s\<lparr>fl_channel := iq_now q, fl_limiter := l\<rparr>)"

inductive flow_reachable :: "backpressure_config \<Rightarrow> mem_limiter \<Rightarrow> flow \<Rightarrow> bool" for cfg ml0 where
  flow_init: "new_backpressure_controller cfg ml0 = (ml, c, l) \<Longrightarrow>
    flow_reachable cfg ml0 \<lparr>fl_mem = ml, fl_channel = [], fl_controller = c, fl_limiter = l\<rparr>"
| flow_next: "flow_reachable cfg ml0 s \<Longrightarrow> flow_step s t \<Longrightarrow> flow_reachable cfg ml0 t"

definition flow_inv :: "flow \<Rightarrow> bool" where
  "flow_inv s \<longleftrightarrow> bc_inv (fl_controller s) \<and> window_open (fl_controller s) \<and> mem_limit (fl_mem s) < - 1 \<and>
     bl_window_end (fl_limiter s) + sum_list (fl_channel s) = bc_window_end (fl_controller s) \<and>
     bl_request_end (fl_limiter s) = bc_request_end (fl_controller s)"

lemma wait_loop_go:
  "bl_window_end l \<le> offset \<and> bl_window_end l < bl_request_end l \<Longrightarrow> wait_loop q l offset =
     and_then (recv_drain q) (\<lambda>(q, r). case r of
       Inl _ \<Rightarrow> Done (q, l, Inl ReadWindowIncrement)
     | Inr len \<Rightarrow> wait_loop q (l\<lparr>bl_window_end := bl_window_end l + len\<rparr>) offset)"
  by (subst wait_loop.simps) (rule if_P)

lemma wait_loop_stop:
  "\<not> (bl_window_end l \<le> offset \<and> bl_window_end l < bl_request_end l) \<Longrightarrow>
     wait_loop q l offset = Done (q, l, Inr (Some (bl_window_end l)))"
  by (subst wait_loop.simps) (rule if_not_P)

lemma wait_loop_queue:
  assumes "wait_loop q l offset = Done (q', l', r)" and "iq_later q = []"
  shows "bl_window_end l' + sum_list (iq_now q') = bl_window_end l + sum_list (iq_now q) \<and>
    bl_request_end l' = bl_request_end l"
  using assms
proof (induction q l offset rule: wait_loop.induct)
  case (1 q l offset)
  show ?case
  proof (cases "bl_window_end l \<le> offset \<and> bl_window_end l < bl_request_end l")
    case True
    from 1(2) [unfolded wait_loop_go [OF True]] obtain q1 res where rd: "recv_drain q = Done (q1, res)"
      and res: "(case res of Inl _ \<Rightarrow> Done (q1, l, Inl ReadWindowIncrement)
        | Inr len \<Rightarrow> wait_loop q1 (l\<lparr>bl_window_end := bl_window_end l + len\<rparr>) offset) = Done (q', l', r)"
      by (elim and_then_DoneE) auto
    show ?thesis
    proof (cases res)
      case (Inl u)
      with rd res 1(3) show ?thesis by (auto simp: recv_drain_def split: list.splits if_splits)
    next
      case (Inr len)
      moreover have "iq_later q1 = []" "len + sum_list (iq_now q1) = sum_list (iq_now q)"
        using rd Inr 1(3) by (auto simp: recv_drain_def split: list.splits if_splits)
      ultimately show ?thesis
        using 1(1) [OF True rd refl Inr] res by simp
    qed
  next
    case False
    with 1(2) show ?thesis by (simp add: wait_loop_stop)
  qed
qed

lemma wait_loop_now:
  assumes "iq_now q = x # xs" and "bl_window_end l \<le> offset" and "bl_window_end l < bl_request_end l"
    and "offset < bl_window_end l + sum_list (x # xs)"
  shows "wait_loop q l offset = Done (q\<lparr>iq_now := []\<rparr>, l\<lparr>bl_window_end := bl_window_end l + sum_list (x # xs)\<rparr>,
    Inr (Some (bl_window_end l + sum_list (x # xs))))"
  using assms by (simp add: wait_loop_go recv_drain_def wait_loop_stop)

lemma wait_for_queue:
  assumes "wait_for_read_window_increment (channel_queue ch) l offset = Done (q', l', r)"
  shows "bl_window_end l' + sum_list (iq_now q') = bl_window_end l + sum_list ch"
    and "bl_request_end l' = bl_request_end l"
  using assms wait_loop_queue [of "channel_queue ch" l offset q' l' r]
  by (auto simp: wait_for_read_window_increment_def try_recv_drain_def channel_queue_def Let_def split: if_splits)

lemma flow_step_inv: "flow_step s t \<Longrightarrow> flow_inv s \<Longrightarrow> flow_inv t"
proof (induction rule: flow_step.induct)
  case (flow_feedback s ev ml ch c)
  then have inv: "bc_inv (fl_controller s)" and lim: "mem_limit (fl_mem s) < - 1"
    by (simp_all add: flow_inv_def)
  show ?case
  proof (cases ev)
    case (DataRead offset len)
    obtain ml' incs c' where r: "send_feedback (fl_mem s) (fl_channel s) (fl_controller s) (DataRead offset len) =
        Done (ml', fl_channel s @ incs, c')" "bc_window_end c' = bc_window_end (fl_controller s) + sum_list incs"
      "same_limits (fl_mem s) ml'" "bc_inv c'" "bc_request_end c' = bc_request_end (fl_controller s)" "window_open c'"
      by (rule send_feedback_data_read [OF inv lim])
    then show ?thesis
      using flow_feedback DataRead by (auto simp: flow_inv_def same_limits_def)
  next
    case PartQueueStall
    obtain ml' c' where r: "send_feedback (fl_mem s) (fl_channel s) (fl_controller s) PartQueueStall = Done (ml', fl_channel s, c')"
      "bc_inv c'" "c' = (fl_controller s)\<lparr>bc_preferred := bc_preferred c'\<rparr>" "same_limits (fl_mem s) ml'"
      by (rule send_feedback_stall [OF inv])
    have "window_open c' = window_open (fl_controller s)" "bc_window_end c' = bc_window_end (fl_controller s)"
      "bc_request_end c' = bc_request_end (fl_controller s)"
      by (subst r(3), simp add: window_open_def)+
    with r flow_feedback PartQueueStall show ?thesis
      by (auto simp: flow_inv_def same_limits_def)
  qed
next
  case (flow_wait s offset q l r)
  then show ?case using wait_for_queue [OF flow_wait(1)] by (auto simp: flow_inv_def)
qed

lemma flow_reachable_inv:
  assumes "config_ok cfg" and "mem_limit ml0 < - 1"
  shows "flow_reachable cfg ml0 s \<Longrightarrow> flow_inv s"
proof (induction rule: flow_reachable.induct)
  case (flow_init ml c l)
  from new_backpressure_controller_inv [OF assms(1) this] flow_init assms(2) show ?case
    by (auto simp: flow_inv_def same_limits_def new_backpressure_controller_def Let_def)
qed (rule flow_step_inv)


definition witness_flow :: flow where
  "witness_flow = (case new_backpressure_controller witness_config witness_limiter of (ml, c, l) \<Rightarrow>
     \<lparr>fl_mem = ml, fl_channel = [], fl_controller = c, fl_limiter = l\<rparr>)"


end
