(* ===== verification/Request_Range.thy ===== *)
theory Request_Range
  imports Prelude
begin

text \<open>
  Byte ranges of a request (\<open>RequestRange\<close> of \<open>mountpoint-s3-fs/src/prefetch/part_stream.rs\<close>): a start and a
  length that never reach beyond the object, trimming at either end and alignment to parts.
\<close>

record request_range =
  rr_object_size :: nat
  rr_offset :: nat
  rr_size :: nat

definition rr_new :: "nat \<Rightarrow> nat \<Rightarrow> nat \<Rightarrow> request_range" where
  "rr_new object_size offset sz =
     \<lparr>rr_object_size = object_size, rr_offset = offset, rr_size = min sz (object_size - offset)\<rparr>"

definition rr_is_empty :: "request_range \<Rightarrow> bool" where
  "rr_is_empty r \<longleftrightarrow> rr_size r = 0"

definition rr_end :: "request_range \<Rightarrow> nat" where
  "rr_end r = rr_offset r + rr_size r"

definition clamp :: "nat \<Rightarrow> nat \<Rightarrow> nat \<Rightarrow> nat" where
  "clamp x lo hi = (if x < lo then lo else if x > hi then hi else x)"

definition trim_start :: "request_range \<Rightarrow> nat \<Rightarrow> request_range" where
  "trim_start r start_offset =
     (let offset = clamp start_offset (rr_offset r) (rr_end r)
      in \<lparr>rr_object_size = rr_object_size r, rr_offset = offset, rr_size = rr_end r - offset\<rparr>)"

definition trim_end :: "request_range \<Rightarrow> nat \<Rightarrow> request_range" where
  "trim_end r end_offset =
     (let e = clamp end_offset (rr_offset r) (rr_end r)
      in \<lparr>rr_object_size = rr_object_size r, rr_offset = rr_offset r, rr_size = e - rr_offset r\<rparr>)"

definition rr_align :: "request_range \<Rightarrow> nat \<Rightarrow> bool \<Rightarrow> request_range run" where
  "rr_align r part_alignment trim_only =
     and_then (assert_that (part_alignment \<noteq> 0)) (\<lambda>_.
       let offset_in_part = rr_offset r mod part_alignment in
       and_then
         (if offset_in_part \<noteq> 0 then
            (let remaining_in_part = part_alignment - offset_in_part
             in Done (if trim_only then min (rr_size r) remaining_in_part else remaining_in_part))
          else if rr_size r < part_alignment then
            Done (if trim_only then rr_size r else part_alignment)
          else (let remainder = rr_end r mod part_alignment
                in if trim_only \<or> remainder = 0 then checked_sub (rr_size r) remainder
                   else Done (rr_size r + (part_alignment - remainder))))
         (\<lambda>sz. Done (rr_new (rr_object_size r) (rr_offset r) sz)))"

section \<open>Properties\<close>

definition rr_wf :: "request_range \<Rightarrow> bool" where
  "rr_wf r \<longleftrightarrow> rr_is_empty r \<or> rr_end r \<le> rr_object_size r"

definition rr_offsets :: "request_range \<Rightarrow> nat set" where
  "rr_offsets r = {rr_offset r ..< rr_end r}"

lemma rr_new_wf [simp]: "rr_wf (rr_new n off sz)"
  by (auto simp: rr_wf_def rr_new_def rr_end_def rr_is_empty_def)

lemma rr_new_end: "off \<le> n \<Longrightarrow> rr_end (rr_new n off sz) = min (off + sz) n"
  by (auto simp: rr_new_def rr_end_def)

lemma trim_start_bounds:
  "rr_end (trim_start r x) = rr_end r" "rr_offset (trim_start r x) = max (rr_offset r) (min x (rr_end r))"
  by (auto simp: trim_start_def Let_def clamp_def rr_end_def)

lemma trim_end_bounds:
  "rr_offset (trim_end r x) = rr_offset r" "rr_end (trim_end r x) = max (rr_offset r) (min x (rr_end r))"
  by (auto simp: trim_end_def Let_def clamp_def rr_end_def)

lemma trim_offsets:
  "rr_offsets (trim_start r x) = rr_offsets r \<inter> {x ..}" "rr_offsets (trim_end r x) = rr_offsets r \<inter> {..< x}"
  by (auto simp: rr_offsets_def trim_start_bounds trim_end_bounds)

lemma trim_wf [simp]: "rr_wf r \<Longrightarrow> rr_wf (trim_start r x)" "rr_wf r \<Longrightarrow> rr_wf (trim_end r x)"
  by (auto simp: rr_wf_def rr_is_empty_def trim_start_def trim_end_def Let_def clamp_def rr_end_def)

end
