(* ===== verification/Request_Task.thy ===== *)
theory Request_Task
  imports Backpressure Request_Range
begin

text \<open>
  The queue between a part stream and the reader (\<open>mountpoint-s3-fs/src/prefetch/part_queue.rs\<close>) and the
  request task that owns its consuming end (\<open>prefetch/task.rs\<close>). The producer runs concurrently: the items it
  is going to push are \<open>pc_incoming\<close>, and \<open>pc_sched\<close> says how many of them it pushes before each point at which
  the consumer looks at the channel or at the byte counter. A consumer that awaits on an empty channel
  gets the next item, the end of the channel if the producer hangs up, or waits forever.
\<close>

section \<open>The part queue\<close>

type_synonym item = "prefetch_read_error + part"

record part_channel =
  pc_arrived :: "item list"
  pc_bytes_sent :: nat
  pc_closed :: bool
  pc_incoming :: "item list"
  pc_hangs_up :: bool
  pc_sched :: "nat list"

record part_queue =
  pq_front_queue :: "part list"
  pq_receiver :: part_channel
  pq_failed :: bool

definition item_len :: "item \<Rightarrow> nat" where
  "item_len x = (case x of Inl _ \<Rightarrow> 0 | Inr p \<Rightarrow> part_len p)"

text \<open>\<open>PartQueueProducer::push\<close>: a closed channel drops the item and does not count it.\<close>

definition producer_push :: "part_channel \<Rightarrow> item \<Rightarrow> part_channel" where
  "producer_push ch x =
     (if pc_closed ch then ch
      else ch\<lparr>pc_arrived := pc_arrived ch @ [x], pc_bytes_sent := pc_bytes_sent ch + item_len x\<rparr>)"

fun producer_runs :: "nat \<Rightarrow> part_channel \<Rightarrow> part_channel" where
  "producer_runs 0 ch = ch"
| "producer_runs (Suc n) ch = (case pc_incoming ch of
     [] \<Rightarrow> ch
   | x # xs \<Rightarrow> producer_runs n (producer_push (ch\<lparr>pc_incoming := xs\<rparr>) x))"

definition producer_progress :: "part_channel \<Rightarrow> part_channel" where
  "producer_progress ch = (case pc_sched ch of
     [] \<Rightarrow> ch
   | n # ns \<Rightarrow> producer_runs n (ch\<lparr>pc_sched := ns\<rparr>))"

record stream_outcome =
  so_items :: "item list"
  so_hangs_up :: bool
  so_sched :: "nat list"

definition unbounded_part_queue :: "stream_outcome \<Rightarrow> part_queue" where
  "unbounded_part_queue out =
     \<lparr>pq_front_queue = [],
      pq_receiver = \<lparr>pc_arrived = [], pc_bytes_sent = 0, pc_closed = False, pc_incoming = so_items out,
        pc_hangs_up = so_hangs_up out, pc_sched = so_sched out\<rparr>,
      pq_failed = False\<rparr>"

text \<open>\<open>try_recv\<close> and, on an empty channel, \<open>recv().await\<close>.\<close>

definition channel_recv :: "part_channel \<Rightarrow> (part_channel \<times> item) run" where
  "channel_recv ch =
     (let ch = producer_progress ch
      in case pc_arrived ch of
           x # xs \<Rightarrow> Done (ch\<lparr>pc_arrived := xs\<rparr>, x)
         | [] \<Rightarrow> (case pc_incoming ch of
             [] \<Rightarrow> if pc_hangs_up ch then Done (ch, Inl GetRequestTerminatedUnexpectedly) else Pending
           | _ # _ \<Rightarrow>
               let ch = producer_runs 1 ch
               in case pc_arrived ch of x # xs \<Rightarrow> Done (ch\<lparr>pc_arrived := xs\<rparr>, x) | [] \<Rightarrow> Pending))"

definition part_queue_read :: "part_queue \<Rightarrow> nat \<Rightarrow> (part_queue \<times> item) run" where
  "part_queue_read q len =
     and_then (assert_that (\<not> pq_failed q)) (\<lambda>_.
       and_then
         (if pq_front_queue q \<noteq> [] then
            Done (q\<lparr>pq_front_queue := butlast (pq_front_queue q)\<rparr>, Inr (last (pq_front_queue q)))
          else and_then (channel_recv (pq_receiver q)) (\<lambda>(ch, x). Done (q\<lparr>pq_receiver := ch\<rparr>, x)))
         (\<lambda>(q, x). case x of
            Inl e \<Rightarrow> Done (q\<lparr>pq_failed := True\<rparr>, Inl e)
          | Inr part \<Rightarrow> and_then (assert_that (\<not> part_is_empty part)) (\<lambda>_.
              if len < part_len part then
                and_then (part_split_off part len) (\<lambda>(part, tail).
                  Done (q\<lparr>pq_front_queue := pq_front_queue q @ [tail]\<rparr>, Inr part))
              else Done (q, Inr part))))"

definition part_queue_push_front :: "mem_limiter \<Rightarrow> part_queue \<Rightarrow> part \<Rightarrow> (mem_limiter \<times> part_queue) run" where
  "part_queue_push_front ml q part =
     and_then (assert_that (\<not> pq_failed q)) (\<lambda>_.
       Done (mem_reserve ml (of_nat (part_len part)), q\<lparr>pq_front_queue := pq_front_queue q @ [part]\<rparr>))"

definition bytes_received :: "part_queue \<Rightarrow> part_queue \<times> nat" where
  "bytes_received q =
     (let ch = producer_progress (pq_receiver q) in (q\<lparr>pq_receiver := ch\<rparr>, pc_bytes_sent ch))"

text \<open>Dropping the queue closes the channel, drains it and counts what was left in both queues.\<close>

definition part_queue_drop :: "part_queue \<Rightarrow> part_channel \<times> nat" where
  "part_queue_drop q =
     ((pq_receiver q)\<lparr>pc_closed := True, pc_arrived := []\<rparr>,
      sum_list (map item_len (pc_arrived (pq_receiver q))) + sum_list (map part_len (pq_front_queue q)))"

section \<open>The request task\<close>

record request_task =
  rt_remaining :: nat
  rt_range :: request_range
  rt_queue :: part_queue
  rt_controller :: backpressure_controller
  rt_increments :: "nat list"

definition from_handle :: "request_range \<Rightarrow> part_queue \<Rightarrow> backpressure_controller \<Rightarrow> request_task" where
  "from_handle rng queue c =
     \<lparr>rt_remaining = rr_size rng, rt_range = rng, rt_queue = queue, rt_controller = c, rt_increments = []\<rparr>"

fun push_each_front :: "mem_limiter \<Rightarrow> request_task \<Rightarrow> part list \<Rightarrow> (mem_limiter \<times> request_task) run" where
  "push_each_front ml t [] = Done (ml, t)"
| "push_each_front ml t (p # ps) =
     (let t = t\<lparr>rt_remaining := rt_remaining t + part_len p\<rparr>
      in and_then (part_queue_push_front ml (rt_queue t) p) (\<lambda>(ml, q).
           push_each_front ml (t\<lparr>rt_queue := q\<rparr>) ps))"

definition task_push_front :: "mem_limiter \<Rightarrow> request_task \<Rightarrow> part list \<Rightarrow> (mem_limiter \<times> request_task) run" where
  "task_push_front ml t parts = push_each_front ml t (rev parts)"

definition available_offset :: "request_task \<Rightarrow> request_task \<times> nat" where
  "available_offset t =
     (let (q, n) = bytes_received (rt_queue t) in (t\<lparr>rt_queue := q\<rparr>, rr_offset (rt_range t) + n))"

definition task_feedback ::
  "mem_limiter \<Rightarrow> request_task \<Rightarrow> backpressure_feedback_event \<Rightarrow> (mem_limiter \<times> request_task) run" where
  "task_feedback ml t ev =
     and_then (send_feedback ml (rt_increments t) (rt_controller t) ev) (\<lambda>(ml, incs, c).
       Done (ml, t\<lparr>rt_increments := incs, rt_controller := c\<rparr>))"

definition task_read :: "mem_limiter \<Rightarrow> request_task \<Rightarrow> nat \<Rightarrow> (mem_limiter \<times> request_task \<times> item) run" where
  "task_read ml t len =
     and_then (part_queue_read (rt_queue t) len) (\<lambda>(q, x).
       let t = t\<lparr>rt_queue := q\<rparr> in
       case x of
         Inl e \<Rightarrow> Done (ml, t, Inl e)
       | Inr part \<Rightarrow>
           and_then (assert_that (part_len part \<le> rt_remaining t)) (\<lambda>_.
           and_then (checked_sub (rt_remaining t) (part_len part)) (\<lambda>remaining.
           and_then (task_feedback ml (t\<lparr>rt_remaining := remaining\<rparr>)
                       (DataRead (part_offset part) (part_len part))) (\<lambda>(ml, t).
             let next_offset = part_offset part + part_len part;
                 (t, available) = available_offset t;
                 remaining_in_queue = available - next_offset
             in if remaining_in_queue = 0 then
                  and_then (task_feedback ml t PartQueueStall) (\<lambda>(ml, t). Done (ml, t, Inr part))
                else Done (ml, t, Inr part)))))"

definition read_window_end_offset :: "request_task \<Rightarrow> nat" where
  "read_window_end_offset t = bc_window_end (rt_controller t)"

text \<open>Dropping the task drops the queue and the controller.\<close>

definition task_drop :: "mem_limiter \<Rightarrow> request_task \<Rightarrow> mem_limiter run" where
  "task_drop ml t = (let _ = part_queue_drop (rt_queue t) in controller_drop ml (rt_controller t))"

section \<open>What a part stream may deliver\<close>

text \<open>
  \<open>items_from E i obj a xs\<close>: the items are consecutive intact parts of the object from offset \<open>a\<close> on, up
  to the end of the list or to the first error. \<open>items_reach\<close>: they get to the end without an error.
\<close>

fun items_from :: "crc_env \<Rightarrow> object_id \<Rightarrow> bytes \<Rightarrow> nat \<Rightarrow> item list \<Rightarrow> bool" where
  "items_from E i obj a [] \<longleftrightarrow> True"
| "items_from E i obj a (Inl e # xs) \<longleftrightarrow> True"
| "items_from E i obj a (Inr p # xs) \<longleftrightarrow>
     part_offset p = a \<and> part_ok E i obj p \<and> items_from E i obj (a + part_len p) xs"

fun items_reach :: "nat \<Rightarrow> item list \<Rightarrow> nat \<Rightarrow> bool" where
  "items_reach a [] e \<longleftrightarrow> a = e"
| "items_reach a (Inl x # xs) e \<longleftrightarrow> a = e"
| "items_reach a (Inr p # xs) e \<longleftrightarrow> a = e \<or> items_reach (a + part_len p) xs e"

definition queue_items :: "part_queue \<Rightarrow> item list" where
  "queue_items q = map Inr (rev (pq_front_queue q)) @ pc_arrived (pq_receiver q) @ pc_incoming (pq_receiver q)"

definition queue_live :: "part_queue \<Rightarrow> bool" where
  "queue_live q \<longleftrightarrow> \<not> pq_failed q \<and> \<not> pc_closed (pq_receiver q)"

section \<open>Behaviour of the queue\<close>

lemma producer_push_open:
  "\<not> pc_closed ch \<Longrightarrow> producer_push ch x =
     ch\<lparr>pc_arrived := pc_arrived ch @ [x], pc_bytes_sent := pc_bytes_sent ch + item_len x\<rparr>"
  by (simp add: producer_push_def)

lemma producer_runs_items:
  "\<not> pc_closed ch \<Longrightarrow> pc_arrived (producer_runs n ch) @ pc_incoming (producer_runs n ch) = pc_arrived ch @ pc_incoming ch \<and>
     \<not> pc_closed (producer_runs n ch) \<and> pc_hangs_up (producer_runs n ch) = pc_hangs_up ch"
  by (induction n ch rule: producer_runs.induct) (auto simp: producer_push_open split: list.splits)

lemma producer_progress_items:
  assumes "\<not> pc_closed ch"
  shows "pc_arrived (producer_progress ch) @ pc_incoming (producer_progress ch) = pc_arrived ch @ pc_incoming ch"
    and "\<not> pc_closed (producer_progress ch)" and "pc_hangs_up (producer_progress ch) = pc_hangs_up ch"
  using assms producer_runs_items [of "ch\<lparr>pc_sched := _\<rparr>"]
  by (auto simp: producer_progress_def split: list.splits)

lemma channel_recv_item:
  assumes opn: "\<not> pc_closed ch" and items: "pc_arrived ch @ pc_incoming ch = x # xs"
  shows "\<exists>ch'. channel_recv ch = Done (ch', x) \<and> pc_arrived ch' @ pc_incoming ch' = xs \<and> \<not> pc_closed ch'"
proof -
  let ?ch = "producer_progress ch"
  note pr = producer_progress_items [OF opn]
  show ?thesis
  proof (cases "pc_arrived ?ch")
    case Nil
    with pr(1) items have "pc_incoming ?ch = x # xs" by simp
    with Nil pr(2) show ?thesis
      by (auto simp: channel_recv_def Let_def producer_push_open)
  next
    case (Cons y ys)
    with pr items show ?thesis by (auto simp: channel_recv_def Let_def)
  qed
qed

lemma channel_recv_empty:
  assumes opn: "\<not> pc_closed ch" and items: "pc_arrived ch @ pc_incoming ch = []"
  shows "(\<exists>ch'. channel_recv ch = Done (ch', Inl GetRequestTerminatedUnexpectedly)) \<or> channel_recv ch = Pending"
  using producer_progress_items [OF opn] items by (auto simp: channel_recv_def Let_def)

definition error_outcome :: "(part_queue \<times> item) run \<Rightarrow> bool" where
  "error_outcome r \<longleftrightarrow> r = Pending \<or> (\<exists>q e. r = Done (q, Inl e))"

lemma queue_read_not_part:
  assumes "queue_live q" and "\<nexists>p xs. queue_items q = Inr p # xs"
  shows "error_outcome (part_queue_read q len)"
proof -
  let ?ch = "pq_receiver q"
  have front: "pq_front_queue q = []"
    using assms(2) by (cases "rev (pq_front_queue q)") (auto simp: queue_items_def)
  show ?thesis
  proof (cases "pc_arrived ?ch @ pc_incoming ?ch")
    case Nil
    with assms(1) front channel_recv_empty [of ?ch] show ?thesis
      by (auto simp: part_queue_read_def queue_live_def error_outcome_def)
  next
    case (Cons x xs)
    with assms(2) front obtain e where "x = Inl e" by (cases x) (auto simp: queue_items_def)
    with Cons assms(1) front channel_recv_item [OF _ Cons] show ?thesis
      by (auto simp: part_queue_read_def queue_live_def error_outcome_def)
  qed
qed

lemma queue_pop:
  assumes live: "queue_live q" and items: "queue_items q = Inr p # xs" and ok: "part_ok E i obj p"
  shows "\<exists>q'. queue_live q' \<and> queue_items q' = xs \<and> part_queue_read q len =
    (if len < part_len p then
       and_then (part_split_off p len) (\<lambda>(part, tail).
         Done (q'\<lparr>pq_front_queue := pq_front_queue q' @ [tail]\<rparr>, Inr part))
     else Done (q', Inr p))"
proof -
  have ne: "\<not> part_is_empty p"
    using ok by (simp add: part_is_empty_def cb_is_empty_iff part_ok_def part_len_def)
  show ?thesis
  proof (cases "pq_front_queue q = []")
    case True
    then have "pc_arrived (pq_receiver q) @ pc_incoming (pq_receiver q) = Inr p # xs"
      using items by (simp add: queue_items_def)
    then obtain ch' where ch': "channel_recv (pq_receiver q) = Done (ch', Inr p)"
      "pc_arrived ch' @ pc_incoming ch' = xs" "\<not> pc_closed ch'"
      using live channel_recv_item [of "pq_receiver q"] by (auto simp: queue_live_def)
    show ?thesis
      by (rule exI [of _ "q\<lparr>pq_receiver := ch'\<rparr>"])
        (use live True ch' ne in \<open>auto simp: queue_live_def queue_items_def part_queue_read_def\<close>)
  next
    case False
    then have "rev (pq_front_queue q) = last (pq_front_queue q) # rev (butlast (pq_front_queue q))"
      by (metis append_butlast_last_id rev.simps(2) rev_rev_ident rev_append rev_singleton_conv append_Cons append_Nil)
    with items have "last (pq_front_queue q) = p"
      "map Inr (rev (butlast (pq_front_queue q))) @ pc_arrived (pq_receiver q) @ pc_incoming (pq_receiver q) = xs"
      by (simp_all add: queue_items_def)
    then show ?thesis
      using live False ne
      by (intro exI [of _ "q\<lparr>pq_front_queue := butlast (pq_front_queue q)\<rparr>"])
        (auto simp: queue_live_def queue_items_def part_queue_read_def)
  qed
qed

lemma queue_read_part:
  assumes live: "queue_live q" and frm: "items_from E i obj a (queue_items q)"
    and items: "queue_items q = Inr p0 # xs" and len: "0 < len"
  obtains q' p where "part_queue_read q len = Done (q', Inr p)" and "queue_live q'"
    and "part_offset p = a" and "part_ok E i obj p" and "part_len p \<le> len"
    and "items_from E i obj (a + part_len p) (queue_items q')"
    and "\<And>e. items_reach a (queue_items q) e \<Longrightarrow> a < e \<Longrightarrow> items_reach (a + part_len p) (queue_items q') e"
proof -
  from frm items have ok: "part_ok E i obj p0" and off: "part_offset p0 = a"
    and rest: "items_from E i obj (a + part_len p0) xs" by simp_all
  from queue_pop [OF live items ok, of len] obtain q' where q': "queue_live q'" "queue_items q' = xs"
    and read: "part_queue_read q len = (if len < part_len p0 then
       and_then (part_split_off p0 len) (\<lambda>(part, tail).
         Done (q'\<lparr>pq_front_queue := pq_front_queue q' @ [tail]\<rparr>, Inr part))
       else Done (q', Inr p0))"
    by blast
  show thesis
  proof (cases "len < part_len p0")
    case False
    show thesis
      by (rule that [of q' p0]) (use False read q' off ok rest items in auto)
  next
    case True
    obtain f t where s: "part_split_off p0 len = Done (f, t)" "part_ok E i obj f" "part_ok E i obj t"
      "part_len f = len" "part_len t = part_len p0 - len" "part_offset f = a" "part_offset t = a + len"
      using off by (metis part_split_off_ok [OF ok len True])
    let ?q = "q'\<lparr>pq_front_queue := pq_front_queue q' @ [t]\<rparr>"
    have it: "queue_items ?q = Inr t # xs" using q'(2) by (simp add: queue_items_def)
    show thesis
    proof (rule that [of ?q f])
      show "items_reach (a + part_len f) (queue_items ?q) e"
        if "items_reach a (queue_items q) e" "a < e" for e
        using that items it s(4,5) True by auto
    qed (use True read q' s it rest in \<open>auto simp: queue_live_def\<close>)
  qed
qed

lemma bytes_received_queue:
  assumes "bytes_received q = (q', n)" and "queue_live q"
  shows "queue_live q'" and "queue_items q' = queue_items q"
  using assms producer_progress_items [of "pq_receiver q"]
  by (auto simp: bytes_received_def queue_live_def queue_items_def Let_def)

section \<open>Behaviour of the task\<close>

text \<open>
  \<open>task_inv E i obj t a\<close>: the next byte to come out of the queue is at offset \<open>a\<close>. \<open>task_balance\<close> is the memory
  counter without what the task holds, which is the window from \<open>a\<close> to its end.
\<close>

definition task_inv :: "crc_env \<Rightarrow> object_id \<Rightarrow> bytes \<Rightarrow> request_task \<Rightarrow> nat \<Rightarrow> bool" where
  "task_inv E i obj t a \<longleftrightarrow> queue_live (rt_queue t) \<and> items_from E i obj a (queue_items (rt_queue t)) \<and>
     a \<le> length obj \<and> rt_remaining t = length obj - a \<and> bc_inv (rt_controller t) \<and>
     bc_request_end (rt_controller t) = length obj \<and> bc_next_read (rt_controller t) \<le> length obj \<and>
     bc_next_read (rt_controller t) \<le> bc_window_end (rt_controller t)"

definition task_balance :: "mem_limiter \<Rightarrow> request_task \<Rightarrow> nat \<Rightarrow> u64" where
  "task_balance ml t a = settled ml - of_nat (bc_window_end (rt_controller t)) + of_nat a"

definition task_reach :: "request_task \<Rightarrow> nat \<Rightarrow> nat \<Rightarrow> bool" where
  "task_reach t a e \<longleftrightarrow> items_reach a (queue_items (rt_queue t)) e"

lemma task_feedback_data_read:
  assumes "bc_inv (rt_controller t)" and "mem_limit ml < - 1" and "bc_request_end (rt_controller t) = n"
    and "off + len \<le> n"
  obtains ml' t' where "task_feedback ml t (DataRead off len) = Done (ml', t')"
    and "rt_queue t' = rt_queue t" "rt_remaining t' = rt_remaining t" "rt_range t' = rt_range t"
    and "bc_inv (rt_controller t')" "bc_request_end (rt_controller t') = n"
    and "bc_next_read (rt_controller t') = off + len" "off + len \<le> bc_window_end (rt_controller t')"
    and "same_limits ml ml'"
    and "\<And>a. task_balance ml' t' (a + len) = task_balance ml t a"
proof -
  obtain ml' incs c' where r: "send_feedback ml (rt_increments t) (rt_controller t) (DataRead off len) =
      Done (ml', rt_increments t @ incs, c')"
    "bc_window_end c' = bc_window_end (rt_controller t) + sum_list incs"
    "settled ml' = settled ml - of_nat len + of_nat (sum_list incs)"
    "same_limits ml ml'" "bc_inv c'" "bc_next_read c' = off + len"
    "bc_request_end c' = bc_request_end (rt_controller t)" "window_open c'"
    by (rule send_feedback_data_read [OF assms(1,2)])
  show thesis
    by (rule that [of ml' "t\<lparr>rt_increments := rt_increments t @ incs, rt_controller := c'\<rparr>"])
      (use r assms(3,4) in \<open>auto simp: task_feedback_def task_balance_def window_open_def\<close>)
qed

lemma task_feedback_stall:
  assumes "bc_inv (rt_controller t)"
  obtains ml' t' where "task_feedback ml t PartQueueStall = Done (ml', t')"
    and "rt_queue t' = rt_queue t" "rt_remaining t' = rt_remaining t" "rt_range t' = rt_range t"
    and "bc_inv (rt_controller t')" "bc_request_end (rt_controller t') = bc_request_end (rt_controller t)"
    and "bc_next_read (rt_controller t') = bc_next_read (rt_controller t)"
    and "bc_window_end (rt_controller t') = bc_window_end (rt_controller t)"
    and "same_limits ml ml'" and "settled ml' = settled ml"
proof -
  obtain ml' c' where r: "send_feedback ml (rt_increments t) (rt_controller t) PartQueueStall = Done (ml', rt_increments t, c')"
    "bc_inv c'" and c': "c' = (rt_controller t)\<lparr>bc_preferred := bc_preferred c'\<rparr>"
    and m: "settled ml' = settled ml" "same_limits ml ml'"
    by (rule send_feedback_stall [OF assms])
  have "bc_request_end c' = bc_request_end (rt_controller t)" "bc_next_read c' = bc_next_read (rt_controller t)"
    "bc_window_end c' = bc_window_end (rt_controller t)"
    by (subst c', simp)+
  with r m show thesis
    by (intro that [of ml' "t\<lparr>rt_controller := c'\<rparr>"]) (simp_all add: task_feedback_def)
qed

lemma task_read_part:
  assumes inv: "task_inv E i obj t a" and lim: "mem_limit ml < - 1" and len: "0 < len"
    and items: "queue_items (rt_queue t) = Inr p0 # xs"
  obtains ml' t' p where "task_read ml t len = Done (ml', t', Inr p)" and "part_offset p = a"
    and "part_ok E i obj p" and "part_len p \<le> len" and "task_inv E i obj t' (a + part_len p)"
    and "same_limits ml ml'" and "task_balance ml' t' (a + part_len p) = task_balance ml t a"
    and "bc_next_read (rt_controller t') = a + part_len p" and "rt_range t' = rt_range t"
    and "\<And>e. task_reach t a e \<Longrightarrow> a < e \<Longrightarrow> task_reach t' (a + part_len p) e"
proof -
  from inv have live: "queue_live (rt_queue t)" and frm: "items_from E i obj a (queue_items (rt_queue t))"
    by (simp_all add: task_inv_def)
  obtain q' p where q: "part_queue_read (rt_queue t) len = Done (q', Inr p)" "queue_live q'"
    and p: "part_offset p = a" "part_ok E i obj p" "part_len p \<le> len"
    and frm': "items_from E i obj (a + part_len p) (queue_items q')"
    and reach: "\<And>e. items_reach a (queue_items (rt_queue t)) e \<Longrightarrow> a < e \<Longrightarrow> items_reach (a + part_len p) (queue_items q') e"
    by (rule queue_read_part [OF live frm items len]) blast
  have le: "a + part_len p \<le> length obj" using p by (simp add: part_ok_def)
  let ?t = "t\<lparr>rt_queue := q', rt_remaining := rt_remaining t - part_len p\<rparr>"
  have rem: "part_len p \<le> rt_remaining t" using inv le by (simp add: task_inv_def)
  obtain ml1 t1 where f1: "task_feedback ml ?t (DataRead (part_offset p) (part_len p)) = Done (ml1, t1)"
    and t1: "rt_queue t1 = q'" "rt_remaining t1 = rt_remaining t - part_len p" "rt_range t1 = rt_range t"
      "bc_inv (rt_controller t1)" "bc_request_end (rt_controller t1) = length obj"
      "bc_next_read (rt_controller t1) = a + part_len p" "a + part_len p \<le> bc_window_end (rt_controller t1)"
    and m1: "same_limits ml ml1" "\<And>x. task_balance ml1 t1 (x + part_len p) = task_balance ml ?t x"
    by (rule task_feedback_data_read [of ?t ml "length obj" "part_offset p" "part_len p"])
      (use inv lim le p(1) in \<open>auto simp: task_inv_def\<close>)
  obtain t2 av where av: "available_offset t1 = (t2, av)" by (cases "available_offset t1")
  then obtain q2 n where q2: "bytes_received q' = (q2, n)" "t2 = t1\<lparr>rt_queue := q2\<rparr>"
    by (auto simp: available_offset_def t1(1) split: prod.splits)
  note q2' = bytes_received_queue [OF q2(1) q(2)]
  have b: "task_balance ml1 t2 (a + part_len p) = task_balance ml t a"
    using m1(2) [of a] q2(2) by (simp add: task_balance_def)
  have i2: "task_inv E i obj t2 (a + part_len p)"
    using q2' q2(2) t1 frm' le inv rem by (simp add: task_inv_def)
  have r2: "task_reach t2 (a + part_len p) e" if "task_reach t a e" "a < e" for e
    using that reach q2' q2(2) by (simp add: task_reach_def)
  show thesis
  proof (cases "av - (part_offset p + part_len p) = 0")
    case False
    show thesis
      by (rule that [of ml1 t2 p, OF _ p i2 m1(1) b _ _ r2])
        (use False q f1 av rem q2(2) t1 in \<open>auto simp: task_read_def Let_def\<close>)
  next
    case True
    obtain ml3 t3 where t3: "task_feedback ml1 t2 PartQueueStall = Done (ml3, t3)"
      "rt_queue t3 = rt_queue t2" "rt_remaining t3 = rt_remaining t2" "rt_range t3 = rt_range t2"
      "bc_inv (rt_controller t3)" "bc_request_end (rt_controller t3) = bc_request_end (rt_controller t2)"
      "bc_next_read (rt_controller t3) = bc_next_read (rt_controller t2)"
      "bc_window_end (rt_controller t3) = bc_window_end (rt_controller t2)"
      "same_limits ml1 ml3" "settled ml3 = settled ml1"
      by (rule task_feedback_stall [of t2 ml1]) (use i2 in \<open>simp add: task_inv_def\<close>)
    show thesis
      by (rule that [of ml3 t3 p, OF _ p])
        (use True q f1 av rem q2(2) t1 t3 i2 b m1(1) r2 in
          \<open>auto simp: task_read_def Let_def task_inv_def task_balance_def task_reach_def intro: same_limits_trans\<close>)
  qed
qed

lemma task_read_not_part:
  assumes "task_inv E i obj t a" and "\<nexists>p xs. queue_items (rt_queue t) = Inr p # xs"
  shows "task_read ml t len = Pending \<or>
    (\<exists>t' e. task_read ml t len = Done (ml, t', Inl e) \<and> rt_controller t' = rt_controller t)"
  using queue_read_not_part [OF _ assms(2), of len] assms(1)
  by (auto simp: task_inv_def error_outcome_def task_read_def Let_def)

lemma task_reach_part:
  assumes "task_reach t a e" and "a < e"
  obtains p xs where "queue_items (rt_queue t) = Inr p # xs"
  using assms unfolding task_reach_def
  by (cases "(a, queue_items (rt_queue t), e)" rule: items_reach.cases) auto

lemma task_push_front_ok:
  assumes "task_inv E i obj t a" and "parts_cover E i obj b parts a"
  shows "\<exists>ml' t'. task_push_front ml t parts = Done (ml', t') \<and> task_inv E i obj t' b \<and> same_limits ml ml' \<and>
    task_balance ml' t' b = task_balance ml t a \<and> rt_controller t' = rt_controller t \<and> rt_range t' = rt_range t \<and>
    (\<forall>e. task_reach t a e \<longrightarrow> task_reach t' b e) \<and>
    queue_items (rt_queue t') = map Inr parts @ queue_items (rt_queue t)"
  using assms
proof (induction parts arbitrary: ml t a rule: rev_induct)
  case Nil
  then show ?case by (auto simp: task_push_front_def)
next
  case (snoc p ps)
  then have cov: "parts_cover E i obj b ps (part_offset p)" and ok: "part_ok E i obj p"
    and a: "a = part_offset p + part_len p"
    by (simp_all add: parts_cover_snoc)
  let ?ml = "mem_reserve ml (of_nat (part_len p))"
  let ?t = "t\<lparr>rt_remaining := rt_remaining t + part_len p,
    rt_queue := (rt_queue t)\<lparr>pq_front_queue := pq_front_queue (rt_queue t) @ [p]\<rparr>\<rparr>"
  have push: "task_push_front ml t (ps @ [p]) = task_push_front ?ml ?t ps"
    using snoc.prems(1) by (simp add: task_push_front_def part_queue_push_front_def task_inv_def queue_live_def)
  have inv: "task_inv E i obj ?t (part_offset p)"
    using snoc.prems(1) ok a by (auto simp: task_inv_def queue_live_def queue_items_def)
  from snoc.IH [OF inv cov, of ?ml] obtain ml' t' where
    r: "task_push_front ?ml ?t ps = Done (ml', t')" "task_inv E i obj t' b" "same_limits ?ml ml'"
    "task_balance ml' t' b = task_balance ?ml ?t (part_offset p)" "rt_controller t' = rt_controller t"
    "rt_range t' = rt_range t" "\<forall>e. task_reach ?t (part_offset p) e \<longrightarrow> task_reach t' b e"
    "queue_items (rt_queue t') = map Inr ps @ queue_items (rt_queue ?t)"
    by auto
  have "queue_items (rt_queue ?t) = Inr p # queue_items (rt_queue t)"
    by (simp add: queue_items_def)
  moreover have "task_balance ?ml ?t (part_offset p) = task_balance ml t a"
    by (simp add: task_balance_def a)
  moreover have "task_reach ?t (part_offset p) e" if "task_reach t a e" for e
    using that a by (auto simp: task_reach_def queue_items_def)
  ultimately show ?case
    using push r by (auto intro: same_limits_trans [OF mem_reserve_simps(2)])
qed

lemma task_drop_ok:
  assumes "task_inv E i obj t a"
  obtains ml' where "task_drop ml t = Done ml'" and "same_limits ml ml'"
    and "settled ml' = task_balance ml t (bc_next_read (rt_controller t))"
proof -
  let ?c = "rt_controller t"
  have "of_nat (bc_window_end ?c - bc_next_read ?c) = (of_nat (bc_window_end ?c) - of_nat (bc_next_read ?c) :: u64)"
    using assms by (simp add: task_inv_def of_nat_diff)
  with assms show thesis
    by (intro that [of "mem_release ml (of_nat (bc_window_end ?c - bc_next_read ?c))"])
      (simp_all add: task_drop_def controller_drop_def task_inv_def task_balance_def)
qed

lemma available_offset_ok:
  assumes "task_inv E i obj t a" and "available_offset t = (t', n)"
  shows "task_inv E i obj t' a" and "rt_controller t' = rt_controller t"
    and "queue_items (rt_queue t') = queue_items (rt_queue t)"
proof -
  obtain q m where q: "bytes_received (rt_queue t) = (q, m)" "t' = t\<lparr>rt_queue := q\<rparr>"
    using assms(2) by (auto simp: available_offset_def split: prod.splits)
  moreover have "queue_live (rt_queue t)" using assms(1) by (simp add: task_inv_def)
  note bytes_received_queue [OF q(1) this]
  ultimately show "task_inv E i obj t' a" "rt_controller t' = rt_controller t"
    "queue_items (rt_queue t') = queue_items (rt_queue t)"
    using assms(1) by (simp_all add: task_inv_def)
qed

text \<open>A read of a positive length that returns a part returns a non-empty one.\<close>

lemma part_queue_read_nonempty:
  "part_queue_read q len = Done (q', Inr p) \<Longrightarrow> 0 < len \<Longrightarrow> 0 < part_len p"
  by (auto simp: part_queue_read_def part_is_empty_def part_len_def cb_is_empty_iff
      dest!: part_split_off_len elim!: and_then_DoneE split: if_splits sum.splits)

lemma task_read_nonempty:
  assumes "task_read ml t len = Done (ml', t', Inr p)" and "0 < len"
  shows "0 < part_len p"
proof -
  obtain q' where "part_queue_read (rt_queue t) len = Done (q', Inr p)"
    using assms(1)
    by (auto simp: task_read_def Let_def elim!: and_then_DoneE split: sum.splits prod.splits if_splits)
  then show ?thesis using assms(2) by (rule part_queue_read_nonempty)
qed

end
