(* ===== verification/Prefetcher.thy ===== *)
theory Prefetcher
  imports Request_Task
begin

text \<open>
  The prefetcher of one file handle (\<open>PrefetchGetObject\<close> of \<open>mountpoint-s3-fs/src/prefetch.rs\<close>): it serves reads
  at arbitrary offsets from a single request that streams the object from the first offset, seeks within
  that stream when it can and restarts it when it cannot. The part stream (the trait \<open>ObjectPartStream\<close>) is
  the record \<open>ps\<close>; its contract is the locale \<open>object_part_stream\<close> below. The memory limiter is shared, so
  it is part of the state, as is the number of streams spawned so far, which selects what the
  environment does on the next one.
\<close>

section \<open>Configuration and state\<close>

record prefetcher_config =
  pf_max_read_window_size :: nat
  pf_sequential_prefetch_multiplier :: nat
  pf_max_forward_seek_wait_distance :: nat
  pf_max_backward_seek_distance :: nat
  pf_initial_request_size :: nat

definition initial_request_size_const :: nat where
  "initial_request_size_const = 1024 * 1024 + 128 * 1024"

definition prefetcher_config_default :: "nat option \<Rightarrow> prefetcher_config" where
  "prefetcher_config_default env_override =
     \<lparr>pf_max_read_window_size = (case env_override of Some v \<Rightarrow> v | None \<Rightarrow> 2 * 1024 * 1024 * 1024),
      pf_sequential_prefetch_multiplier = 2,
      pf_max_forward_seek_wait_distance = 16 * 1024 * 1024,
      pf_max_backward_seek_distance = 1 * 1024 * 1024,
      pf_initial_request_size = initial_request_size_const\<rparr>"

record request_task_config =
  rc_bucket :: string
  rc_object_id :: object_id
  rc_handle_id :: nat
  rc_range :: request_range
  rc_read_part_size :: nat
  rc_preferred_part_size :: nat
  rc_initial_request_size :: nat
  rc_max_read_window_size :: nat
  rc_read_window_size_multiplier :: nat

definition rc_initial_read_window_size :: "request_task_config \<Rightarrow> nat" where
  "rc_initial_read_window_size cfg =
     (if rc_initial_request_size cfg > 0 then rc_initial_request_size cfg else rc_read_part_size cfg)"

record part_stream =
  ps_spawn :: "nat \<Rightarrow> mem_limiter \<Rightarrow> request_task_config \<Rightarrow> (mem_limiter \<times> request_task) run"
  ps_read_part_size :: nat
  ps_initial_read_window_size :: "nat option"

record prefetch_get_object =
  pg_config :: prefetcher_config
  pg_task :: "request_task option"
  pg_window :: seek_window
  pg_bucket :: string
  pg_object_id :: object_id
  pg_preferred_part_size :: nat
  pg_seq_start :: nat
  pg_next_seq :: nat
  pg_next_request :: nat
  pg_size :: nat
  pg_mem :: mem_limiter
  pg_handle_id :: nat
  pg_spawned :: nat

definition seek_window_reservation :: "nat \<Rightarrow> nat \<Rightarrow> nat run" where
  "seek_window_reservation part_size seek_window_size =
     and_then (assert_that (part_size \<noteq> 0)) (\<lambda>_.
       Done ((seek_window_size + part_size - 1) div part_size * part_size))"

definition pg_new ::
  "part_stream \<Rightarrow> prefetcher_config \<Rightarrow> string \<Rightarrow> object_id \<Rightarrow> nat \<Rightarrow> nat \<Rightarrow> mem_limiter \<Rightarrow> prefetch_get_object run" where
  "pg_new ps config bucket oid handle_id sz ml =
     and_then (seek_window_reservation (ps_read_part_size ps) (pf_max_backward_seek_distance config)) (\<lambda>r.
     and_then (seek_window_new (pf_max_backward_seek_distance config)) (\<lambda>w.
       Done \<lparr>pg_config = config, pg_task = None, pg_window = w, pg_bucket = bucket, pg_object_id = oid,
             pg_preferred_part_size = 128 * 1024, pg_seq_start = 0, pg_next_seq = 0, pg_next_request = 0,
             pg_size = sz, pg_mem = mem_reserve ml (of_nat r), pg_handle_id = handle_id, pg_spawned = 0\<rparr>))"

section \<open>Seeking\<close>

text \<open>Assigning \<open>None\<close> to the task drops the previous one.\<close>

definition reset_prefetch_to_offset :: "prefetch_get_object \<Rightarrow> nat \<Rightarrow> prefetch_get_object run" where
  "reset_prefetch_to_offset pg offset =
     and_then (case pg_task pg of None \<Rightarrow> Done (pg_mem pg) | Some t \<Rightarrow> task_drop (pg_mem pg) t) (\<lambda>ml.
       Done (pg\<lparr>pg_mem := ml, pg_task := None, pg_window := seek_window_clear (pg_window pg),
                pg_seq_start := offset, pg_next_seq := offset, pg_next_request := offset\<rparr>))"

function seek_loop ::
  "prefetch_get_object \<Rightarrow> request_task \<Rightarrow> nat \<Rightarrow> (prefetch_get_object \<times> (prefetch_read_error + bool)) run" where
  "seek_loop pg t seek_distance =
     (if 0 < seek_distance then
        and_then (task_read (pg_mem pg) t seek_distance) (\<lambda>(ml, t, x).
          let pg = pg\<lparr>pg_mem := ml, pg_task := Some t\<rparr> in
          case x of
            Inl e \<Rightarrow> Done (pg, Inl e)
          | Inr part \<Rightarrow>
              and_then (checked_sub seek_distance (part_len part)) (\<lambda>seek_distance.
              and_then (seek_window_push (pg_window pg) part) (\<lambda>w.
                seek_loop (pg\<lparr>pg_next_seq := pg_next_seq pg + part_len part, pg_window := w\<rparr>) t seek_distance)))
      else Done (pg, Inr True))"
  by pat_completeness auto
termination
  by (relation "measure (\<lambda>(pg, t, d). d)") (auto simp: checked_sub_Done_iff dest: task_read_nonempty)

declare seek_loop.simps [simp del]

definition try_seek_forward ::
  "prefetch_get_object \<Rightarrow> nat \<Rightarrow> (prefetch_get_object \<times> (prefetch_read_error + bool)) run" where
  "try_seek_forward pg offset =
     and_then (assert_that (offset > pg_next_seq pg)) (\<lambda>_.
     case pg_task pg of
       None \<Rightarrow> Done (pg, Inr False)
     | Some t \<Rightarrow>
         if offset \<ge> read_window_end_offset t then Done (pg, Inr False)
         else let (t, available) = available_offset t;
                  pg = pg\<lparr>pg_task := Some t\<rparr>;
                  available_soon_offset = sat_add available (pf_max_forward_seek_wait_distance (pg_config pg))
              in if offset \<ge> available_soon_offset then Done (pg, Inr False)
                 else and_then (checked_sub offset (pg_next_seq pg)) (\<lambda>seek_distance.
                        seek_loop pg t seek_distance))"

definition try_seek_backward ::
  "prefetch_get_object \<Rightarrow> nat \<Rightarrow> (prefetch_get_object \<times> (prefetch_read_error + bool)) run" where
  "try_seek_backward pg offset =
     and_then (assert_that (offset < pg_next_seq pg)) (\<lambda>_.
     case pg_task pg of
       None \<Rightarrow> Done (pg, Inr False)
     | Some t \<Rightarrow>
         and_then (checked_sub (pg_next_seq pg) offset) (\<lambda>backwards_length_needed.
         and_then (read_back (pg_window pg) backwards_length_needed) (\<lambda>(w, r).
           let pg = pg\<lparr>pg_window := w\<rparr> in
           case r of
             None \<Rightarrow> Done (pg, Inr False)
           | Some parts \<Rightarrow>
               and_then (task_push_front (pg_mem pg) t parts) (\<lambda>(ml, t).
                 Done (pg\<lparr>pg_mem := ml, pg_task := Some t, pg_next_seq := offset\<rparr>, Inr True)))))"

definition try_seek ::
  "prefetch_get_object \<Rightarrow> nat \<Rightarrow> (prefetch_get_object \<times> (prefetch_read_error + bool)) run" where
  "try_seek pg offset =
     and_then (assert_that (offset \<noteq> pg_next_seq pg)) (\<lambda>_.
       if offset > pg_next_seq pg then try_seek_forward pg offset else try_seek_backward pg offset)"

section \<open>Reading\<close>

definition spawn_config :: "part_stream \<Rightarrow> prefetch_get_object \<Rightarrow> request_task_config" where
  "spawn_config ps pg =
     \<lparr>rc_bucket = pg_bucket pg, rc_object_id = pg_object_id pg, rc_handle_id = pg_handle_id pg,
      rc_range = rr_new (pg_size pg) (pg_next_seq pg) (pg_size pg),
      rc_read_part_size = ps_read_part_size ps,
      rc_preferred_part_size = pg_preferred_part_size pg,
      rc_initial_request_size = pf_initial_request_size (pg_config pg),
      rc_max_read_window_size = pf_max_read_window_size (pg_config pg),
      rc_read_window_size_multiplier = pf_sequential_prefetch_multiplier (pg_config pg)\<rparr>"

definition spawn_read_backpressure_request ::
  "part_stream \<Rightarrow> prefetch_get_object \<Rightarrow> (prefetch_get_object \<times> (prefetch_read_error + request_task)) run" where
  "spawn_read_backpressure_request ps pg =
     (case ps_initial_read_window_size ps of
        None \<Rightarrow> Done (pg, Inl BackpressurePreconditionFailed)
      | Some v \<Rightarrow>
          if v = 0 then Done (pg, Inl BackpressurePreconditionFailed)
          else and_then (ps_spawn ps (pg_spawned pg) (pg_mem pg) (spawn_config ps pg)) (\<lambda>(ml, t).
                 Done (pg\<lparr>pg_mem := ml, pg_spawned := pg_spawned pg + 1\<rparr>, Inr t)))"

function read_loop ::
  "crc_env \<Rightarrow> prefetch_get_object \<Rightarrow> nat \<Rightarrow> checksummed_bytes \<Rightarrow> bool \<Rightarrow>
     (prefetch_get_object \<times> (prefetch_read_error + (checksummed_bytes \<times> bool))) run" where
  "read_loop E pg to_read response all_parts_from_cache =
     (if 0 < to_read then
        case pg_task pg of
          None \<Rightarrow> Done (pg, Inr (response, all_parts_from_cache))
        | Some t \<Rightarrow>
            and_then (assert_that (0 < rt_remaining t)) (\<lambda>_.
            and_then (task_read (pg_mem pg) t to_read) (\<lambda>(ml, t, x).
              let pg = pg\<lparr>pg_mem := ml, pg_task := Some t\<rparr> in
              case x of
                Inl e \<Rightarrow> Done (pg, Inl e)
              | Inr part \<Rightarrow>
                  let all_parts_from_cache = (all_parts_from_cache \<and> is_from_cache part) in
                  and_then (seek_window_push (pg_window pg) part) (\<lambda>w.
                  let pg = pg\<lparr>pg_window := w\<rparr> in
                  case part_into_bytes part (pg_object_id pg) (pg_next_seq pg) of
                    Inl e \<Rightarrow> Done (pg, Inl (PartReadFailed e))
                  | Inr bs \<Rightarrow>
                      let pg = pg\<lparr>pg_next_seq := pg_next_seq pg + cb_len bs\<rparr> in
                      if cb_is_empty response \<and> cb_len bs = to_read then
                        Done (pg, Inr (bs, all_parts_from_cache))
                      else and_then (cb_extend E response bs) (\<lambda>(response, r). case r of
                             Inl e \<Rightarrow> Done (pg, Inl (ReadIntegrity e))
                           | Inr _ \<Rightarrow> and_then (checked_sub to_read (part_len part)) (\<lambda>to_read.
                               read_loop E pg to_read response all_parts_from_cache)))))
      else Done (pg, Inr (response, all_parts_from_cache)))"
  by pat_completeness auto
termination
  by (relation "measure (\<lambda>(E, pg, n, r, b). n)") (auto simp: checked_sub_Done_iff dest: task_read_nonempty)

declare read_loop.simps [simp del]

definition record_contiguous_read_metric :: "prefetch_get_object \<Rightarrow> nat run" where
  "record_contiguous_read_metric pg = checked_sub (pg_next_seq pg) (pg_seq_start pg)"

text \<open>The seek that precedes the loop of \<open>try_read\<close>, and the start of a request if there is none.\<close>

definition position_at ::
  "prefetch_get_object \<Rightarrow> nat \<Rightarrow> (prefetch_get_object \<times> (prefetch_read_error + unit)) run" where
  "position_at pg offset =
     (if pg_next_seq pg \<noteq> offset then
        and_then (try_seek pg offset) (\<lambda>(pg, r). case r of
          Inl e \<Rightarrow> Done (pg, Inl e)
        | Inr ok \<Rightarrow>
            if ok then Done (pg, Inr ())
            else and_then (record_contiguous_read_metric pg) (\<lambda>_.
                   and_then (reset_prefetch_to_offset pg offset) (\<lambda>pg. Done (pg, Inr ()))))
      else Done (pg, Inr ()))"

definition ensure_task ::
  "part_stream \<Rightarrow> prefetch_get_object \<Rightarrow> (prefetch_get_object \<times> (prefetch_read_error + unit)) run" where
  "ensure_task ps pg = (case pg_task pg of
     Some _ \<Rightarrow> Done (pg, Inr ())
   | None \<Rightarrow> and_then (spawn_read_backpressure_request ps pg) (\<lambda>(pg, r). case r of
       Inl e \<Rightarrow> Done (pg, Inl e)
     | Inr t \<Rightarrow> Done (pg\<lparr>pg_task := Some t\<rparr>, Inr ())))"

definition max_preferred_part_size :: nat where
  "max_preferred_part_size = 1024 * 1024"

definition try_read ::
  "crc_env \<Rightarrow> part_stream \<Rightarrow> prefetch_get_object \<Rightarrow> nat \<Rightarrow> nat \<Rightarrow>
     (prefetch_get_object \<times> (prefetch_read_error + (checksummed_bytes \<times> bool))) run" where
  "try_read E ps pg offset len =
     (let pg = pg\<lparr>pg_preferred_part_size := min (max (pg_preferred_part_size pg) len) max_preferred_part_size\<rparr>;
          remaining = pg_size pg - offset
      in if remaining = 0 then Done (pg, Inr (cb_default, False))
         else let to_read = min len remaining in
           and_then (position_at pg offset) (\<lambda>(pg, r). case r of
             Inl e \<Rightarrow> Done (pg, Inl e)
           | Inr _ \<Rightarrow> and_then (assert_that (pg_next_seq pg = offset)) (\<lambda>_.
               and_then (ensure_task ps pg) (\<lambda>(pg, r). case r of
                 Inl e \<Rightarrow> Done (pg, Inl e)
               | Inr _ \<Rightarrow> read_loop E pg to_read cb_default True))))"

definition pg_read ::
  "crc_env \<Rightarrow> part_stream \<Rightarrow> prefetch_get_object \<Rightarrow> nat \<Rightarrow> nat \<Rightarrow>
     (prefetch_get_object \<times> (prefetch_read_error + checksummed_bytes)) run" where
  "pg_read E ps pg offset len =
     and_then (try_read E ps pg offset len) (\<lambda>(pg, r). case r of
       Inr (data, cache_hit) \<Rightarrow> Done (pg, Inr data)
     | Inl e \<Rightarrow> and_then (reset_prefetch_to_offset pg offset) (\<lambda>pg. Done (pg, Inl e)))"

text \<open>Dropping the handle: the explicit \<open>Drop\<close>, then its fields, the task among them.\<close>

definition pg_drop :: "part_stream \<Rightarrow> prefetch_get_object \<Rightarrow> mem_limiter run" where
  "pg_drop ps pg =
     and_then (seek_window_reservation (ps_read_part_size ps) (sw_max_size (pg_window pg))) (\<lambda>r.
     let ml = mem_release (pg_mem pg) (of_nat r) in
     and_then (record_contiguous_read_metric pg) (\<lambda>_.
       case pg_task pg of None \<Rightarrow> Done ml | Some t \<Rightarrow> task_drop ml t))"

text \<open>The life of a handle as its owner drives it: a sequence of reads, each with its outcome.\<close>

fun pg_reads ::
  "crc_env \<Rightarrow> part_stream \<Rightarrow> prefetch_get_object \<Rightarrow> (nat \<times> nat) list \<Rightarrow>
     (prefetch_get_object \<times> (prefetch_read_error + checksummed_bytes) list) run" where
  "pg_reads E ps pg [] = Done (pg, [])"
| "pg_reads E ps pg ((offset, len) # reqs) =
     and_then (pg_read E ps pg offset len) (\<lambda>(pg, r).
     and_then (pg_reads E ps pg reqs) (\<lambda>(pg, rs). Done (pg, r # rs)))"

definition pg_session ::
  "crc_env \<Rightarrow> part_stream \<Rightarrow> prefetcher_config \<Rightarrow> string \<Rightarrow> object_id \<Rightarrow> nat \<Rightarrow> nat \<Rightarrow> mem_limiter \<Rightarrow> (nat \<times> nat) list \<Rightarrow>
     (mem_limiter \<times> (prefetch_read_error + checksummed_bytes) list) run" where
  "pg_session E ps config bucket oid handle_id sz ml reqs =
     and_then (pg_new ps config bucket oid handle_id sz ml) (\<lambda>pg.
     and_then (pg_reads E ps pg reqs) (\<lambda>(pg, rs).
     and_then (pg_drop ps pg) (\<lambda>ml. Done (ml, rs))))"

section \<open>Contract of a part stream\<close>

text \<open>
  What the prefetcher relies on: a spawned request starts at the requested offset, only ever delivers
  consecutive intact parts of the object (then possibly an error), and its flow control is set up with
  usable bounds and has reserved exactly its initial window. A reliable stream also gets to the end.
\<close>

definition task_config_ok :: "object_id \<Rightarrow> bytes \<Rightarrow> part_stream \<Rightarrow> request_task_config \<Rightarrow> bool" where
  "task_config_ok i obj ps cfg \<longleftrightarrow> rc_object_id cfg = i \<and>
     rc_range cfg = rr_new (length obj) (rr_offset (rc_range cfg)) (length obj) \<and>
     rr_offset (rc_range cfg) < length obj \<and> length obj \<le> u64_max \<and> 0 < rc_preferred_part_size cfg \<and>
     rc_read_part_size cfg = ps_read_part_size ps \<and>
     2 \<le> rc_initial_read_window_size cfg \<and> 2 \<le> rc_max_read_window_size cfg"

locale object_part_stream =
  fixes E :: crc_env and i :: object_id and obj :: bytes and ps :: part_stream
  assumes crc: "crc_laws E"
    and part_size: "2 \<le> ps_read_part_size ps"
    and backpressure: "\<exists>v. ps_initial_read_window_size ps = Some v \<and> v \<noteq> 0"
    and spawn_ok: "task_config_ok i obj ps cfg \<Longrightarrow> mem_limit ml < - 1 \<Longrightarrow> \<exists>ml' t.
      ps_spawn ps n ml cfg = Done (ml', t) \<and> task_inv E i obj t (rr_offset (rc_range cfg)) \<and>
      bc_next_read (rt_controller t) = rr_offset (rc_range cfg) \<and> same_limits ml ml' \<and>
      task_balance ml' t (rr_offset (rc_range cfg)) = settled ml"

locale reliable_part_stream = object_part_stream +
  fixes bucket :: string
  assumes spawn_reach: "task_config_ok i obj ps cfg \<Longrightarrow> rc_bucket cfg = bucket \<Longrightarrow> mem_limit ml < - 1 \<Longrightarrow>
      ps_spawn ps n ml cfg = Done (ml', t) \<Longrightarrow> task_reach t (rr_offset (rc_range cfg)) (length obj)"

section \<open>Invariant of the prefetcher\<close>

definition pg_config_ok :: "prefetcher_config \<Rightarrow> bool" where
  "pg_config_ok c \<longleftrightarrow> 2 \<le> pf_max_read_window_size c \<and> pf_initial_request_size c \<noteq> 1"

definition pg_static :: "object_id \<Rightarrow> bytes \<Rightarrow> prefetch_get_object \<Rightarrow> bool" where
  "pg_static i obj pg \<longleftrightarrow> pg_object_id pg = i \<and> pg_size pg = length obj \<and> length obj \<le> u64_max \<and>
     mem_limit (pg_mem pg) < - 1 \<and> 0 < pg_preferred_part_size pg \<and> pg_config_ok (pg_config pg)"

definition pg_inv :: "crc_env \<Rightarrow> object_id \<Rightarrow> bytes \<Rightarrow> prefetch_get_object \<Rightarrow> bool" where
  "pg_inv E i obj pg \<longleftrightarrow> pg_static i obj pg \<and> sw_inv E i obj (pg_window pg) (pg_next_seq pg) \<and>
     pg_seq_start pg + sw_current_size (pg_window pg) \<le> pg_next_seq pg \<and>
     (case pg_task pg of None \<Rightarrow> True | Some t \<Rightarrow> task_inv E i obj t (pg_next_seq pg))"

text \<open>Memory: the counter without what the handle's task holds; a handle is synced when its controller knows
  the position of the reader, which every read of at least one byte establishes.\<close>

definition pg_balance :: "prefetch_get_object \<Rightarrow> u64" where
  "pg_balance pg = (case pg_task pg of
     None \<Rightarrow> settled (pg_mem pg) | Some t \<Rightarrow> task_balance (pg_mem pg) t (pg_next_seq pg))"

definition pg_synced :: "prefetch_get_object \<Rightarrow> bool" where
  "pg_synced pg \<longleftrightarrow> (case pg_task pg of
     None \<Rightarrow> True | Some t \<Rightarrow> bc_next_read (rt_controller t) = pg_next_seq pg)"

definition pg_has_part :: "prefetch_get_object \<Rightarrow> bool" where
  "pg_has_part pg \<longleftrightarrow> (case pg_task pg of
     None \<Rightarrow> False | Some t \<Rightarrow> (\<exists>p xs. queue_items (rt_queue t) = Inr p # xs))"

definition pg_reach :: "bytes \<Rightarrow> prefetch_get_object \<Rightarrow> bool" where
  "pg_reach obj pg \<longleftrightarrow> (case pg_task pg of
     None \<Rightarrow> True | Some t \<Rightarrow> task_reach t (pg_next_seq pg) (length obj))"

text \<open>After an error only a reset follows; \<open>pg_abandoned b\<close>: the reset will bring the counter to \<open>b\<close>.\<close>

definition pg_abandoned :: "object_id \<Rightarrow> bytes \<Rightarrow> u64 \<Rightarrow> prefetch_get_object \<Rightarrow> bool" where
  "pg_abandoned i obj b pg \<longleftrightarrow> pg_static i obj pg \<and> (case pg_task pg of
     None \<Rightarrow> settled (pg_mem pg) = b
   | Some t \<Rightarrow> bc_next_read (rt_controller t) \<le> bc_request_end (rt_controller t) \<and>
       bc_next_read (rt_controller t) \<le> bc_window_end (rt_controller t) \<and>
       task_balance (pg_mem pg) t (bc_next_read (rt_controller t)) = b)"

lemma sw_inv_clear: "sw_inv E i obj (seek_window_clear w) n"
  by (simp add: sw_inv_def seek_window_clear_def)

lemma reset_ok:
  assumes "pg_abandoned i obj b pg"
  obtains pg' where "reset_prefetch_to_offset pg off = Done pg'" and "pg_inv E i obj pg'"
    and "pg_task pg' = None" and "pg_next_seq pg' = off" and "pg_balance pg' = b"
proof -
  obtain ml where ml: "(case pg_task pg of None \<Rightarrow> Done (pg_mem pg) | Some t \<Rightarrow> task_drop (pg_mem pg) t) = Done ml"
    "same_limits (pg_mem pg) ml" "settled ml = b"
  proof (cases "pg_task pg")
    case None
    then show thesis using assms that [of "pg_mem pg"] by (simp add: pg_abandoned_def)
  next
    case (Some t)
    let ?c = "rt_controller t"
    have "of_nat (bc_window_end ?c - bc_next_read ?c) = (of_nat (bc_window_end ?c) - of_nat (bc_next_read ?c) :: u64)"
      using assms Some by (simp add: pg_abandoned_def of_nat_diff)
    then show thesis
      using assms Some that [of "mem_release (pg_mem pg) (of_nat (bc_window_end ?c - bc_next_read ?c))"]
      by (auto simp: pg_abandoned_def task_drop_def controller_drop_def task_balance_def)
  qed
  let ?pg = "pg\<lparr>pg_mem := ml, pg_task := None, pg_window := seek_window_clear (pg_window pg),
                pg_seq_start := off, pg_next_seq := off, pg_next_request := off\<rparr>"
  have "pg_static i obj ?pg"
    using assms ml(2) by (simp add: pg_abandoned_def pg_static_def same_limits_def)
  then have "pg_inv E i obj ?pg"
    by (simp add: pg_inv_def sw_inv_clear) (simp add: seek_window_clear_def)
  with ml show thesis
    by (intro that [of ?pg]) (simp_all add: reset_prefetch_to_offset_def pg_balance_def)
qed

lemma abandon_ok:
  assumes "pg_inv E i obj pg"
  shows "\<exists>b. pg_abandoned i obj b pg \<and> (pg_synced pg \<longrightarrow> b = pg_balance pg)"
  using assms
  by (cases "pg_task pg") (auto simp: pg_inv_def pg_abandoned_def pg_synced_def pg_balance_def task_inv_def)

text \<open>One read of the task, with the bookkeeping that both loops do on the part.\<close>

lemma pg_step:
  assumes inv: "pg_inv E i obj pg" and t: "pg_task pg = Some t" and len: "0 < len"
  obtains (part) ml' t' p w where "task_read (pg_mem pg) t len = Done (ml', t', Inr p)"
      and "part_offset p = pg_next_seq pg" and "part_ok E i obj p" and "part_len p \<le> len"
      and "seek_window_push (pg_window pg) p = Done w"
      and "pg_inv E i obj (pg\<lparr>pg_mem := ml', pg_task := Some t', pg_next_seq := pg_next_seq pg + part_len p, pg_window := w\<rparr>)"
      and "pg_balance (pg\<lparr>pg_mem := ml', pg_task := Some t', pg_next_seq := pg_next_seq pg + part_len p, pg_window := w\<rparr>) = pg_balance pg"
      and "pg_synced (pg\<lparr>pg_mem := ml', pg_task := Some t', pg_next_seq := pg_next_seq pg + part_len p, pg_window := w\<rparr>)"
      and "pg_reach obj pg \<longrightarrow> pg_next_seq pg < length obj \<longrightarrow>
        pg_reach obj (pg\<lparr>pg_mem := ml', pg_task := Some t', pg_next_seq := pg_next_seq pg + part_len p, pg_window := w\<rparr>)"
  | (stop) "task_read (pg_mem pg) t len = Pending \<or> (\<exists>t' e. task_read (pg_mem pg) t len = Done (pg_mem pg, t', Inl e) \<and>
        (\<exists>b. pg_abandoned i obj b (pg\<lparr>pg_task := Some t'\<rparr>) \<and> (pg_synced pg \<longrightarrow> b = pg_balance pg)))"
      and "\<not> pg_has_part pg" and "\<not> (pg_reach obj pg \<and> pg_next_seq pg < length obj)"
proof (cases "pg_has_part pg")
  case True
  then obtain p0 xs where items: "queue_items (rt_queue t) = Inr p0 # xs"
    using t by (auto simp: pg_has_part_def)
  have tinv: "task_inv E i obj t (pg_next_seq pg)" and lim: "mem_limit (pg_mem pg) < - 1"
    and sw: "sw_inv E i obj (pg_window pg) (pg_next_seq pg)"
    using inv t by (simp_all add: pg_inv_def pg_static_def)
  obtain ml' t' p where r: "task_read (pg_mem pg) t len = Done (ml', t', Inr p)" "part_offset p = pg_next_seq pg"
    "part_ok E i obj p" "part_len p \<le> len" "task_inv E i obj t' (pg_next_seq pg + part_len p)"
    "same_limits (pg_mem pg) ml'" "task_balance ml' t' (pg_next_seq pg + part_len p) = task_balance (pg_mem pg) t (pg_next_seq pg)"
    "bc_next_read (rt_controller t') = pg_next_seq pg + part_len p" "rt_range t' = rt_range t"
    "\<And>e. task_reach t (pg_next_seq pg) e \<Longrightarrow> pg_next_seq pg < e \<Longrightarrow> task_reach t' (pg_next_seq pg + part_len p) e"
    by (rule task_read_part [OF tinv lim len items]) blast
  obtain w where w: "seek_window_push (pg_window pg) p = Done w" "sw_inv E i obj w (pg_next_seq pg + part_len p)"
    "sw_max_size w = sw_max_size (pg_window pg)"
    by (rule seek_window_push_ok [OF sw r(3,2)])
  have sz: "sw_current_size w \<le> sw_current_size (pg_window pg) + part_len p"
    using seek_window_push_size [OF w(1)] .
  show thesis
    by (rule part [OF r(1-4) w(1)])
      (use inv t r w sz in \<open>auto simp: pg_inv_def pg_static_def same_limits_def pg_balance_def pg_synced_def pg_reach_def\<close>)
next
  case False
  then have none: "\<nexists>p xs. queue_items (rt_queue t) = Inr p # xs"
    using t by (simp add: pg_has_part_def)
  have tinv: "task_inv E i obj t (pg_next_seq pg)" using inv t by (simp add: pg_inv_def)
  have nr: "\<not> (pg_reach obj pg \<and> pg_next_seq pg < length obj)"
    using none t task_reach_part by (metis option.simps(5) pg_reach_def)
  obtain b where b: "pg_abandoned i obj b pg" "pg_synced pg \<longrightarrow> b = pg_balance pg"
    using abandon_ok [OF inv] by blast
  have "pg_abandoned i obj b (pg\<lparr>pg_task := Some t'\<rparr>)" if "rt_controller t' = rt_controller t" for t'
    using b(1) t that by (simp add: pg_abandoned_def pg_static_def task_balance_def)
  then show thesis
    using stop task_read_not_part [OF tinv none, of "pg_mem pg" len] False nr b(2) by blast
qed

section \<open>Behaviour of the operations\<close>

definition pg_ready :: "prefetch_get_object \<Rightarrow> bool" where
  "pg_ready pg \<longleftrightarrow> pg_synced pg \<or> pg_has_part pg"

text \<open>\<open>pg_moved\<close>: a successful operation; \<open>pg_gave_up\<close>: an error or a wait, after which a reset is in order.\<close>

definition pg_moved :: "crc_env \<Rightarrow> object_id \<Rightarrow> bytes \<Rightarrow> prefetch_get_object \<Rightarrow> prefetch_get_object \<Rightarrow> bool" where
  "pg_moved E i obj pg pg' \<longleftrightarrow> pg_inv E i obj pg' \<and> pg_balance pg' = pg_balance pg \<and>
     (pg_reach obj pg \<longrightarrow> pg_reach obj pg')"

definition pg_gave_up ::
  "object_id \<Rightarrow> bytes \<Rightarrow> prefetch_get_object \<Rightarrow> (prefetch_get_object \<times> (prefetch_read_error + 'a)) run \<Rightarrow> bool" where
  "pg_gave_up i obj pg r \<longleftrightarrow> r = Pending \<or> (\<exists>pg' e b. r = Done (pg', Inl e) \<and> pg_abandoned i obj b pg' \<and>
     (pg_ready pg \<longrightarrow> b = pg_balance pg))"

lemma seek_loop_ok:
  assumes "pg_inv E i obj pg" and "pg_task pg = Some t" and "pg_next_seq pg + d \<le> length obj"
  shows "(\<exists>pg'. seek_loop pg t d = Done (pg', Inr True) \<and> pg_moved E i obj pg pg' \<and>
      pg_next_seq pg' = pg_next_seq pg + d \<and> (pg_synced pg \<or> 0 < d \<longrightarrow> pg_synced pg') \<and> pg_task pg' \<noteq> None) \<or>
    (\<not> pg_reach obj pg \<and> pg_gave_up i obj pg (seek_loop pg t d))"
  using assms
proof (induction d arbitrary: pg t rule: less_induct)
  case (less d)
  show ?case
  proof (cases "d = 0")
    case True
    then show ?thesis using less.prems by (subst seek_loop.simps) (simp add: pg_moved_def)
  next
    case False
    then have d: "0 < d" by simp
    show ?thesis
    proof (rule pg_step [OF less.prems(1,2) d])
      fix ml' t' p w
      let ?pg = "pg\<lparr>pg_mem := ml', pg_task := Some t', pg_next_seq := pg_next_seq pg + part_len p, pg_window := w\<rparr>"
      assume r: "task_read (pg_mem pg) t d = Done (ml', t', Inr p)" "part_ok E i obj p" "part_len p \<le> d"
        "seek_window_push (pg_window pg) p = Done w" "pg_inv E i obj ?pg" "pg_balance ?pg = pg_balance pg" "pg_synced ?pg"
        "pg_reach obj pg \<longrightarrow> pg_next_seq pg < length obj \<longrightarrow> pg_reach obj ?pg"
      have lt: "d - part_len p < d" using d r(2) by (simp add: part_ok_def)
      have step: "seek_loop pg t d = seek_loop ?pg t' (d - part_len p)"
        using d r(1,3,4) by (subst seek_loop.simps) simp
      have "pg_ready ?pg" using r(7) by (simp add: pg_ready_def)
      moreover have "pg_reach obj pg \<longrightarrow> pg_reach obj ?pg" using r(8) less.prems(3) d by simp
      moreover have "pg_next_seq ?pg + (d - part_len p) = pg_next_seq pg + d" using r(3) by simp
      ultimately show ?thesis
        using less.IH [OF lt r(5), of t'] less.prems(3) r(6,7)
        unfolding step by (auto simp: pg_moved_def pg_gave_up_def)
    next
      assume "task_read (pg_mem pg) t d = Pending \<or> (\<exists>t' e. task_read (pg_mem pg) t d = Done (pg_mem pg, t', Inl e) \<and>
        (\<exists>b. pg_abandoned i obj b (pg\<lparr>pg_task := Some t'\<rparr>) \<and> (pg_synced pg \<longrightarrow> b = pg_balance pg)))"
        and "\<not> pg_has_part pg" and "\<not> (pg_reach obj pg \<and> pg_next_seq pg < length obj)"
      then show ?thesis
        using d less.prems(3) by (subst (1 2) seek_loop.simps) (auto simp: pg_gave_up_def pg_ready_def)
    qed
  qed
qed

lemma try_seek_forward_ok:
  assumes inv: "pg_inv E i obj pg" and off: "pg_next_seq pg < offset" "offset \<le> length obj"
  shows "(\<exists>pg' ok. try_seek_forward pg offset = Done (pg', Inr ok) \<and> pg_moved E i obj pg pg' \<and>
      (ok \<longrightarrow> pg_next_seq pg' = offset) \<and> (pg_synced pg \<longrightarrow> pg_synced pg')) \<or>
    (\<not> pg_reach obj pg \<and> pg_gave_up i obj pg (try_seek_forward pg offset))"
proof (cases "pg_task pg")
  case None
  then show ?thesis using assms by (auto simp: try_seek_forward_def pg_moved_def)
next
  case (Some t)
  obtain t' n where av: "available_offset t = (t', n)" by (cases "available_offset t")
  have tinv: "task_inv E i obj t (pg_next_seq pg)" using inv Some by (simp add: pg_inv_def)
  note a = available_offset_ok [OF tinv av]
  let ?pg = "pg\<lparr>pg_task := Some t'\<rparr>"
  have inv': "pg_inv E i obj ?pg"
    using inv a(1) by (simp add: pg_inv_def pg_static_def)
  have same: "pg_balance ?pg = pg_balance pg" "pg_synced ?pg = pg_synced pg" "pg_reach obj ?pg = pg_reach obj pg"
    "pg_has_part ?pg = pg_has_part pg"
    using Some a by (simp_all add: pg_balance_def task_balance_def pg_synced_def pg_reach_def task_reach_def pg_has_part_def)
  then have m: "pg_moved E i obj pg ?pg" using inv' by (simp add: pg_moved_def)
  show ?thesis
  proof (cases "offset \<ge> read_window_end_offset t \<or> offset \<ge> sat_add n (pf_max_forward_seek_wait_distance (pg_config pg))")
    case True
    then show ?thesis
      using off(1) Some av inv m same(2)
      by (cases "offset \<ge> read_window_end_offset t") (auto simp: try_seek_forward_def Let_def pg_moved_def)
  next
    case False
    then have e: "try_seek_forward pg offset = seek_loop ?pg t' (offset - pg_next_seq pg)"
      using off(1) Some av by (simp add: try_seek_forward_def Let_def)
    have "pg_next_seq ?pg + (offset - pg_next_seq pg) \<le> length obj" using off by simp
    from seek_loop_ok [OF inv' _ this, of t'] show ?thesis
      unfolding e using off same by (auto simp: pg_moved_def pg_gave_up_def pg_ready_def)
  qed
qed

lemma try_seek_backward_ok:
  assumes inv: "pg_inv E i obj pg" and off: "offset < pg_next_seq pg"
  shows "\<exists>pg' ok. try_seek_backward pg offset = Done (pg', Inr ok) \<and> pg_moved E i obj pg pg' \<and>
    (ok \<longrightarrow> pg_next_seq pg' = offset \<and> pg_has_part pg') \<and> (\<not> ok \<longrightarrow> pg_synced pg \<longrightarrow> pg_synced pg')"
proof (cases "pg_task pg")
  case None
  then show ?thesis using assms by (auto simp: try_seek_backward_def pg_moved_def)
next
  case (Some t)
  let ?need = "pg_next_seq pg - offset"
  have sw: "sw_inv E i obj (pg_window pg) (pg_next_seq pg)" using inv by (simp add: pg_inv_def)
  show ?thesis
  proof (cases "?need > sw_current_size (pg_window pg)")
    case True
    then show ?thesis
      using inv Some off by (auto simp: try_seek_backward_def read_back_def pg_moved_def)
  next
    case False
    then have le: "?need \<le> sw_current_size (pg_window pg)" by simp
    have o: "pg_next_seq pg - ?need = offset" using off by simp
    from le obtain w parts where w: "read_back (pg_window pg) ?need = Done (w, Some parts)"
      "parts_cover E i obj offset parts (pg_next_seq pg)" "sw_inv E i obj w offset"
      "sw_max_size w = sw_max_size (pg_window pg)" and cur: "sw_current_size w = sw_current_size (pg_window pg) - ?need"
      by (metis o read_back_ok [OF sw])
    have tinv: "task_inv E i obj t (pg_next_seq pg)" using inv Some by (simp add: pg_inv_def)
    from task_push_front_ok [OF tinv w(2), of "pg_mem pg"] obtain ml' t' where
      t': "task_push_front (pg_mem pg) t parts = Done (ml', t')" "task_inv E i obj t' offset"
      "same_limits (pg_mem pg) ml'" "task_balance ml' t' offset = task_balance (pg_mem pg) t (pg_next_seq pg)"
      "\<forall>e. task_reach t (pg_next_seq pg) e \<longrightarrow> task_reach t' offset e"
      "queue_items (rt_queue t') = map Inr parts @ queue_items (rt_queue t)"
      by blast
    have "parts \<noteq> []" using w(2) off by auto
    then have part: "\<exists>p xs. queue_items (rt_queue t') = Inr p # xs"
      using t'(6) by (cases parts) auto
    let ?pg = "pg\<lparr>pg_window := w, pg_mem := ml', pg_task := Some t', pg_next_seq := offset\<rparr>"
    have "try_seek_backward pg offset = Done (?pg, Inr True)"
      using Some off w(1) t'(1) by (simp add: try_seek_backward_def)
    moreover have "pg_inv E i obj ?pg"
      using inv t' w cur le off by (auto simp: pg_inv_def pg_static_def same_limits_def)
    ultimately show ?thesis
      using Some t' part by (auto simp: pg_moved_def pg_balance_def pg_reach_def pg_has_part_def)
  qed
qed

lemma position_at_ok:
  assumes inv: "pg_inv E i obj pg" and off: "offset < length obj"
  shows "(\<exists>pg'. position_at pg offset = Done (pg', Inr ()) \<and> pg_inv E i obj pg' \<and> pg_next_seq pg' = offset \<and>
      (pg_reach obj pg \<longrightarrow> pg_reach obj pg') \<and>
      (pg_synced pg \<longrightarrow> pg_balance pg' = pg_balance pg \<and> pg_ready pg')) \<or>
    (\<not> pg_reach obj pg \<and> pg_gave_up i obj pg (position_at pg offset))"
proof (cases "pg_next_seq pg = offset")
  case True
  then show ?thesis using inv by (auto simp: position_at_def pg_ready_def)
next
  case False
  have "(\<exists>pg' ok. try_seek pg offset = Done (pg', Inr ok) \<and> pg_moved E i obj pg pg' \<and>
      (ok \<longrightarrow> pg_next_seq pg' = offset) \<and> (pg_synced pg \<longrightarrow> pg_synced pg' \<or> ok \<and> pg_has_part pg')) \<or>
    (\<not> pg_reach obj pg \<and> pg_gave_up i obj pg (try_seek pg offset))"
    using False try_seek_forward_ok [OF inv, of offset] try_seek_backward_ok [OF inv, of offset] off
    by (cases "offset > pg_next_seq pg") (auto simp: try_seek_def)
  then consider (moved) pg' ok where "try_seek pg offset = Done (pg', Inr ok)" "pg_moved E i obj pg pg'"
      "ok \<longrightarrow> pg_next_seq pg' = offset" "pg_synced pg \<longrightarrow> pg_synced pg' \<or> ok \<and> pg_has_part pg'"
    | (gave_up) "\<not> pg_reach obj pg" "pg_gave_up i obj pg (try_seek pg offset)" by blast
  then show ?thesis
  proof cases
    case gave_up
    then show ?thesis using False by (auto simp: position_at_def pg_gave_up_def)
  next
    case moved
    show ?thesis
    proof (cases ok)
      case True
      with moved False show ?thesis by (auto simp: position_at_def pg_moved_def pg_ready_def)
    next
      case nok: False
      have inv': "pg_inv E i obj pg'" and bal: "pg_balance pg' = pg_balance pg"
        using moved(2) by (simp_all add: pg_moved_def)
      have metric: "record_contiguous_read_metric pg' = Done (pg_next_seq pg' - pg_seq_start pg')"
        using inv' by (simp add: record_contiguous_read_metric_def pg_inv_def)
      obtain b where b: "pg_abandoned i obj b pg'" "pg_synced pg' \<longrightarrow> b = pg_balance pg'"
        using abandon_ok [OF inv'] by blast
      obtain pg2 where r: "reset_prefetch_to_offset pg' offset = Done pg2" "pg_inv E i obj pg2" "pg_task pg2 = None"
        "pg_next_seq pg2 = offset" "pg_balance pg2 = b"
        by (rule reset_ok [OF b(1)])
      have "position_at pg offset = Done (pg2, Inr ())"
        using False moved(1) nok metric r(1) by (simp add: position_at_def)
      moreover have "pg_reach obj pg2" "pg_ready pg2" using r(3) by (simp_all add: pg_reach_def pg_ready_def pg_synced_def)
      ultimately show ?thesis using r moved(4) nok b(2) bal by auto
    qed
  qed
qed

lemma pg_window_next_seq: "pg\<lparr>pg_window := w, pg_next_seq := n\<rparr> = pg\<lparr>pg_next_seq := n, pg_window := w\<rparr>"
  by (cases pg) simp

lemma read_loop_ok:
  assumes "crc_laws E" and "pg_inv E i obj pg" and "pg_task pg \<noteq> None" and "pg_next_seq pg + n \<le> length obj"
    and "cb_wf resp" and "cb_intact E resp" and "cb_data resp = seg obj s (pg_next_seq pg)" and "s \<le> pg_next_seq pg"
  shows "(\<exists>pg' cb c'. read_loop E pg n resp c = Done (pg', Inr (cb, c')) \<and> pg_moved E i obj pg pg' \<and>
      pg_next_seq pg' = pg_next_seq pg + n \<and> (pg_synced pg \<or> 0 < n \<longrightarrow> pg_synced pg') \<and>
      cb_wf cb \<and> cb_intact E cb \<and> cb_data cb = seg obj s (pg_next_seq pg + n)) \<or>
    (\<not> pg_reach obj pg \<and> pg_gave_up i obj pg (read_loop E pg n resp c))"
  using assms(2-)
proof (induction n arbitrary: pg resp c rule: less_induct)
  case (less n)
  show ?case
  proof (cases "n = 0")
    case True
    then show ?thesis using less.prems by (subst read_loop.simps) (simp add: pg_moved_def)
  next
    case False
    then have n: "0 < n" by simp
    obtain t where t: "pg_task pg = Some t" using less.prems(2) by auto
    have rem: "0 < rt_remaining t"
      using less.prems(1,3) t n by (auto simp: pg_inv_def task_inv_def)
    have oid: "pg_object_id pg = i" using less.prems(1) by (simp add: pg_inv_def pg_static_def)
    show ?thesis
    proof (rule pg_step [OF less.prems(1) t n])
      fix ml' t' p w
      let ?pg = "pg\<lparr>pg_mem := ml', pg_task := Some t', pg_next_seq := pg_next_seq pg + part_len p, pg_window := w\<rparr>"
      assume r: "task_read (pg_mem pg) t n = Done (ml', t', Inr p)" "part_offset p = pg_next_seq pg" "part_ok E i obj p"
        "part_len p \<le> n" "seek_window_push (pg_window pg) p = Done w" "pg_inv E i obj ?pg"
        "pg_balance ?pg = pg_balance pg" "pg_synced ?pg"
        "pg_reach obj pg \<longrightarrow> pg_next_seq pg < length obj \<longrightarrow> pg_reach obj ?pg"
      have into: "part_into_bytes p i (pg_next_seq pg) = Inr (part_bytes p)"
        using part_into_bytes_ok [OF r(3)] r(2) by simp
      have pd: "cb_wf (part_bytes p)" "cb_intact E (part_bytes p)" "cb_len (part_bytes p) = part_len p"
        "cb_data (part_bytes p) = seg obj (pg_next_seq pg) (pg_next_seq pg + part_len p)"
        using r(2,3) by (simp_all add: part_ok_def part_data_def part_len_def)
      have reach: "pg_reach obj pg \<longrightarrow> pg_reach obj ?pg" using r(9) less.prems(3) n by simp
      show ?thesis
      proof (cases "cb_is_empty resp \<and> part_len p = n")
        case True
        have "length (seg obj s (pg_next_seq pg)) = 0"
          using True less.prems(6) cb_data_empty [of resp] by simp
        then have "s = pg_next_seq pg" using less.prems(3,7) by (simp add: length_seg)
        moreover have "read_loop E pg n resp c = Done (?pg, Inr (part_bytes p, c \<and> is_from_cache p))"
          using True n t rem r(1,5) into oid pd(3) by (subst read_loop.simps) (simp add: pg_window_next_seq)
        ultimately show ?thesis using True r(6-8) reach pd by (auto simp: pg_moved_def)
      next
        case False
        obtain resp' where ext: "cb_extend E resp (part_bytes p) = Done (resp', Inr ())" "cb_wf resp'" "cb_intact E resp'"
          "cb_data resp' = cb_data resp @ cb_data (part_bytes p)"
          using cb_extend_intact [OF assms(1) less.prems(4) pd(1) less.prems(5) pd(2)] by blast
        have lt: "n - part_len p < n" using n r(3) by (simp add: part_ok_def)
        have step: "read_loop E pg n resp c = read_loop E ?pg (n - part_len p) resp' (c \<and> is_from_cache p)"
          using False n t rem r(1,4,5) into oid pd(3) ext(1) by (subst read_loop.simps) (auto simp: pg_window_next_seq)
        have "cb_data resp' = seg obj s (pg_next_seq ?pg)"
          using ext(4) pd(4) less.prems(6,7) by (simp add: seg_append)
        with less.IH [OF lt r(6), of resp' "c \<and> is_from_cache p"] ext(2,3) less.prems(3,7) r(4,7,8) reach
        show ?thesis unfolding step by (auto simp: pg_moved_def pg_gave_up_def pg_ready_def)
      qed
    next
      assume "task_read (pg_mem pg) t n = Pending \<or> (\<exists>t' e. task_read (pg_mem pg) t n = Done (pg_mem pg, t', Inl e) \<and>
        (\<exists>b. pg_abandoned i obj b (pg\<lparr>pg_task := Some t'\<rparr>) \<and> (pg_synced pg \<longrightarrow> b = pg_balance pg)))"
        and "\<not> pg_has_part pg" and "\<not> (pg_reach obj pg \<and> pg_next_seq pg < length obj)"
      then show ?thesis
        using n t rem less.prems(3) by (subst (1 2) read_loop.simps) (auto simp: pg_gave_up_def pg_ready_def)
    qed
  qed
qed

section \<open>Opening and dropping a handle\<close>

text \<open>The size of the seek window never changes, so the handle releases what it reserved when it was opened.\<close>

lemma seek_window_push_max: "seek_window_push sw p = Done w \<Longrightarrow> sw_max_size w = sw_max_size sw"
  by (auto simp: seek_window_push_def seek_window_clear_def and_then_Done_iff split: if_splits)

lemma read_back_max: "read_back sw n = Done (w, r) \<Longrightarrow> sw_max_size w = sw_max_size sw"
  by (auto simp: read_back_def and_then_Done_iff split: if_splits)

definition pg_fixed :: "prefetch_get_object \<Rightarrow> nat \<times> string" where
  "pg_fixed pg = (sw_max_size (pg_window pg), pg_bucket pg)"

lemma reset_max: "reset_prefetch_to_offset pg off = Done pg' \<Longrightarrow> pg_fixed pg' = pg_fixed pg"
  by (auto simp: pg_fixed_def reset_prefetch_to_offset_def seek_window_clear_def and_then_Done_iff)

lemma seek_loop_max: "seek_loop pg t d = Done (pg', r) \<Longrightarrow> pg_fixed pg' = pg_fixed pg"
proof (induction pg t d arbitrary: pg' r rule: seek_loop.induct)
  case (1 pg t d)
  show ?case
  proof (cases "0 < d")
    case False
    with "1.prems" show ?thesis by (subst (asm) seek_loop.simps) simp
  next
    case True
    from "1.prems" True obtain ml t' x where r: "task_read (pg_mem pg) t d = Done (ml, t', x)"
      and rest: "(case x of Inl e \<Rightarrow> Done (pg\<lparr>pg_mem := ml, pg_task := Some t'\<rparr>, Inl e)
          | Inr part \<Rightarrow>
              and_then (checked_sub d (part_len part)) (\<lambda>seek_distance.
              and_then (seek_window_push (pg_window pg) part) (\<lambda>w.
                seek_loop (pg\<lparr>pg_mem := ml, pg_task := Some t', pg_next_seq := pg_next_seq pg + part_len part, pg_window := w\<rparr>)
                  t' seek_distance))) = Done (pg', r)"
      by (subst (asm) seek_loop.simps) (auto simp: and_then_Done_iff Let_def)
    show ?thesis
    proof (cases x)
      case (Inl e)
      with rest show ?thesis by (auto simp: pg_fixed_def)
    next
      case (Inr part)
      with rest obtain d' w where d: "checked_sub d (part_len part) = Done d'" and w: "seek_window_push (pg_window pg) part = Done w"
        and l: "seek_loop (pg\<lparr>pg_mem := ml, pg_task := Some t', pg_next_seq := pg_next_seq pg + part_len part, pg_window := w\<rparr>) t' d'
          = Done (pg', r)"
        by (auto simp: and_then_Done_iff)
      have "pg_fixed pg' = (sw_max_size w, pg_bucket pg)"
        using "1.IH" [OF True r refl refl refl Inr d, of w pg' r] w l by (simp add: pg_fixed_def)
      with seek_window_push_max [OF w] show ?thesis by (simp add: pg_fixed_def)
    qed
  qed
qed

lemma read_loop_max: "read_loop E pg n resp c = Done (pg', r) \<Longrightarrow> pg_fixed pg' = pg_fixed pg"
proof (induction n arbitrary: pg resp c pg' r rule: less_induct)
  case (less n)
  show ?case
  proof (cases "n = 0 \<or> pg_task pg = None")
    case True
    with less.prems show ?thesis by (subst (asm) read_loop.simps) (auto split: if_splits)
  next
    case False
    then obtain t where n: "0 < n" and t: "pg_task pg = Some t" by auto
    from less.prems n t obtain ml t' x where r: "task_read (pg_mem pg) t n = Done (ml, t', x)"
      by (subst (asm) read_loop.simps) (auto simp: and_then_Done_iff)
    show ?thesis
    proof (cases x)
      case (Inl e)
      with less.prems n t r show ?thesis by (subst (asm) read_loop.simps) (auto simp: and_then_Done_iff pg_fixed_def)
    next
      case (Inr p)
      with less.prems n t r obtain w where w: "seek_window_push (pg_window pg) p = Done w"
        by (subst (asm) read_loop.simps) (auto simp: and_then_Done_iff Let_def)
      let ?pg = "pg\<lparr>pg_mem := ml, pg_task := Some t', pg_window := w\<rparr>"
      have max: "sw_max_size w = sw_max_size (pg_window pg)" by (rule seek_window_push_max [OF w])
      consider "pg_window pg' = w" "pg_bucket pg' = pg_bucket pg" | resp' c' where
        "read_loop E (?pg\<lparr>pg_next_seq := pg_next_seq pg + part_len p\<rparr>) (n - part_len p) resp' c' = Done (pg', r)"
        using less.prems [unfolded read_loop.simps [of E pg n resp c]] n t r Inr w
        by (auto simp: and_then_Done_iff Let_def checked_sub_Done_iff part_into_bytes_def part_check_def part_len_def case_sum_Done_iff
            split: if_splits)
      then show ?thesis
      proof cases
        case (2 resp' c')
        have "n - part_len p < n" using n r Inr task_read_nonempty by fastforce
        from less.IH [OF this 2] max show ?thesis by (simp add: pg_fixed_def)
      qed (simp add: max pg_fixed_def)
    qed
  qed
qed

lemma position_at_fixed:
  assumes "position_at p off = Done (p', x)"
  shows "pg_fixed p' = pg_fixed p"
proof -
  have fwd: "pg_fixed p' = pg_fixed p" if "try_seek_forward p off = Done (p', x)" for p p' off x
    using that by (auto simp: try_seek_forward_def and_then_Done_iff Let_def pg_fixed_def dest!: seek_loop_max split: option.splits if_splits prod.splits)
  have bwd: "pg_fixed p' = pg_fixed p" if "try_seek_backward p off = Done (p', x)" for p p' off x
    using that by (auto simp: try_seek_backward_def and_then_Done_iff Let_def pg_fixed_def dest!: read_back_max split: option.splits)
  show ?thesis
    using assms by (auto simp: position_at_def try_seek_def and_then_Done_iff case_sum_Done_iff dest!: fwd bwd reset_max split: if_splits)
qed

lemma pg_read_max:
  assumes "pg_read E ps pg offset len = Done (pg', r)"
  shows "pg_fixed pg' = pg_fixed pg"
proof -
  have ens: "pg_fixed p' = pg_fixed p" if "ensure_task ps p = Done (p', x)" for p p' x
    using that by (auto simp: pg_fixed_def ensure_task_def spawn_read_backpressure_request_def and_then_Done_iff case_sum_Done_iff split: option.splits if_splits)
  have try_read: "pg_fixed p' = pg_fixed pg" if "try_read E ps pg offset len = Done (p', x)" for p' x
    using that by (auto simp: pg_fixed_def try_read_def and_then_Done_iff Let_def case_sum_Done_iff dest!: position_at_fixed ens read_loop_max split: if_splits)
  show ?thesis
    using assms by (auto simp: pg_read_def and_then_Done_iff case_sum_Done_iff dest!: try_read reset_max)
qed

text \<open>What a read promises its caller: the requested slice of the object, clipped at its end, or an error.\<close>

definition read_outcome_ok ::
  "crc_env \<Rightarrow> bytes \<Rightarrow> nat \<times> nat \<Rightarrow> prefetch_read_error + checksummed_bytes \<Rightarrow> bool" where
  "read_outcome_ok E obj req r = (case r of
     Inl _ \<Rightarrow> True
   | Inr cb \<Rightarrow> cb_into_bytes E cb = Done (Inr (seg obj (fst req) (min (fst req + snd req) (length obj)))))"

lemma pg_new_ok:
  assumes "length obj \<le> u64_max" and "pg_config_ok config" and "mem_limit ml < - 1"
    and "ps_read_part_size ps \<noteq> 0" and "0 < pf_max_backward_seek_distance config"
  obtains pg r where "pg_new ps config bucket i handle (length obj) ml = Done pg" and "pg_inv E i obj pg"
    and "pg_task pg = None"
    and "seek_window_reservation (ps_read_part_size ps) (sw_max_size (pg_window pg)) = Done r"
    and "pg_balance pg = settled ml + of_nat r"
proof -
  let ?w = "\<lparr>sw_parts = [], sw_max_size = pf_max_backward_seek_distance config, sw_current_size = 0\<rparr>"
  let ?r = "(pf_max_backward_seek_distance config + ps_read_part_size ps - 1) div ps_read_part_size ps * ps_read_part_size ps"
  have w: "seek_window_new (pf_max_backward_seek_distance config) = Done ?w"
    using assms(5) by (simp add: seek_window_new_def)
  have r: "seek_window_reservation (ps_read_part_size ps) (pf_max_backward_seek_distance config) = Done ?r"
    using assms(4) by (simp add: seek_window_reservation_def)
  obtain pg where pg: "pg_new ps config bucket i handle (length obj) ml = Done pg" "pg_window pg = ?w"
    "pg_task pg = None" "pg_mem pg = mem_reserve ml (of_nat ?r)" "pg_object_id pg = i" "pg_size pg = length obj"
    "pg_config pg = config" "pg_preferred_part_size pg = 128 * 1024" "pg_next_seq pg = 0" "pg_seq_start pg = 0"
    by (simp add: pg_new_def r w del: of_nat_mult)
  have "pg_inv E i obj pg"
    using assms(1-3) pg(2-) mem_reserve_simps(2) [of ml "of_nat ?r"]
    by (simp add: pg_inv_def pg_static_def sw_inv_def same_limits_def)
  with pg r that [of pg ?r] show thesis by (simp add: pg_balance_def)
qed

lemma pg_drop_ok:
  assumes inv: "pg_inv E i obj pg"
    and r: "seek_window_reservation (ps_read_part_size ps) (sw_max_size (pg_window pg)) = Done r"
  shows "\<exists>ml'. pg_drop ps pg = Done ml' \<and> (pg_synced pg \<longrightarrow> settled ml' + of_nat r = pg_balance pg)"
proof -
  have m: "record_contiguous_read_metric pg = Done (pg_next_seq pg - pg_seq_start pg)"
    using inv by (simp add: record_contiguous_read_metric_def pg_inv_def)
  show ?thesis
  proof (cases "pg_task pg")
    case None
    then show ?thesis using r m by (simp add: pg_drop_def pg_balance_def)
  next
    case (Some t)
    have tinv: "task_inv E i obj t (pg_next_seq pg)" using inv Some by (simp add: pg_inv_def)
    obtain ml' where "task_drop (mem_release (pg_mem pg) (of_nat r)) t = Done ml'"
      "settled ml' = task_balance (mem_release (pg_mem pg) (of_nat r)) t (bc_next_read (rt_controller t))"
      by (rule task_drop_ok [OF tinv])
    then show ?thesis
      using r m Some by (simp add: pg_drop_def pg_balance_def pg_synced_def task_balance_def)
  qed
qed

section \<open>Reads against any part stream\<close>

context object_part_stream
begin

lemma ensure_task_ok:
  assumes inv: "pg_inv E i obj pg" and off: "pg_next_seq pg < length obj"
  shows "\<exists>pg'. ensure_task ps pg = Done (pg', Inr ()) \<and> pg_inv E i obj pg' \<and> pg_task pg' \<noteq> None \<and>
    pg_next_seq pg' = pg_next_seq pg \<and> pg_balance pg' = pg_balance pg \<and> (pg_ready pg \<longrightarrow> pg_ready pg') \<and>
    (pg_task pg = None \<longrightarrow> (\<exists>n ml cfg ml' t. task_config_ok i obj ps cfg \<and> mem_limit ml < - 1 \<and>
      ps_spawn ps n ml cfg = Done (ml', t) \<and> pg_task pg' = Some t \<and> rr_offset (rc_range cfg) = pg_next_seq pg \<and>
      rc_bucket cfg = pg_bucket pg)) \<and>
    (pg_task pg \<noteq> None \<longrightarrow> pg' = pg)"
proof (cases "pg_task pg")
  case (Some t)
  then show ?thesis using inv by (simp add: ensure_task_def)
next
  case None
  obtain v where v: "ps_initial_read_window_size ps = Some v" "v \<noteq> 0" using backpressure by blast
  have st: "pg_static i obj pg" using inv by (simp add: pg_inv_def)
  have cfg: "task_config_ok i obj ps (spawn_config ps pg)"
    using st off part_size
    by (auto simp: task_config_ok_def spawn_config_def pg_static_def pg_config_ok_def rr_new_def rc_initial_read_window_size_def)
  have lim: "mem_limit (pg_mem pg) < - 1" using st by (simp add: pg_static_def)
  have rng: "rr_offset (rc_range (spawn_config ps pg)) = pg_next_seq pg"
    and bkt: "rc_bucket (spawn_config ps pg) = pg_bucket pg" by (simp_all add: spawn_config_def rr_new_def)
  from spawn_ok [OF cfg lim, of "pg_spawned pg"] obtain ml' t where
    t: "ps_spawn ps (pg_spawned pg) (pg_mem pg) (spawn_config ps pg) = Done (ml', t)"
    "task_inv E i obj t (pg_next_seq pg)" "bc_next_read (rt_controller t) = pg_next_seq pg"
    "same_limits (pg_mem pg) ml'" "task_balance ml' t (pg_next_seq pg) = settled (pg_mem pg)"
    unfolding rng by blast
  let ?pg = "pg\<lparr>pg_mem := ml', pg_spawned := pg_spawned pg + 1, pg_task := Some t\<rparr>"
  have e: "ensure_task ps pg = Done (?pg, Inr ())"
    using None v t(1) by (simp add: ensure_task_def spawn_read_backpressure_request_def)
  have i: "pg_inv E i obj ?pg"
    using inv t(2,4) by (simp add: pg_inv_def pg_static_def same_limits_def)
  have b: "pg_balance ?pg = pg_balance pg" "pg_ready ?pg"
    using None t(3,5) by (simp_all add: pg_balance_def pg_ready_def pg_synced_def)
  show ?thesis
    using e i b cfg lim t(1) rng bkt None by fastforce
qed

lemma try_read_ok:
  assumes inv: "pg_inv E i obj pg"
  shows "(\<exists>pg' cb c. try_read E ps pg offset len = Done (pg', Inr (cb, c)) \<and> pg_inv E i obj pg' \<and>
      cb_wf cb \<and> cb_intact E cb \<and> cb_data cb = seg obj offset (min (offset + len) (length obj)) \<and>
      (pg_synced pg \<longrightarrow> pg_balance pg' = pg_balance pg \<and> (0 < len \<longrightarrow> pg_synced pg'))) \<or>
    (\<exists>pg' e b. try_read E ps pg offset len = Done (pg', Inl e) \<and> pg_abandoned i obj b pg' \<and>
      (pg_synced pg \<longrightarrow> b = pg_balance pg)) \<or> try_read E ps pg offset len = Pending"
proof -
  let ?pg = "pg\<lparr>pg_preferred_part_size := min (max (pg_preferred_part_size pg) len) max_preferred_part_size\<rparr>"
  have inv1: "pg_inv E i obj ?pg"
    using inv by (cases "pg_task pg") (auto simp: pg_inv_def pg_static_def max_preferred_part_size_def)
  have same: "pg_balance ?pg = pg_balance pg" "pg_synced ?pg = pg_synced pg" "pg_ready ?pg = pg_ready pg"
    by (simp_all add: pg_balance_def pg_synced_def pg_ready_def pg_has_part_def cong: option.case_cong)
  have sz: "pg_size pg = length obj" using inv by (simp add: pg_inv_def pg_static_def)
  show ?thesis
  proof (cases "offset < length obj")
    case False
    then have "try_read E ps pg offset len = Done (?pg, Inr (cb_default, False))"
      using sz by (simp add: try_read_def Let_def)
    then show ?thesis using False inv1 same cb_default_intact [OF crc] by auto
  next
    case off: True
    let ?n = "min len (length obj - offset)"
    have tr: "try_read E ps pg offset len =
        and_then (position_at ?pg offset) (\<lambda>(pg, r). case r of
             Inl e \<Rightarrow> Done (pg, Inl e)
           | Inr _ \<Rightarrow> and_then (assert_that (pg_next_seq pg = offset)) (\<lambda>_.
               and_then (ensure_task ps pg) (\<lambda>(pg, r). case r of
                 Inl e \<Rightarrow> Done (pg, Inl e)
               | Inr _ \<Rightarrow> read_loop E pg ?n cb_default True)))"
      using off sz by (simp add: try_read_def Let_def)
    from position_at_ok [OF inv1 off] consider
      (at) pg1 where "position_at ?pg offset = Done (pg1, Inr ())" "pg_inv E i obj pg1" "pg_next_seq pg1 = offset"
        "pg_synced pg \<longrightarrow> pg_balance pg1 = pg_balance pg \<and> pg_ready pg1"
      | (gave_up) "pg_gave_up i obj ?pg (position_at ?pg offset)"
      unfolding same by blast
    then show ?thesis
    proof cases
      case gave_up
      then show ?thesis
        unfolding tr pg_gave_up_def same by (auto simp: pg_ready_def)
    next
      case at
      from ensure_task_ok [OF at(2)] at(3) off obtain pg2 where
        e: "ensure_task ps pg1 = Done (pg2, Inr ())" "pg_inv E i obj pg2" "pg_task pg2 \<noteq> None"
        "pg_next_seq pg2 = offset" "pg_balance pg2 = pg_balance pg1" "pg_ready pg1 \<longrightarrow> pg_ready pg2"
        by metis
      have t2: "try_read E ps pg offset len = read_loop E pg2 ?n cb_default True"
        unfolding tr using at(1,3) e(1) by simp
      have bound: "pg_next_seq pg2 + ?n \<le> length obj" using e(4) off by simp
      have eq: "pg_next_seq pg2 + ?n = min (offset + len) (length obj)" using e(4) off by auto
      have "cb_data cb_default = seg obj offset (pg_next_seq pg2)" using e(4) by simp
      from read_loop_ok [OF crc e(2,3) bound _ cb_default_intact [OF crc] this, of True] e(4)
      show ?thesis
        unfolding t2 eq [symmetric] using e(5,6) at(4) off
        by (auto simp: pg_moved_def pg_gave_up_def pg_ready_def)
    qed
  qed
qed

lemma pg_read_ok:
  assumes inv: "pg_inv E i obj pg"
  shows "(\<exists>pg' cb. pg_read E ps pg offset len = Done (pg', Inr cb) \<and> pg_inv E i obj pg' \<and>
      cb_wf cb \<and> cb_intact E cb \<and> cb_data cb = seg obj offset (min (offset + len) (length obj)) \<and>
      (pg_synced pg \<longrightarrow> pg_balance pg' = pg_balance pg \<and> (0 < len \<longrightarrow> pg_synced pg'))) \<or>
    (\<exists>pg' e. pg_read E ps pg offset len = Done (pg', Inl e) \<and> pg_inv E i obj pg' \<and> pg_task pg' = None \<and>
      pg_next_seq pg' = offset \<and> (pg_synced pg \<longrightarrow> pg_balance pg' = pg_balance pg)) \<or>
    pg_read E ps pg offset len = Pending"
proof -
  from try_read_ok [OF inv, of offset len] consider
    (ok) pg' cb c where "try_read E ps pg offset len = Done (pg', Inr (cb, c))" "pg_inv E i obj pg'"
      "cb_wf cb" "cb_intact E cb" "cb_data cb = seg obj offset (min (offset + len) (length obj))"
      "pg_synced pg \<longrightarrow> pg_balance pg' = pg_balance pg \<and> (0 < len \<longrightarrow> pg_synced pg')"
    | (err) pg1 e b where "try_read E ps pg offset len = Done (pg1, Inl e)" "pg_abandoned i obj b pg1"
      "pg_synced pg \<longrightarrow> b = pg_balance pg"
    | (wait) "try_read E ps pg offset len = Pending" by blast
  then show ?thesis
  proof cases
    case ok
    then show ?thesis by (simp add: pg_read_def)
  next
    case err
    obtain pg' where "reset_prefetch_to_offset pg1 offset = Done pg'" "pg_inv E i obj pg'" "pg_task pg' = None"
      "pg_next_seq pg' = offset" "pg_balance pg' = b"
      by (rule reset_ok [OF err(2)])
    with err show ?thesis by (simp add: pg_read_def)
  next
    case wait
    then show ?thesis by (simp add: pg_read_def)
  qed
qed

lemma pg_reads_ok:
  assumes "pg_inv E i obj pg"
  shows "pg_reads E ps pg reqs = Pending \<or> (\<exists>pg' rs. pg_reads E ps pg reqs = Done (pg', rs) \<and>
    list_all2 (read_outcome_ok E obj) reqs rs \<and> pg_inv E i obj pg' \<and>
    pg_fixed pg' = pg_fixed pg \<and>
    (pg_synced pg \<longrightarrow> (\<forall>req \<in> set reqs. 0 < snd req) \<longrightarrow> pg_synced pg' \<and> pg_balance pg' = pg_balance pg))"
  using assms
proof (induction reqs arbitrary: pg)
  case Nil
  then show ?case by simp
next
  case (Cons req reqs)
  obtain offset len where req: "req = (offset, len)" by (cases req)
  show ?case
  proof (cases "pg_read E ps pg offset len = Pending")
    case True
    then show ?thesis by (simp add: req)
  next
    case False
    with pg_read_ok [OF Cons.prems, of offset len] obtain pg1 r where
      r: "pg_read E ps pg offset len = Done (pg1, r)" "pg_inv E i obj pg1" "read_outcome_ok E obj req r"
      "pg_synced pg \<longrightarrow> 0 < len \<longrightarrow> pg_synced pg1 \<and> pg_balance pg1 = pg_balance pg"
      by (auto simp: read_outcome_ok_def req cb_into_bytes_intact pg_synced_def)
    from Cons.IH [OF r(2)] r(1,3,4) pg_read_max [OF r(1)] show ?thesis
      by (auto simp: req) fastforce+
  qed
qed

lemma pg_session_ok:
  assumes "length obj \<le> u64_max" and "pg_config_ok config" and "mem_limit ml < - 1"
    and "0 < pf_max_backward_seek_distance config"
  shows "pg_session E ps config bucket i handle (length obj) ml reqs = Pending \<or>
    (\<exists>ml' rs. pg_session E ps config bucket i handle (length obj) ml reqs = Done (ml', rs) \<and>
      list_all2 (read_outcome_ok E obj) reqs rs \<and> ((\<forall>req \<in> set reqs. 0 < snd req) \<longrightarrow> settled ml' = settled ml))"
proof -
  have sz: "ps_read_part_size ps \<noteq> 0" using part_size by simp
  obtain pg r where pg: "pg_new ps config bucket i handle (length obj) ml = Done pg" "pg_inv E i obj pg" "pg_task pg = None"
    "seek_window_reservation (ps_read_part_size ps) (sw_max_size (pg_window pg)) = Done r"
    "pg_balance pg = settled ml + of_nat r"
    by (rule pg_new_ok [OF assms(1-3) sz assms(4)])
  have syn: "pg_synced pg" using pg(3) by (simp add: pg_synced_def)
  from pg_reads_ok [OF pg(2), of reqs] show ?thesis
  proof (elim disjE exE conjE)
    assume "pg_reads E ps pg reqs = Pending"
    then show ?thesis using pg(1) by (simp add: pg_session_def)
  next
    fix pg' rs
    assume rs: "pg_reads E ps pg reqs = Done (pg', rs)" "list_all2 (read_outcome_ok E obj) reqs rs" "pg_inv E i obj pg'"
      "pg_fixed pg' = pg_fixed pg"
      and bal: "pg_synced pg \<longrightarrow> (\<forall>req \<in> set reqs. 0 < snd req) \<longrightarrow> pg_synced pg' \<and> pg_balance pg' = pg_balance pg"
    have "seek_window_reservation (ps_read_part_size ps) (sw_max_size (pg_window pg')) = Done r" using pg(4) rs(4) by (simp add: pg_fixed_def)
    from pg_drop_ok [OF rs(3) this] obtain ml' where
      ml': "pg_drop ps pg' = Done ml'" "pg_synced pg' \<longrightarrow> settled ml' + of_nat r = pg_balance pg'" by blast
    have "(\<forall>req \<in> set reqs. 0 < snd req) \<longrightarrow> settled ml' = settled ml"
      using bal syn ml'(2) pg(5) by auto
    then show ?thesis using pg(1) rs(1,2) ml'(1) by (simp add: pg_session_def)
  qed
qed

end

context reliable_part_stream
begin

lemma ensure_task_reach:
  assumes inv: "pg_inv E i obj pg" and off: "pg_next_seq pg < length obj" and reach: "pg_reach obj pg"
    and b: "pg_bucket pg = bucket" and e: "ensure_task ps pg = Done (pg', r)"
  shows "pg_reach obj pg'"
proof (cases "pg_task pg")
  case None
  with ensure_task_ok [OF inv off] e obtain n ml cfg ml' t where c: "task_config_ok i obj ps cfg" "rc_bucket cfg = bucket" "mem_limit ml < - 1"
    "ps_spawn ps n ml cfg = Done (ml', t)" and t: "pg_task pg' = Some t" "rr_offset (rc_range cfg) = pg_next_seq pg"
    "pg_next_seq pg' = pg_next_seq pg"
    using b by auto
  from spawn_reach [OF c] t show ?thesis by (simp add: pg_reach_def)
next
  case (Some t)
  with ensure_task_ok [OF inv off] e reach show ?thesis by auto
qed

text \<open>With a stream that always gets to the end, a read neither fails nor waits.\<close>

lemma pg_read_reliable:
  assumes inv: "pg_inv E i obj pg" and reach: "pg_reach obj pg" and bkt: "pg_bucket pg = bucket"
  shows "\<exists>pg' cb. pg_read E ps pg offset len = Done (pg', Inr cb) \<and> pg_reach obj pg'"
proof -
  let ?pg = "pg\<lparr>pg_preferred_part_size := min (max (pg_preferred_part_size pg) len) max_preferred_part_size\<rparr>"
  have inv1: "pg_inv E i obj ?pg"
    using inv by (cases "pg_task pg") (auto simp: pg_inv_def pg_static_def max_preferred_part_size_def)
  have reach1: "pg_reach obj ?pg" using reach by (cases "pg_task pg") (auto simp: pg_reach_def)
  have sz: "pg_size pg = length obj" using inv by (simp add: pg_inv_def pg_static_def)
  show ?thesis
  proof (cases "offset < length obj")
    case False
    then show ?thesis
      using sz reach1 by (simp add: pg_read_def try_read_def Let_def)
  next
    case off: True
    let ?n = "min len (length obj - offset)"
    from position_at_ok [OF inv1 off] reach1 obtain pg1 where
      at: "position_at ?pg offset = Done (pg1, Inr ())" "pg_inv E i obj pg1" "pg_next_seq pg1 = offset" "pg_reach obj pg1"
      by blast
    from ensure_task_ok [OF at(2)] at(3) off obtain pg2 where
      e: "ensure_task ps pg1 = Done (pg2, Inr ())" "pg_inv E i obj pg2" "pg_task pg2 \<noteq> None" "pg_next_seq pg2 = offset"
      by metis
    have "pg_bucket pg1 = bucket" using position_at_fixed [OF at(1)] bkt by (simp add: pg_fixed_def)
    then have reach2: "pg_reach obj pg2" using ensure_task_reach [OF at(2) _ at(4) _ e(1)] at(3) off by simp
    have bound: "pg_next_seq pg2 + ?n \<le> length obj" using e(4) off by simp
    have "cb_data cb_default = seg obj offset (pg_next_seq pg2)" using e(4) by simp
    from read_loop_ok [OF crc e(2,3) bound _ cb_default_intact [OF crc] this, of True] e(4) reach2
    obtain pg' cb c where "read_loop E pg2 ?n cb_default True = Done (pg', Inr (cb, c))" "pg_moved E i obj pg2 pg'"
      by auto
    then show ?thesis
      using off sz at(1,3) e(1) reach2 by (auto simp: pg_read_def try_read_def Let_def pg_moved_def)
  qed
qed

lemma pg_reads_reliable:
  assumes "pg_inv E i obj pg" and "pg_reach obj pg" and "pg_bucket pg = bucket"
  shows "\<exists>pg' rs. pg_reads E ps pg reqs = Done (pg', rs) \<and> list_all (\<lambda>r. \<not> isl r) rs"
  using assms
proof (induction reqs arbitrary: pg)
  case Nil
  then show ?case by simp
next
  case (Cons req reqs)
  obtain offset len where req: "req = (offset, len)" by (cases req)
  from pg_read_reliable [OF Cons.prems, of offset len] obtain pg1 cb where
    r: "pg_read E ps pg offset len = Done (pg1, Inr cb)" "pg_reach obj pg1" by blast
  with pg_read_ok [OF Cons.prems(1), of offset len] have "pg_inv E i obj pg1" by auto
  moreover have "pg_bucket pg1 = bucket" using pg_read_max [OF r(1)] Cons.prems(3) by (simp add: pg_fixed_def)
  ultimately show ?case using Cons.IH [of pg1] r by (auto simp: req)
qed

lemma pg_session_reliable:
  assumes "length obj \<le> u64_max" and "pg_config_ok config" and "mem_limit ml < - 1"
    and "0 < pf_max_backward_seek_distance config"
  shows "\<exists>ml' rs. pg_session E ps config bucket i handle (length obj) ml reqs = Done (ml', rs) \<and>
    list_all2 (\<lambda>req r. \<exists>cb. r = Inr cb \<and> cb_into_bytes E cb =
      Done (Inr (seg obj (fst req) (min (fst req + snd req) (length obj))))) reqs rs"
proof -
  have sz: "ps_read_part_size ps \<noteq> 0" using part_size by simp
  obtain pg r where pg: "pg_new ps config bucket i handle (length obj) ml = Done pg" "pg_inv E i obj pg" "pg_task pg = None"
    "seek_window_reservation (ps_read_part_size ps) (sw_max_size (pg_window pg)) = Done r"
    by (rule pg_new_ok [OF assms(1-3) sz assms(4)])
  have "pg_reach obj pg" using pg(3) by (simp add: pg_reach_def)
  moreover have "pg_bucket pg = bucket" using pg(1) by (auto simp: pg_new_def and_then_Done_iff)
  ultimately obtain pg' rs where
    rs: "pg_reads E ps pg reqs = Done (pg', rs)" "list_all (\<lambda>r. \<not> isl r) rs"
    using pg_reads_reliable [OF pg(2), of reqs] by blast
  from pg_reads_ok [OF pg(2), of reqs] rs(1) pg(4) have "\<exists>ml'. pg_drop ps pg' = Done ml'"
    using pg_drop_ok [of E i obj pg' ps r] by (auto simp: pg_fixed_def)
  with pg_session_ok [OF assms, of bucket handle reqs] pg(1) rs(1) obtain ml' where
    s: "pg_session E ps config bucket i handle (length obj) ml reqs = Done (ml', rs)"
      "list_all2 (read_outcome_ok E obj) reqs rs"
    by (auto simp: pg_session_def)
  have "list_all2 (\<lambda>req r. \<exists>cb. r = Inr cb \<and> cb_into_bytes E cb =
      Done (Inr (seg obj (fst req) (min (fst req + snd req) (length obj))))) reqs rs"
    using s(2) rs(2)
    by (induction rule: list_all2_induct) (auto simp: read_outcome_ok_def split: sum.splits)
  with s(1) show ?thesis by blast
qed

end

end
