(* ===== verification/Part_Stream.thy ===== *)
theory Part_Stream
  imports Prefetcher
begin

text \<open>
  The part stream that reads from the S3 client (\<open>ClientPartStream\<close> and the request functions of
  \<open>mountpoint-s3-fs/src/prefetch/part_stream.rs\<close>). The S3 client is the record \<open>C\<close>: what a \<open>GetObject\<close> request
  returns, body part by body part, how far its flow-control window initially reaches and what happens
  when the window is exhausted (the CRT waits, the mock client fails). The asynchronous streams are the lists
  of what they yield, with the way they end.
\<close>

section \<open>The S3 client\<close>

record get_body_part =
  gp_offset :: nat
  gp_data :: bytes

datatype starvation = StarveWait | StarveError object_client_error

record get_object_response =
  gr_parts :: "(object_client_error + get_body_part) list"
  gr_window :: "nat option"
  gr_starved :: starvation
  gr_hangs :: bool

record s3_client =
  sc_get_object :: "nat \<Rightarrow> string \<Rightarrow> string \<Rightarrow> nat \<times> nat \<Rightarrow> string \<Rightarrow> object_client_error + get_object_response"
  sc_read_part_size :: nat
  sc_initial_read_window_size :: "nat option"

section \<open>Requests\<close>

datatype stream_end = Ended | Errored | Blocked | Crashed

type_synonym body_item = "prefetch_read_error + get_body_part"

type_synonym body_stream = "increment_queue \<times> backpressure_limiter \<times> body_item list \<times> stream_end"

definition yielding :: "body_item \<Rightarrow> body_stream \<Rightarrow> body_stream" where
  "yielding x s = (case s of (q, l, xs, e) \<Rightarrow> (q, l, x # xs, e))"

text \<open>
  The loop of \<open>read_from_request\<close> over the body parts; \<open>win\<close> is the window the client knows.
  \<open>ensure_read_window\<close> raises it to the given offset.
\<close>

definition ensure_read_window :: "nat \<Rightarrow> nat \<Rightarrow> nat" where
  "ensure_read_window win desired_end_offset = win + (desired_end_offset - win)"

fun request_loop ::
  "get_object_response \<Rightarrow> string \<Rightarrow> string \<Rightarrow> nat \<Rightarrow> increment_queue \<Rightarrow> backpressure_limiter \<Rightarrow> nat \<Rightarrow>
     (object_client_error + get_body_part) list \<Rightarrow> body_stream" where
  "request_loop resp bucket key range_end q l win [] = (q, l, [], if gr_hangs resp then Blocked else Ended)"
| "request_loop resp bucket key range_end q l win (Inl err # rest) =
     (q, l, [Inl (GetRequestFailed err bucket key)], Errored)"
| "request_loop resp bucket key range_end q l win (Inr part # rest) =
     (if gp_offset part \<ge> win then
        (case gr_starved resp of
           StarveWait \<Rightarrow> (q, l, [], Blocked)
         | StarveError err \<Rightarrow> (q, l, [Inl (GetRequestFailed err bucket key)], Errored))
      else let next_offset = gp_offset part + length (gp_data part)
           in yielding (Inr part)
                (if next_offset = range_end then (q, l, [], Ended)
                 else (case wait_for_read_window_increment q l next_offset of
                     Done (q, l, Inl e) \<Rightarrow> (q, l, [Inl e], Errored)
                   | Done (q, l, Inr (Some w)) \<Rightarrow>
                       request_loop resp bucket key range_end q l (ensure_read_window win w) rest
                   | Done (q, l, Inr None) \<Rightarrow> request_loop resp bucket key range_end q l win rest
                   | Pending \<Rightarrow> (q, l, [], Blocked)
                   | Panic \<Rightarrow> (q, l, [], Crashed))))"

definition read_from_request ::
  "s3_client \<Rightarrow> nat \<Rightarrow> increment_queue \<Rightarrow> backpressure_limiter \<Rightarrow> string \<Rightarrow> object_id \<Rightarrow> nat \<times> nat \<Rightarrow> body_stream" where
  "read_from_request C n q l bucket i request_range =
     (case sc_get_object C n bucket (oid_key i) request_range (oid_etag i) of
        Inl err \<Rightarrow> (q, l, [Inl (GetRequestFailed err bucket (oid_key i))], Errored)
      | Inr resp \<Rightarrow> (case gr_window resp of
          None \<Rightarrow> (q, l, [], Crashed)
        | Some win \<Rightarrow>
            request_loop resp bucket (oid_key i) (snd request_range) q l
              (ensure_read_window win (bl_window_end l)) (gr_parts resp)))"

definition range_of :: "request_range \<Rightarrow> nat \<times> nat" where
  "range_of r = (rr_offset r, rr_end r)"

text \<open>Where the last body part that was yielded ended.\<close>

definition current_offset_after :: "nat \<Rightarrow> ('e + get_body_part) list \<Rightarrow> nat" where
  "current_offset_after start xs =
     foldl (\<lambda>off x. case x of Inl _ \<Rightarrow> off | Inr part \<Rightarrow> gp_offset part + length (gp_data part)) start xs"

definition read_from_client_stream ::
  "s3_client \<Rightarrow> nat \<Rightarrow> increment_queue \<Rightarrow> backpressure_limiter \<Rightarrow> string \<Rightarrow> object_id \<Rightarrow> nat \<Rightarrow> request_range \<Rightarrow>
     body_stream" where
  "read_from_client_stream C n q l bucket i initial_request_end_offset r =
     (let first_req_range = trim_end r initial_request_end_offset;
          (q, l, xs, fin) =
            (if \<not> rr_is_empty first_req_range
             then read_from_request C (2 * n) q l bucket i (range_of first_req_range)
             else (q, l, [], Ended));
          current_offset = current_offset_after (rr_offset first_req_range) xs
      in if fin \<noteq> Ended then (q, l, xs, fin)
         else let r = trim_start r initial_request_end_offset
              in if rr_is_empty r then (q, l, xs, Ended)
                 else if current_offset < rr_offset r then
                   (q, l, xs @ [Inl GetRequestTerminatedUnexpectedly], Errored)
                 else (case wait_for_read_window_increment q l (rr_offset r) of
                     Done (q, l, Inl e) \<Rightarrow> (q, l, xs @ [Inl e], Errored)
                   | Done (q, l, Inr _) \<Rightarrow>
                       (case read_from_request C (2 * n + 1) q l bucket i (range_of r) of
                          (q, l, ys, fin) \<Rightarrow> (q, l, xs @ ys, fin))
                   | Pending \<Rightarrow> (q, l, xs, Blocked)
                   | Panic \<Rightarrow> (q, l, xs, Crashed)))"

section \<open>Composing parts\<close>

text \<open>The inner loop of \<open>compose_parts\<close>: cut a body at multiples of the preferred part size.\<close>

function split_body :: "crc_env \<Rightarrow> object_id \<Rightarrow> nat \<Rightarrow> nat \<Rightarrow> bytes \<Rightarrow> part list run" where
  "split_body E i alignment curr_offset body =
     (if body = [] then Done []
      else if alignment = 0 then Panic
      else let distance_to_align = alignment - curr_offset mod alignment;
               chunk_size = min distance_to_align (length body);
               part = part_new i curr_offset (cb_new E (take chunk_size body)) S3
           in and_then (split_body E i alignment (curr_offset + part_len part) (drop chunk_size body))
                (\<lambda>parts. Done (part # parts)))"
  by pat_completeness auto
termination
  by (relation "measure (\<lambda>(E, i, a, off, body). length body)") auto

declare split_body.simps [simp del]

text \<open>\<open>try_compose_parts\<close>: what is pushed to the part queue.\<close>

fun compose_parts :: "crc_env \<Rightarrow> object_id \<Rightarrow> nat \<Rightarrow> body_item list \<Rightarrow> item list run" where
  "compose_parts E i alignment [] = Done []"
| "compose_parts E i alignment (Inl e # xs) = Done [Inl e]"
| "compose_parts E i alignment (Inr body # xs) =
     and_then (split_body E i alignment (gp_offset body) (gp_data body)) (\<lambda>parts.
     and_then (compose_parts E i alignment xs) (\<lambda>rest. Done (map Inr parts @ rest)))"

section \<open>The client part stream\<close>

text \<open>What the environment contributes to the \<open>n\<close>-th spawned task: the window increments as the producer
  receives them, and the interleaving with the consumer.\<close>

record producer_env =
  pe_increments :: "nat \<Rightarrow> nat list \<times> (nat \<times> nat list) list \<times> bool"
  pe_sched :: "nat \<Rightarrow> nat list"

definition producer_queue :: "producer_env \<Rightarrow> nat \<Rightarrow> increment_queue" where
  "producer_queue P n = (case pe_increments P n of (now, later, closes) \<Rightarrow>
     \<lparr>iq_now = now, iq_later = later, iq_closes = closes\<rparr>)"

definition client_backpressure_config :: "request_task_config \<Rightarrow> backpressure_config" where
  "client_backpressure_config cfg =
     \<lparr>initial_read_window_size = rc_initial_read_window_size cfg,
      min_read_window_size = rc_read_part_size cfg,
      max_read_window_size = rc_max_read_window_size cfg,
      read_window_size_multiplier = rc_read_window_size_multiplier cfg,
      request_range_start = rr_offset (rc_range cfg),
      request_range_end = rr_end (rc_range cfg),
      read_window_alignment =
        AlignToPartSize (rr_offset (rc_range cfg) + rc_initial_request_size cfg) (rc_read_part_size cfg)\<rparr>"

definition client_task ::
  "crc_env \<Rightarrow> s3_client \<Rightarrow> producer_env \<Rightarrow> nat \<Rightarrow> backpressure_limiter \<Rightarrow> request_task_config \<Rightarrow> stream_outcome" where
  "client_task E C P n l cfg =
     (case read_from_client_stream C n (producer_queue P n) l (rc_bucket cfg) (rc_object_id cfg)
             (rr_offset (rc_range cfg) + rc_initial_request_size cfg) (rc_range cfg) of
        (q, l, xs, fin) \<Rightarrow>
          \<lparr>so_items = (case compose_parts E (rc_object_id cfg) (rc_preferred_part_size cfg) xs of Done ys \<Rightarrow> ys | _ \<Rightarrow> []),
           so_hangs_up = (fin \<noteq> Blocked), so_sched = pe_sched P n\<rparr>)"

definition client_spawn ::
  "crc_env \<Rightarrow> s3_client \<Rightarrow> producer_env \<Rightarrow> nat \<Rightarrow> mem_limiter \<Rightarrow> request_task_config \<Rightarrow>
     (mem_limiter \<times> request_task) run" where
  "client_spawn E C P n ml cfg =
     and_then (assert_that (0 < rc_preferred_part_size cfg)) (\<lambda>_.
       case new_backpressure_controller (client_backpressure_config cfg) ml of (ml, c, l) \<Rightarrow>
         Done (ml, from_handle (rc_range cfg) (unbounded_part_queue (client_task E C P n l cfg)) c))"

definition client_part_stream :: "crc_env \<Rightarrow> s3_client \<Rightarrow> producer_env \<Rightarrow> part_stream" where
  "client_part_stream E C P =
     \<lparr>ps_spawn = client_spawn E C P, ps_read_part_size = sc_read_part_size C,
      ps_initial_read_window_size = sc_initial_read_window_size C\<rparr>"

section \<open>What the client promises\<close>

text \<open>
  \<open>bodies_from obj a b xs\<close>: consecutive slices of the object from \<open>a\<close>, not beyond \<open>b\<close>, up to the first
  error. A faithful client answers a ranged request for the right version of the object in this way.
\<close>

fun bodies_from :: "bytes \<Rightarrow> nat \<Rightarrow> nat \<Rightarrow> ('e + get_body_part) list \<Rightarrow> bool" where
  "bodies_from obj a b [] \<longleftrightarrow> True"
| "bodies_from obj a b (Inl e # xs) \<longleftrightarrow> True"
| "bodies_from obj a b (Inr p # xs) \<longleftrightarrow> gp_offset p = a \<and> a + length (gp_data p) \<le> b \<and>
     gp_data p = seg obj a (a + length (gp_data p)) \<and> bodies_from obj (a + length (gp_data p)) b xs"

definition client_faithful :: "s3_client \<Rightarrow> object_id \<Rightarrow> bytes \<Rightarrow> bool" where
  "client_faithful C i obj \<longleftrightarrow> (\<forall>n bucket a b resp. a < b \<longrightarrow> b \<le> length obj \<longrightarrow>
     sc_get_object C n bucket (oid_key i) (a, b) (oid_etag i) = Inr resp \<longrightarrow> bodies_from obj a b (gr_parts resp))"

definition all_parts :: "('e + get_body_part) list \<Rightarrow> bool" where
  "all_parts xs \<longleftrightarrow> list_all (\<lambda>x. \<not> isl x) xs"

lemma all_parts_simps [simp]:
  "all_parts []" "all_parts (Inr p # xs) = all_parts xs" "\<not> all_parts (Inl e # xs)"
  "all_parts (xs @ ys) \<longleftrightarrow> all_parts xs \<and> all_parts ys"
  by (simp_all add: all_parts_def)

lemma current_offset_after_simps [simp]:
  "current_offset_after a [] = a" "current_offset_after a (Inl e # xs) = current_offset_after a xs"
  "current_offset_after a (Inr p # xs) = current_offset_after (gp_offset p + length (gp_data p)) xs"
  by (simp_all add: current_offset_after_def)

lemma bodies_end_le: "bodies_from obj a b xs \<Longrightarrow> all_parts xs \<Longrightarrow> a \<le> b \<Longrightarrow> current_offset_after a xs \<le> b"
  by (induction obj a b xs rule: bodies_from.induct) auto

lemma bodies_append:
  "bodies_from obj a b xs \<Longrightarrow> bodies_from obj (current_offset_after a xs) b' ys \<Longrightarrow> b \<le> b' \<Longrightarrow> all_parts xs \<Longrightarrow>
    bodies_from obj a b' (xs @ ys)"
  by (induction obj a b xs rule: bodies_from.induct) auto

lemma bodies_append_error:
  "bodies_from obj a b xs \<Longrightarrow> b \<le> b' \<Longrightarrow> bodies_from obj a b' (xs @ [Inl e])"
  by (induction obj a b xs rule: bodies_from.induct) auto

lemma bodies_mono: "bodies_from obj a b xs \<Longrightarrow> b \<le> b' \<Longrightarrow> bodies_from obj a b' xs"
  by (induction obj a b xs rule: bodies_from.induct) auto

lemma request_loop_ok:
  assumes "bodies_from obj a b parts" and "request_loop resp bucket key b q l win parts = (q', l', xs, fin)"
  shows "bodies_from obj a b xs \<and> (fin = Ended \<longrightarrow> all_parts xs)"
  using assms
proof (induction resp bucket key b q l win parts arbitrary: a xs rule: request_loop.induct)
  case (3 resp bucket key range_end q l win part rest)
  let ?next = "gp_offset part + length (gp_data part)"
  show ?case
  proof (cases "gp_offset part \<ge> win \<or> ?next = range_end")
    case True
    with 3 show ?thesis by (auto simp: yielding_def Let_def split: starvation.splits if_splits)
  next
    case False
    show ?thesis
    proof (cases "wait_for_read_window_increment q l ?next")
      case (Done t)
      obtain q1 l1 r where t: "t = (q1, l1, r)" by (cases t)
      show ?thesis
      proof (cases r)
        case (Inl e)
        with 3(4,3) False Done t show ?thesis by (auto simp: yielding_def Let_def)
      next
        case (Inr w)
        show ?thesis
        proof (cases w)
          case None
          with Done t Inr False 3(4) obtain ys where
            ys: "request_loop resp bucket key range_end q1 l1 win rest = (q', l', ys, fin)" "xs = Inr part # ys"
            by (auto simp: yielding_def Let_def split: prod.splits)
          with 3 False Done t Inr None show ?thesis by auto
        next
          case (Some w')
          with Done t Inr False 3(4) obtain ys where
            ys: "request_loop resp bucket key range_end q1 l1 (ensure_read_window win w') rest = (q', l', ys, fin)"
            "xs = Inr part # ys"
            by (auto simp: yielding_def Let_def split: prod.splits)
          with 3 False Done t Inr Some show ?thesis by auto
        qed
      qed
    qed (use 3 False in \<open>auto simp: yielding_def Let_def\<close>)
  qed
qed auto

lemma read_from_request_ok:
  assumes "client_faithful C i obj" and "a < b" and "b \<le> length obj"
    and "read_from_request C n q l bucket i (a, b) = (q', l', xs, fin)"
  shows "bodies_from obj a b xs \<and> (fin = Ended \<longrightarrow> all_parts xs)"
proof (cases "sc_get_object C n bucket (oid_key i) (a, b) (oid_etag i)")
  case (Inl e)
  with assms(4) show ?thesis by (auto simp: read_from_request_def)
next
  case (Inr resp)
  with assms(1-3) have "bodies_from obj a b (gr_parts resp)" unfolding client_faithful_def by blast
  with assms(4) Inr show ?thesis
    by (cases "gr_window resp") (auto simp: read_from_request_def dest: request_loop_ok)
qed

text \<open>The two requests join without a gap: the second starts where the first had to end.\<close>

lemma read_from_client_stream_ok:
  assumes C: "client_faithful C i obj" and r: "rr_end r \<le> length obj"
    and s: "read_from_client_stream C n q l bucket i e r = (q', l', xs, fin)"
  shows "bodies_from obj (rr_offset r) (rr_end r) xs"
proof -
  let ?f = "trim_end r e" and ?g = "trim_start r e"
  have fo: "rr_offset ?f = rr_offset r" and fe: "rr_end ?f = rr_offset ?g" and ge: "rr_end ?g = rr_end r"
    and fr: "rr_end ?f \<le> rr_end r" and le: "rr_offset r \<le> rr_end ?f"
    by (auto simp: trim_end_bounds trim_start_bounds rr_end_def [of r])
  obtain q1 l1 ys fin1 where f: "(if \<not> rr_is_empty ?f then read_from_request C (2 * n) q l bucket i (range_of ?f)
      else (q, l, [], Ended)) = (q1, l1, ys, fin1)"
    by (cases "if \<not> rr_is_empty ?f then read_from_request C (2 * n) q l bucket i (range_of ?f) else (q, l, [], Ended)")
  have ys: "bodies_from obj (rr_offset r) (rr_end ?f) ys \<and> (fin1 = Ended \<longrightarrow> all_parts ys)"
  proof (cases "rr_is_empty ?f")
    case True
    with f show ?thesis by auto
  next
    case False
    then have "rr_offset ?f < rr_end ?f" by (simp add: rr_is_empty_def rr_end_def)
    with read_from_request_ok [OF C this, of "2 * n"] f False fo fr r show ?thesis
      by (auto simp: range_of_def)
  qed
  then have ys': "bodies_from obj (rr_offset r) (rr_end r) ys" using fr bodies_mono by blast
  let ?cur = "current_offset_after (rr_offset r) ys"
  show ?thesis
  proof (cases "fin1 \<noteq> Ended \<or> rr_is_empty ?g \<or> ?cur < rr_offset ?g")
    case True
    with s f fo ys' show ?thesis
      by (auto simp: read_from_client_stream_def Let_def split: if_splits intro: bodies_append_error)
  next
    case False
    have "?cur \<le> rr_end ?f" using bodies_end_le ys False le by blast
    then have cur: "?cur = rr_offset ?g" using False fe by simp
    have ne: "rr_offset ?g < rr_end ?g" using False by (simp add: rr_is_empty_def rr_end_def)
    show ?thesis
    proof (cases "wait_for_read_window_increment q1 l1 (rr_offset ?g)")
      case (Done t)
      obtain q2 l2 res where t: "t = (q2, l2, res)" by (cases t)
      show ?thesis
      proof (cases res)
        case (Inl err)
        with s f fo False Done t ys' show ?thesis
          by (auto simp: read_from_client_stream_def Let_def intro: bodies_append_error)
      next
        case (Inr w)
        obtain q3 l3 zs fin3 where z: "read_from_request C (2 * n + 1) q2 l2 bucket i (range_of ?g) = (q3, l3, zs, fin3)"
          by (cases "read_from_request C (2 * n + 1) q2 l2 bucket i (range_of ?g)")
        have "xs = ys @ zs"
          using s f fo False Done t Inr z by (auto simp: read_from_client_stream_def Let_def)
        moreover have "bodies_from obj (rr_offset ?g) (rr_end r) zs"
          using read_from_request_ok [OF C ne, of "2 * n + 1"] z ge r by (auto simp: range_of_def)
        ultimately show ?thesis
          using bodies_append [of obj "rr_offset r" "rr_end ?f" ys] ys False fr cur by simp
      qed
    qed (use s f fo False ys' in \<open>auto simp: read_from_client_stream_def Let_def\<close>)
  qed
qed

lemma part_ok_new:
  assumes "data \<noteq> []" and "a + length data \<le> length obj" and "data = seg obj a (a + length data)"
  shows "part_ok E i obj (part_new i a (cb_new E data) src)"
  using assms by (simp add: part_ok_def part_new_def part_len_def part_data_def)

lemma split_body_ok:
  assumes "0 < al" and "a + length body \<le> length obj" and "body = seg obj a (a + length body)"
  shows "\<exists>parts. split_body E i al a body = Done parts \<and> parts_cover E i obj a parts (a + length body)"
  using assms(2,3)
proof (induction "length body" arbitrary: a body rule: less_induct)
  case less
  show ?case
  proof (cases "body = []")
    case True
    then show ?thesis by (subst split_body.simps) simp
  next
    case False
    define c where "c = min (al - a mod al) (length body)"
    have "a mod al < al" using assms(1) by simp
    then have c: "0 < c" "c \<le> length body" using False by (auto simp: c_def)
    let ?p = "part_new i a (cb_new E (take c body)) S3"
    have lp: "part_len ?p = c" using c by (simp add: part_new_def part_len_def)
    have tk: "take c body = seg obj a (a + c)"
      by (subst less.prems(2)) (use c in \<open>simp add: seg_take_drop\<close>)
    have dr: "drop c body = seg obj (a + c) (a + c + length (drop c body))"
      by (subst less.prems(2)) (use c in \<open>simp add: seg_take_drop\<close>)
    have lc: "length (take c body) = c" using c by simp
    have pok: "part_ok E i obj ?p"
    proof (rule part_ok_new)
      show "take c body = seg obj a (a + length (take c body))" unfolding lc by (rule tk)
    qed (use c less.prems(1) False in auto)
    have "length (drop c body) < length body" "a + c + length (drop c body) \<le> length obj"
      using c False less.prems(1) by auto
    from less.hyps [OF this dr] obtain parts where
      parts: "split_body E i al (a + c) (drop c body) = Done parts"
        "parts_cover E i obj (a + c) parts (a + c + length (drop c body))"
      by blast
    have e: "a + c + length (drop c body) = a + length body" using c by simp
    have "split_body E i al a body = Done (?p # parts)"
      using False assms(1) parts(1) lp by (subst split_body.simps) (simp add: Let_def c_def)
    with parts(2) [unfolded e] pok lp show ?thesis by (auto simp: part_new_def)
  qed
qed

lemma items_from_append:
  "parts_cover E i obj a parts b \<Longrightarrow> items_from E i obj b xs \<Longrightarrow> items_from E i obj a (map Inr parts @ xs)"
  by (induction parts arbitrary: a) auto

lemma compose_parts_ok:
  assumes "0 < al" and "b \<le> length obj" and "bodies_from obj a b xs"
  shows "\<exists>ys. compose_parts E i al xs = Done ys \<and> items_from E i obj a ys"
  using assms(3)
proof (induction xs arbitrary: a)
  case (Cons x xs)
  show ?case
  proof (cases x)
    case (Inr p)
    with Cons.prems have p: "gp_offset p = a" "a + length (gp_data p) \<le> length obj"
      "gp_data p = seg obj a (a + length (gp_data p))" "bodies_from obj (a + length (gp_data p)) b xs"
      using assms(2) by auto
    from split_body_ok [OF assms(1) p(2,3), where E = E and i = i] Cons.IH [OF p(4)] show ?thesis
      unfolding Inr by (auto simp: p(1) intro: items_from_append)
  qed simp
qed simp

lemma client_config_ok:
  assumes "task_config_ok i obj ps cfg" and "2 \<le> rc_read_part_size cfg"
  shows "config_ok (client_backpressure_config cfg)" and "rr_end (rc_range cfg) = length obj"
proof -
  have r: "rc_range cfg = rr_new (length obj) (rr_offset (rc_range cfg)) (length obj)"
    and off: "rr_offset (rc_range cfg) < length obj"
    using assms(1) by (simp_all add: task_config_ok_def)
  show "rr_end (rc_range cfg) = length obj"
    by (subst r) (use off in \<open>simp add: rr_new_end\<close>)
  then show "config_ok (client_backpressure_config cfg)"
    using assms by (auto simp: config_ok_def client_backpressure_config_def task_config_ok_def alignment_ok_def)
qed

text \<open>A task set up over a stream of good items satisfies the contract of the prefetcher.\<close>

lemma from_handle_ok:
  assumes cfg: "config_ok bcfg" "request_range_start bcfg = rr_offset r" "request_range_end bcfg = length obj"
    and r: "rr_end r = length obj"
    and new: "new_backpressure_controller bcfg ml = (ml', c, l)"
    and items: "items_from E i obj (rr_offset r) (so_items out)"
  shows "task_inv E i obj (from_handle r (unbounded_part_queue out) c) (rr_offset r)"
    and "bc_next_read (rt_controller (from_handle r (unbounded_part_queue out) c)) = rr_offset r"
    and "same_limits ml ml'"
    and "task_balance ml' (from_handle r (unbounded_part_queue out) c) (rr_offset r) = settled ml"
proof -
  note n = new_backpressure_controller_inv [OF cfg(1) new]
  have nle: "bc_next_read c \<le> bc_window_end c"
    using new by (auto simp: new_backpressure_controller_def Let_def)
  show "task_inv E i obj (from_handle r (unbounded_part_queue out) c) (rr_offset r)"
    using n nle cfg r items
    by (auto simp: task_inv_def from_handle_def unbounded_part_queue_def queue_live_def queue_items_def rr_end_def)
  show "bc_next_read (rt_controller (from_handle r (unbounded_part_queue out) c)) = rr_offset r"
    using n cfg by (simp add: from_handle_def)
  show "same_limits ml ml'" by (rule n(5))
  show "task_balance ml' (from_handle r (unbounded_part_queue out) c) (rr_offset r) = settled ml"
    using n(4,6) cfg nle by (simp add: task_balance_def from_handle_def of_nat_diff)
qed

text \<open>The client part stream over a faithful client is an object part stream.\<close>

lemma client_part_stream_ok:
  assumes "crc_laws E" and C: "client_faithful C i obj" and sz: "2 \<le> sc_read_part_size C"
    and w: "sc_initial_read_window_size C = Some v" "v \<noteq> 0"
  shows "object_part_stream E i obj (client_part_stream E C P)"
proof
  show "crc_laws E" by fact
  show "2 \<le> ps_read_part_size (client_part_stream E C P)"
    "\<exists>v. ps_initial_read_window_size (client_part_stream E C P) = Some v \<and> v \<noteq> 0"
    using sz w by (simp_all add: client_part_stream_def)
  fix cfg and ml :: mem_limiter and n
  assume cfg: "task_config_ok i obj (client_part_stream E C P) cfg"
  then have sz': "2 \<le> rc_read_part_size cfg" and oid: "rc_object_id cfg = i" and pref: "0 < rc_preferred_part_size cfg"
    using sz by (simp_all add: task_config_ok_def client_part_stream_def)
  note cc = client_config_ok [OF cfg sz']
  let ?off = "rr_offset (rc_range cfg)"
  obtain ml' c l where new: "new_backpressure_controller (client_backpressure_config cfg) ml = (ml', c, l)"
    by (cases "new_backpressure_controller (client_backpressure_config cfg) ml")
  obtain q' l' xs fin where s: "read_from_client_stream C n (producer_queue P n) l (rc_bucket cfg) i
      (?off + rc_initial_request_size cfg) (rc_range cfg) = (q', l', xs, fin)"
    by (cases "read_from_client_stream C n (producer_queue P n) l (rc_bucket cfg) i
      (?off + rc_initial_request_size cfg) (rc_range cfg)")
  have "bodies_from obj ?off (length obj) xs"
    using read_from_client_stream_ok [OF C _ s] cc(2) by simp
  from compose_parts_ok [OF pref _ this, where E = E and i = i] obtain ys where
    ys: "compose_parts E i (rc_preferred_part_size cfg) xs = Done ys" "items_from E i obj ?off ys" by auto
  have "items_from E i obj ?off (so_items (client_task E C P n l cfg))"
    using s ys by (simp add: client_task_def oid)
  note h = from_handle_ok [OF cc(1) _ _ cc(2) new this]
  show "\<exists>ml' t. ps_spawn (client_part_stream E C P) n ml cfg = Done (ml', t) \<and> task_inv E i obj t ?off \<and>
      bc_next_read (rt_controller t) = ?off \<and> same_limits ml ml' \<and> task_balance ml' t ?off = settled ml"
    using h cc(2) pref new by (auto simp: client_part_stream_def client_spawn_def client_backpressure_config_def)
qed

section \<open>Reliable clients\<close>

text \<open>
  A reliable client answers every valid ranged request completely. The increments are sufficient when the
  producer finds enough of them to open the window to the end of the request.
\<close>

definition client_reliable :: "s3_client \<Rightarrow> string \<Rightarrow> object_id \<Rightarrow> bytes \<Rightarrow> bool" where
  "client_reliable C bucket i obj \<longleftrightarrow> (\<forall>n a b. a < b \<longrightarrow> b \<le> length obj \<longrightarrow>
     (\<exists>resp win. sc_get_object C n bucket (oid_key i) (a, b) (oid_etag i) = Inr resp \<and> gr_window resp = Some win \<and>
       bodies_from obj a b (gr_parts resp) \<and> all_parts (gr_parts resp) \<and> current_offset_after a (gr_parts resp) = b))"

definition increments_suffice :: "producer_env \<Rightarrow> nat \<Rightarrow> bool" where
  "increments_suffice P k \<longleftrightarrow> (\<forall>n. k \<le> sum_list (fst (pe_increments P n)))"

definition supplied :: "nat \<Rightarrow> increment_queue \<Rightarrow> backpressure_limiter \<Rightarrow> bool" where
  "supplied k q l \<longleftrightarrow> bl_request_end l = k \<and> (k \<le> bl_window_end l \<or> k \<le> sum_list (iq_now q))"

lemma wait_supplied:
  assumes "supplied k q l" and "off < k"
  obtains q' l' r where "wait_for_read_window_increment q l off = Done (q', l', Inr r)" and "supplied k q' l'"
    and "off < bl_window_end l'" and "bl_window_end l \<le> bl_window_end l'"
    and "r = None \<or> r = Some (bl_window_end l')" and "r = None \<longrightarrow> bl_window_end l' = bl_window_end l"
proof (cases "bl_window_end l > off")
  case True
  show thesis
  proof (cases "0 < sum_list (iq_now q)")
    case pos: True
    show thesis
      by (rule that [of "q\<lparr>iq_now := []\<rparr>" "l\<lparr>bl_window_end := bl_window_end l + sum_list (iq_now q)\<rparr>"
            "Some (bl_window_end l + sum_list (iq_now q))"])
        (use True pos assms in \<open>auto simp: wait_for_read_window_increment_def try_recv_drain_def supplied_def Let_def\<close>)
  next
    case False
    have "k \<le> bl_window_end l" using assms False unfolding supplied_def by linarith
    then show thesis
      by (intro that [of "q\<lparr>iq_now := []\<rparr>" l None])
        (use True False assms in \<open>auto simp: wait_for_read_window_increment_def try_recv_drain_def supplied_def Let_def\<close>)
  qed
next
  case False
  with assms have lt: "bl_window_end l < bl_request_end l" and now: "k \<le> sum_list (iq_now q)"
    by (auto simp: supplied_def)
  with assms obtain x xs where x: "iq_now q = x # xs" by (cases "iq_now q") auto
  with now assms(2) have "off < bl_window_end l + sum_list (x # xs)" by simp
  note w = wait_loop_now [OF x _ lt this]
  with False x now assms show thesis
    by (intro that [of "q\<lparr>iq_now := []\<rparr>" "l\<lparr>bl_window_end := bl_window_end l + sum_list (x # xs)\<rparr>"
        "Some (bl_window_end l + sum_list (x # xs))"])
      (auto simp: wait_for_read_window_increment_def supplied_def)
qed

lemma request_loop_reach:
  assumes "bodies_from obj a b parts" and "all_parts parts" and "current_offset_after a parts = b" and "a < b" and "b \<le> k"
    and "a < win" and "bl_window_end l \<le> win" and "supplied k q l"
  shows "\<exists>q' l' xs. request_loop resp bucket key b q l win parts = (q', l', xs, Ended) \<and> all_parts xs \<and>
    current_offset_after a xs = b \<and> supplied k q' l'"
  using assms
proof (induction parts arbitrary: a q l win)
  case (Cons x parts)
  then obtain p where x: "x = Inr p" by (cases x) auto
  let ?next = "a + length (gp_data p)"
  have p: "gp_offset p = a" "?next \<le> b" "bodies_from obj ?next b parts" "all_parts parts" "current_offset_after ?next parts = b"
    using Cons.prems x by auto
  show ?case
  proof (cases "?next = b")
    case True
    with Cons.prems(6,8) p(1) x show ?thesis by (auto simp: yielding_def Let_def)
  next
    case False
    then have lt: "?next < b" "?next < k" using p(2) Cons.prems(5) by simp_all
    obtain q1 l1 r where w: "wait_for_read_window_increment q l ?next = Done (q1, l1, Inr r)" "supplied k q1 l1"
      "?next < bl_window_end l1" "bl_window_end l \<le> bl_window_end l1" "r = None \<or> r = Some (bl_window_end l1)"
      "r = None \<longrightarrow> bl_window_end l1 = bl_window_end l"
      by (rule wait_supplied [OF Cons.prems(8) lt(2)])
    let ?win = "case r of None \<Rightarrow> win | Some v \<Rightarrow> ensure_read_window win v"
    have win: "bl_window_end l1 \<le> ?win" "?next < ?win"
      using w(3-6) Cons.prems(7) by (auto simp: ensure_read_window_def)
    from Cons.IH [OF p(3,4,5) lt(1) Cons.prems(5) win(2,1) w(2)] obtain q' l' ys where
      ys: "request_loop resp bucket key b q1 l1 ?win parts = (q', l', ys, Ended)" "all_parts ys"
      "current_offset_after ?next ys = b" "supplied k q' l'"
      by blast
    have "request_loop resp bucket key b q l win (x # parts) = (q', l', Inr p # ys, Ended)"
      using x p(1) Cons.prems(6) False w(1) ys(1)
      by (cases r) (simp_all add: yielding_def Let_def)
    with ys p(1) show ?thesis by auto
  qed
qed simp

lemma read_from_request_reach:
  assumes "client_reliable C bucket i obj" and "a < b" and "b \<le> length obj" and "length obj \<le> k" and "supplied k q l" and "a < bl_window_end l"
  shows "\<exists>q' l' xs. read_from_request C n q l bucket i (a, b) = (q', l', xs, Ended) \<and> all_parts xs \<and>
    current_offset_after a xs = b \<and> supplied k q' l'"
proof -
  obtain resp win where r: "sc_get_object C n bucket (oid_key i) (a, b) (oid_etag i) = Inr resp" "gr_window resp = Some win"
    "bodies_from obj a b (gr_parts resp)" "all_parts (gr_parts resp)" "current_offset_after a (gr_parts resp) = b"
    using assms(1-3) unfolding client_reliable_def by blast
  have w: "a < ensure_read_window win (bl_window_end l)" "bl_window_end l \<le> ensure_read_window win (bl_window_end l)"
    using assms(6) by (auto simp: ensure_read_window_def)
  have "b \<le> k" using assms(3,4) by simp
  from request_loop_reach [OF r(3-5) assms(2) this w assms(5), of resp bucket "oid_key i"] r(1,2) show ?thesis
    by (simp add: read_from_request_def)
qed

lemma read_from_client_stream_reach:
  assumes C: "client_reliable C bucket i obj" and r: "rr_end r = length obj" "rr_offset r < length obj"
    and k: "length obj \<le> k" and sup: "supplied k q l" and w: "rr_offset r < bl_window_end l"
  shows "\<exists>q' l' xs. read_from_client_stream C n q l bucket i e r = (q', l', xs, Ended) \<and> all_parts xs \<and>
    current_offset_after (rr_offset r) xs = length obj"
proof -
  let ?f = "trim_end r e" and ?g = "trim_start r e"
  have fo: "rr_offset ?f = rr_offset r" and fe: "rr_end ?f = rr_offset ?g" and ge: "rr_end ?g = length obj"
    and fr: "rr_end ?f \<le> length obj" and le: "rr_offset r \<le> rr_end ?f"
    using r by (auto simp: trim_end_bounds trim_start_bounds)
  have "\<exists>q1 l1 ys. (if \<not> rr_is_empty ?f then read_from_request C (2 * n) q l bucket i (range_of ?f)
      else (q, l, [], Ended)) = (q1, l1, ys, Ended) \<and> all_parts ys \<and>
      current_offset_after (rr_offset r) ys = rr_offset ?g \<and> supplied k q1 l1"
  proof (cases "rr_is_empty ?f")
    case True
    then have "rr_offset ?g = rr_offset r" using fo fe by (simp add: rr_is_empty_def rr_end_def)
    with True sup show ?thesis by simp
  next
    case False
    then have "rr_offset r < rr_end ?f" using fo by (simp add: rr_is_empty_def rr_end_def)
    from read_from_request_reach [OF C this fr k sup w, of "2 * n"] False fo fe show ?thesis
      by (simp add: range_of_def)
  qed
  then obtain q1 l1 ys where f: "(if \<not> rr_is_empty ?f then read_from_request C (2 * n) q l bucket i (range_of ?f)
      else (q, l, [], Ended)) = (q1, l1, ys, Ended)" "all_parts ys"
      "current_offset_after (rr_offset r) ys = rr_offset ?g" "supplied k q1 l1"
    by blast
  show ?thesis
  proof (cases "rr_is_empty ?g")
    case True
    then have "rr_offset ?g = length obj" using ge by (simp add: rr_is_empty_def rr_end_def)
    with True f fo show ?thesis by (auto simp: read_from_client_stream_def Let_def)
  next
    case False
    then have lt: "rr_offset ?g < length obj" using ge by (simp add: rr_is_empty_def rr_end_def)
    then have "rr_offset ?g < k" using k by simp
    from wait_supplied [OF f(4) this] obtain q2 l2 x where
      w2: "wait_for_read_window_increment q1 l1 (rr_offset ?g) = Done (q2, l2, Inr x)" "supplied k q2 l2"
      "rr_offset ?g < bl_window_end l2" by metis
    from read_from_request_reach [OF C lt le_refl k w2(2,3), of "2 * n + 1"] obtain q3 l3 zs where
      z: "read_from_request C (2 * n + 1) q2 l2 bucket i (rr_offset ?g, length obj) = (q3, l3, zs, Ended)" "all_parts zs"
      "current_offset_after (rr_offset ?g) zs = length obj" by blast
    have "read_from_client_stream C n q l bucket i e r = (q3, l3, ys @ zs, Ended)"
      using f fo False w2(1) z(1) ge by (auto simp: read_from_client_stream_def Let_def range_of_def)
    moreover have "current_offset_after (rr_offset r) (ys @ zs) = length obj"
      using f(3) z(3) by (simp add: current_offset_after_def)
    ultimately show ?thesis using f(2) z(2) by simp
  qed
qed

lemma items_reach_append:
  "parts_cover E i obj a parts b \<Longrightarrow> items_reach b xs e \<Longrightarrow> items_reach a (map Inr parts @ xs) e"
  by (induction parts arbitrary: a) auto

lemma items_reach_empty: "items_reach a xs a"
  by (cases "(a, xs, a)" rule: items_reach.cases) auto

lemma compose_parts_reach:
  assumes "0 < al" and "b \<le> length obj" and "bodies_from obj a b xs" and "all_parts xs"
    and "compose_parts E i al xs = Done ys"
  shows "items_reach a ys (current_offset_after a xs)"
  using assms(3-)
proof (induction xs arbitrary: a ys)
  case (Cons x xs)
  then obtain p where x: "x = Inr p" by (cases x) auto
  with Cons.prems have p: "gp_offset p = a" "a + length (gp_data p) \<le> length obj"
    "gp_data p = seg obj a (a + length (gp_data p))" "bodies_from obj (a + length (gp_data p)) b xs"
    using assms(2) by auto
  from split_body_ok [OF assms(1) p(2,3), where E = E and i = i] obtain parts where
    parts: "split_body E i al a (gp_data p) = Done parts" "parts_cover E i obj a parts (a + length (gp_data p))" by blast
  with Cons.prems(3) x p(1) obtain zs where z: "compose_parts E i al xs = Done zs" "ys = map Inr parts @ zs"
    by (auto elim!: and_then_DoneE)
  have "items_reach (a + length (gp_data p)) zs (current_offset_after (a + length (gp_data p)) xs)"
    using Cons.IH [OF p(4) _ z(1)] Cons.prems(2) x by simp
  from items_reach_append [OF parts(2) this] show ?case unfolding z(2) x using p(1) by simp
qed simp

lemma client_part_stream_reliable:
  assumes crc: "crc_laws E" and F: "client_faithful C i obj" and C: "client_reliable C bucket i obj" and sz: "2 \<le> sc_read_part_size C"
    and w: "sc_initial_read_window_size C = Some v" "v \<noteq> 0" and P: "increments_suffice P (length obj)"
  shows "reliable_part_stream E i obj (client_part_stream E C P) bucket"
proof -
  note ok = client_part_stream_ok [OF crc F sz w, of P]
  show ?thesis
  proof (rule reliable_part_stream.intro [OF ok], unfold_locales)
    fix cfg and ml ml' :: mem_limiter and n t
    assume cfg: "task_config_ok i obj (client_part_stream E C P) cfg"
      and bucket: "rc_bucket cfg = bucket"
      and sp: "ps_spawn (client_part_stream E C P) n ml cfg = Done (ml', t)"
    have sz': "2 \<le> rc_read_part_size cfg" and oid: "rc_object_id cfg = i" and pref: "0 < rc_preferred_part_size cfg"
      and off: "rr_offset (rc_range cfg) < length obj"
      using cfg sz by (simp_all add: task_config_ok_def client_part_stream_def)
    note cc = client_config_ok [OF cfg sz']
    let ?off = "rr_offset (rc_range cfg)"
    obtain ml1 c l where new: "new_backpressure_controller (client_backpressure_config cfg) ml = (ml1, c, l)"
      by (cases "new_backpressure_controller (client_backpressure_config cfg) ml")
    have l: "?off < bl_window_end l" "bl_request_end l = length obj"
      using new cc cfg by (auto simp: new_backpressure_controller_def client_backpressure_config_def Let_def task_config_ok_def)
    have sup: "supplied (length obj) (producer_queue P n) l"
      using P l(2) by (auto simp: supplied_def increments_suffice_def producer_queue_def split: prod.splits)
        (metis fst_conv)
    from read_from_client_stream_reach [OF C cc(2) off le_refl sup l(1)] obtain q' l' xs where
      s: "read_from_client_stream C n (producer_queue P n) l bucket i (?off + rc_initial_request_size cfg) (rc_range cfg)
        = (q', l', xs, Ended)" "all_parts xs" "current_offset_after ?off xs = length obj" by blast
    have b: "bodies_from obj ?off (length obj) xs"
      using read_from_client_stream_ok [OF F _ s(1)] cc(2) by simp
    from compose_parts_ok [OF pref _ b, where E = E and i = i] obtain ys where
      ys: "compose_parts E i (rc_preferred_part_size cfg) xs = Done ys" by auto
    have "items_reach ?off (so_items (client_task E C P n l cfg)) (length obj)"
      using compose_parts_reach [OF pref _ b s(2) ys] s ys by (simp add: client_task_def oid bucket)
    then show "task_reach t ?off (length obj)"
      using sp pref new
      by (auto simp: client_part_stream_def client_spawn_def task_reach_def from_handle_def unbounded_part_queue_def queue_items_def)
  qed
qed

end
