(* ===== verification/Mock_Object.thy ===== *)
theory Mock_Object
  imports Part_Stream
begin

text \<open>
  The objects of the in-memory S3 client (\<open>MockObject\<close> of \<open>mountpoint-s3-client/src/mock_client.rs\<close>) with their
  checksums (\<open>Checksum\<close> and \<open>UploadChecksum\<close> of \<open>object_client.rs\<close>). An object is a generator of bytes and a
  size, so that tests can hold large objects without storing them. The hash functions and the base64
  encoding belong to other crates: they are the fields of the record \<open>D\<close>. Slicing out of range
  and unknown checksum algorithms are panics.
\<close>

section \<open>Checksums of objects\<close>

record digest_env =
  de_crc64nvme :: "bytes \<Rightarrow> bytes"
  de_crc32 :: "bytes \<Rightarrow> bytes"
  de_crc32c :: "bytes \<Rightarrow> bytes"
  de_sha1 :: "bytes \<Rightarrow> bytes"
  de_sha256 :: "bytes \<Rightarrow> bytes"
  de_base64 :: "bytes \<Rightarrow> string"
  de_md5_hex :: "bytes \<Rightarrow> string"

datatype checksum_algorithm = Crc64nvme | Crc32c | Crc32 | Sha1 | Sha256 | UnknownAlgorithm string

record checksum =
  ck_crc64nvme :: "string option"
  ck_crc32 :: "string option"
  ck_crc32c :: "string option"
  ck_sha1 :: "string option"
  ck_sha256 :: "string option"

datatype upload_checksum =
  UploadCrc64nvme bytes
| UploadCrc32c bytes
| UploadCrc32 bytes
| UploadSha1 bytes
| UploadSha256 bytes

definition checksum_empty :: checksum where
  "checksum_empty =
     \<lparr>ck_crc64nvme = None, ck_crc32 = None, ck_crc32c = None, ck_sha1 = None, ck_sha256 = None\<rparr>"

definition checksum_algorithms :: "checksum \<Rightarrow> checksum_algorithm list" where
  "checksum_algorithms c =
     (if ck_crc64nvme c \<noteq> None then [Crc64nvme] else []) @
     (if ck_crc32 c \<noteq> None then [Crc32] else []) @
     (if ck_crc32c c \<noteq> None then [Crc32c] else []) @
     (if ck_sha1 c \<noteq> None then [Sha1] else []) @
     (if ck_sha256 c \<noteq> None then [Sha256] else [])"

fun upload_checksum_algorithm :: "upload_checksum \<Rightarrow> checksum_algorithm" where
  "upload_checksum_algorithm (UploadCrc64nvme _) = Crc64nvme"
| "upload_checksum_algorithm (UploadCrc32c _) = Crc32c"
| "upload_checksum_algorithm (UploadCrc32 _) = Crc32"
| "upload_checksum_algorithm (UploadSha1 _) = Sha1"
| "upload_checksum_algorithm (UploadSha256 _) = Sha256"

definition checksum_of_upload :: "digest_env \<Rightarrow> upload_checksum option \<Rightarrow> checksum" where
  "checksum_of_upload D v = (case v of
     Some (UploadCrc64nvme d) \<Rightarrow> checksum_empty\<lparr>ck_crc64nvme := Some (de_base64 D d)\<rparr>
   | Some (UploadCrc32c d) \<Rightarrow> checksum_empty\<lparr>ck_crc32c := Some (de_base64 D d)\<rparr>
   | Some (UploadCrc32 d) \<Rightarrow> checksum_empty\<lparr>ck_crc32 := Some (de_base64 D d)\<rparr>
   | Some (UploadSha1 d) \<Rightarrow> checksum_empty\<lparr>ck_sha1 := Some (de_base64 D d)\<rparr>
   | Some (UploadSha256 d) \<Rightarrow> checksum_empty\<lparr>ck_sha256 := Some (de_base64 D d)\<rparr>
   | None \<Rightarrow> checksum_empty)"

fun add_checksum :: "digest_env \<Rightarrow> bytes \<Rightarrow> checksum_algorithm \<Rightarrow> checksum \<Rightarrow> checksum run" where
  "add_checksum D content Crc64nvme c = Done (c\<lparr>ck_crc64nvme := Some (de_base64 D (de_crc64nvme D content))\<rparr>)"
| "add_checksum D content Crc32 c = Done (c\<lparr>ck_crc32 := Some (de_base64 D (de_crc32 D content))\<rparr>)"
| "add_checksum D content Crc32c c = Done (c\<lparr>ck_crc32c := Some (de_base64 D (de_crc32c D content))\<rparr>)"
| "add_checksum D content Sha1 c = Done (c\<lparr>ck_sha1 := Some (de_base64 D (de_sha1 D content))\<rparr>)"
| "add_checksum D content Sha256 c = Done (c\<lparr>ck_sha256 := Some (de_base64 D (de_sha256 D content))\<rparr>)"
| "add_checksum D content (UnknownAlgorithm _) c = Panic"

fun compute_checksum_from :: "digest_env \<Rightarrow> bytes \<Rightarrow> checksum_algorithm list \<Rightarrow> checksum \<Rightarrow> checksum run" where
  "compute_checksum_from D content [] c = Done c"
| "compute_checksum_from D content (a # as) c =
     and_then (add_checksum D content a c) (\<lambda>c. compute_checksum_from D content as c)"

definition compute_checksum :: "digest_env \<Rightarrow> bytes \<Rightarrow> checksum_algorithm list \<Rightarrow> checksum run" where
  "compute_checksum D content algorithms = compute_checksum_from D content algorithms checksum_empty"

datatype put_object_error =
  PutNoSuchBucket
| PutNoSuchKey
| EmptyBody
| InvalidWriteOffset
| BadChecksum
| InvalidChecksumType
| PutPreconditionFailed
| NotImplemented

definition validate_checksum ::
  "digest_env \<Rightarrow> bytes \<Rightarrow> upload_checksum option \<Rightarrow> (put_object_error + checksum) run" where
  "validate_checksum D contents upload_checksum =
     (let algorithm = map_option upload_checksum_algorithm upload_checksum in
      and_then (compute_checksum D contents (case algorithm of None \<Rightarrow> [] | Some a \<Rightarrow> [a])) (\<lambda>content_checksum.
        let provided_checksum = checksum_of_upload D upload_checksum in
        Done (if provided_checksum \<noteq> content_checksum then Inl BadChecksum else Inr provided_checksum)))"

section \<open>Objects\<close>

datatype restore_status = InProgress | Restored nat

record mock_part_attributes =
  mpa_size :: nat
  mpa_checksum :: "string option"

datatype mock_object_parts = PartsCount nat | Parts "mock_part_attributes list"

record mock_object =
  mo_generator :: "nat \<Rightarrow> nat \<Rightarrow> bytes run"
  mo_size :: nat
  mo_storage_class :: "string option"
  mo_restore_status :: "restore_status option"
  mo_last_modified :: nat
  mo_etag :: string
  mo_parts :: "mock_object_parts option"
  mo_metadata :: "string \<rightharpoonup> string"
  mo_checksum :: checksum

text \<open>\<open>&bytes[offset..offset + size]\<close>.\<close>

definition slice_generator :: "bytes \<Rightarrow> nat \<Rightarrow> nat \<Rightarrow> bytes run" where
  "slice_generator bs offset sz =
     and_then (assert_that (offset + sz \<le> length bs)) (\<lambda>_. Done (seg bs offset (offset + sz)))"

definition mock_object_read :: "mock_object \<Rightarrow> nat \<Rightarrow> nat \<Rightarrow> bytes run" where
  "mock_object_read ob offset sz = (let read_size = mo_size ob - offset in mo_generator ob offset (min sz read_size))"

definition from_bytes :: "nat \<Rightarrow> bytes \<Rightarrow> string \<Rightarrow> mock_object" where
  "from_bytes now bs etag =
     \<lparr>mo_generator = slice_generator bs, mo_size = length bs, mo_storage_class = None, mo_restore_status = None,
      mo_last_modified = now, mo_etag = etag, mo_parts = None, mo_metadata = Map.empty, mo_checksum = checksum_empty\<rparr>"

definition object_from :: "digest_env \<Rightarrow> nat \<Rightarrow> bytes \<Rightarrow> mock_object" where
  "object_from D now bs = from_bytes now bs (de_md5_hex D bs)"

definition constant_object :: "nat \<Rightarrow> u8 \<Rightarrow> nat \<Rightarrow> string \<Rightarrow> mock_object" where
  "constant_object now v sz etag =
     \<lparr>mo_generator = (\<lambda>offset n. Done (replicate n v)), mo_size = sz, mo_storage_class = None, mo_restore_status = None,
      mo_last_modified = now, mo_etag = etag, mo_parts = None, mo_metadata = Map.empty, mo_checksum = checksum_empty\<rparr>"

definition ramp_modulus :: nat where
  "ramp_modulus = 251"

definition ramp_buffer_size :: nat where
  "ramp_buffer_size = 4 * 1024 * ramp_modulus"

definition ramp_bytes :: "nat \<Rightarrow> nat \<Rightarrow> bytes" where
  "ramp_bytes seed sz = map (\<lambda>i. of_nat ((seed + i) mod ramp_modulus)) [0..<sz]"

text \<open>The loop of the ramp generator copies pieces of one precomputed buffer.\<close>

function ramp_loop :: "nat \<Rightarrow> nat \<Rightarrow> bytes run" where
  "ramp_loop offs sz =
     (if 0 < sz then
        let nbyte = min sz ramp_buffer_size in
        and_then (slice_generator (ramp_bytes 0 (ramp_buffer_size + ramp_modulus)) offs nbyte) (\<lambda>chunk.
        and_then (ramp_loop offs (sz - nbyte)) (\<lambda>rest. Done (chunk @ rest)))
      else Done [])"
  by pat_completeness auto
termination
  by (relation "measure snd") (auto simp: ramp_buffer_size_def ramp_modulus_def)

declare ramp_loop.simps [simp del]

definition ramp_object :: "nat \<Rightarrow> u8 \<Rightarrow> nat \<Rightarrow> string \<Rightarrow> mock_object" where
  "ramp_object now seed sz etag =
     \<lparr>mo_generator = (\<lambda>offset n. ramp_loop ((offset + unat seed) mod ramp_modulus) n), mo_size = sz,
      mo_storage_class = None, mo_restore_status = None, mo_last_modified = now, mo_etag = etag,
      mo_parts = None, mo_metadata = Map.empty, mo_checksum = checksum_empty\<rparr>"

definition with_computed_checksums ::
  "digest_env \<Rightarrow> mock_object \<Rightarrow> checksum_algorithm list \<Rightarrow> mock_object run" where
  "with_computed_checksums D ob algorithms =
     and_then (mock_object_read ob 0 (mo_size ob)) (\<lambda>content.
     and_then (compute_checksum D content algorithms) (\<lambda>c. Done (ob\<lparr>mo_checksum := c\<rparr>)))"

definition object_append :: "digest_env \<Rightarrow> nat \<Rightarrow> mock_object \<Rightarrow> bytes \<Rightarrow> mock_object run" where
  "object_append D now ob bs =
     and_then (mock_object_read ob 0 (mo_size ob)) (\<lambda>old.
     let new_bytes = old @ bs in
     and_then (compute_checksum D new_bytes (checksum_algorithms (mo_checksum ob))) (\<lambda>new_checksum.
       Done (ob\<lparr>mo_size := length new_bytes, mo_generator := slice_generator new_bytes, mo_last_modified := now,
                mo_etag := de_md5_hex D new_bytes, mo_checksum := new_checksum, mo_parts := None\<rparr>)))"

section \<open>What an object contains\<close>

definition object_contains :: "mock_object \<Rightarrow> bytes \<Rightarrow> bool" where
  "object_contains ob bs \<longleftrightarrow> mo_size ob = length bs \<and>
     (\<forall>offset n. offset + n \<le> length bs \<longrightarrow> mo_generator ob offset n = Done (seg bs offset (offset + n)))"

lemma slice_generator_ok [simp]:
  "offset + n \<le> length bs \<Longrightarrow> slice_generator bs offset n = Done (seg bs offset (offset + n))"
  by (simp add: slice_generator_def)

lemma from_bytes_contains: "object_contains (from_bytes now bs etag) bs"
  by (simp add: object_contains_def from_bytes_def)

lemma object_contains_update [simp]:
  "object_contains (ob\<lparr>mo_storage_class := a\<rparr>) bs = object_contains ob bs"
  "object_contains (ob\<lparr>mo_metadata := b\<rparr>) bs = object_contains ob bs"
  "object_contains (ob\<lparr>mo_checksum := c\<rparr>) bs = object_contains ob bs"
  "object_contains (ob\<lparr>mo_parts := d\<rparr>) bs = object_contains ob bs"
  by (simp_all add: object_contains_def)

text \<open>Reads are clipped at the end of the object.\<close>

lemma object_read_contains:
  assumes "object_contains ob bs" and "offset \<le> length bs"
  shows "mock_object_read ob offset n = Done (seg bs offset (min (offset + n) (length bs)))"
proof -
  have "offset + min n (length bs - offset) = min (offset + n) (length bs)" using assms(2) by auto
  with assms show ?thesis
    by (auto simp: mock_object_read_def object_contains_def Let_def)
qed

lemma constant_contains: "object_contains (constant_object now v sz etag) (replicate sz v)"
  by (auto simp: object_contains_def constant_object_def seg_def)

lemma seg_map_upt: "seg (map f [0..<n]) a (a + m) = map (\<lambda>i. f (a + i)) [0..<m]" if "a + m \<le> n"
  using that by (intro nth_equalityI) (auto simp: seg_def)

lemma length_ramp_bytes [simp]: "length (ramp_bytes s n) = n"
  by (simp add: ramp_bytes_def)

lemma ramp_bytes_seg: "a + m \<le> n \<Longrightarrow> seg (ramp_bytes s n) a (a + m) = ramp_bytes (s + a) m"
  by (simp add: ramp_bytes_def seg_map_upt add.assoc)

lemma ramp_bytes_cong: "s mod ramp_modulus = s' mod ramp_modulus \<Longrightarrow> ramp_bytes s n = ramp_bytes s' n"
  unfolding ramp_bytes_def by (metis (no_types, lifting) mod_add_cong)

lemma ramp_bytes_append: "ramp_bytes s (m + n) = ramp_bytes s m @ ramp_bytes (s + m) n"
  by (rule nth_equalityI) (auto simp: ramp_bytes_def nth_append)

lemma ramp_loop_ok: "offs < ramp_modulus \<Longrightarrow> ramp_loop offs n = Done (ramp_bytes offs n)"
proof (induction n rule: less_induct)
  case (less n)
  let ?m = "min n ramp_buffer_size"
  show ?case
  proof (cases "n = 0")
    case True
    then show ?thesis by (subst ramp_loop.simps) (simp add: ramp_bytes_def)
  next
    case False
    have lt: "n - ?m < n" using False by (simp add: ramp_buffer_size_def ramp_modulus_def)
    have piece: "slice_generator (ramp_bytes 0 (ramp_buffer_size + ramp_modulus)) offs ?m = Done (ramp_bytes offs ?m)"
      using less.prems by (simp add: ramp_bytes_seg)
    have "ramp_bytes offs n = ramp_bytes offs ?m @ ramp_bytes (offs + ?m) (n - ?m)"
      using ramp_bytes_append [of offs ?m "n - ?m"] by simp
    also have "ramp_bytes (offs + ?m) (n - ?m) = ramp_bytes offs (n - ?m)"
    proof (cases "n \<le> ramp_buffer_size")
      case True
      then show ?thesis by (simp add: ramp_bytes_def)
    next
      case False
      then have "?m = ramp_buffer_size" by simp
      then show ?thesis by (intro ramp_bytes_cong) (simp add: ramp_buffer_size_def)
    qed
    finally show ?thesis
      using False piece less.IH [OF lt less.prems] by (subst ramp_loop.simps) (simp add: Let_def)
  qed
qed

lemma ramp_contains: "object_contains (ramp_object now seed sz etag) (ramp_bytes (unat seed) sz)"
proof -
  have "ramp_loop ((offset + unat seed) mod ramp_modulus) n = Done (ramp_bytes (unat seed + offset) n)" for offset n
  proof -
    have "(offset + unat seed) mod ramp_modulus < ramp_modulus" by (simp add: ramp_modulus_def)
    from ramp_loop_ok [OF this, of n] show ?thesis
      using ramp_bytes_cong [of "(offset + unat seed) mod ramp_modulus" "unat seed + offset" n] by (simp add: add.commute)
  qed
  then show ?thesis by (simp add: object_contains_def ramp_object_def ramp_bytes_seg)
qed

text \<open>Computing a checksum only panics on an unknown algorithm, which no stored checksum names.\<close>

definition known_algorithm :: "checksum_algorithm \<Rightarrow> bool" where
  "known_algorithm a = (case a of UnknownAlgorithm _ \<Rightarrow> False | _ \<Rightarrow> True)"

lemma add_checksum_known: "known_algorithm a \<Longrightarrow> \<exists>c'. add_checksum D content a c = Done c'"
  by (cases a) (simp_all add: known_algorithm_def)

lemma compute_checksum_known:
  "list_all known_algorithm as \<Longrightarrow> \<exists>c'. compute_checksum_from D content as c = Done c'"
proof (induction as arbitrary: c)
  case (Cons a as)
  then obtain c1 where "add_checksum D content a c = Done c1" using add_checksum_known by fastforce
  with Cons show ?case by simp
qed simp

lemma algorithms_known: "list_all known_algorithm (checksum_algorithms c)"
  by (simp add: checksum_algorithms_def known_algorithm_def)

lemma object_append_contains:
  assumes "object_contains ob bs"
  obtains ob' where "object_append D now ob new = Done ob'" and "object_contains ob' (bs @ new)"
    and "mo_etag ob' = de_md5_hex D (bs @ new)"
proof -
  have size: "mo_size ob = length bs" using assms by (simp add: object_contains_def)
  then have "mock_object_read ob 0 (mo_size ob) = Done bs"
    using object_read_contains [OF assms, of 0 "length bs"] by simp
  moreover obtain c where "compute_checksum D (bs @ new) (checksum_algorithms (mo_checksum ob)) = Done c"
    using compute_checksum_known [OF algorithms_known] unfolding compute_checksum_def by blast
  ultimately show thesis
    by (intro that) (auto simp: object_append_def Let_def object_contains_def)
qed

text \<open>An upload without a checksum is always accepted; one with a checksum, exactly when it is the right one
  (the encoding of digests is injective).\<close>

lemma validate_checksum_none [simp]: "validate_checksum D contents None = Done (Inr checksum_empty)"
  by (simp add: validate_checksum_def compute_checksum_def checksum_of_upload_def)

fun upload_digest_ok :: "digest_env \<Rightarrow> bytes \<Rightarrow> upload_checksum \<Rightarrow> bool" where
  "upload_digest_ok D contents (UploadCrc64nvme d) \<longleftrightarrow> d = de_crc64nvme D contents"
| "upload_digest_ok D contents (UploadCrc32c d) \<longleftrightarrow> d = de_crc32c D contents"
| "upload_digest_ok D contents (UploadCrc32 d) \<longleftrightarrow> d = de_crc32 D contents"
| "upload_digest_ok D contents (UploadSha1 d) \<longleftrightarrow> d = de_sha1 D contents"
| "upload_digest_ok D contents (UploadSha256 d) \<longleftrightarrow> d = de_sha256 D contents"

lemma validate_checksum_some:
  assumes "inj (de_base64 D)"
  shows "validate_checksum D contents (Some u) =
    Done (if upload_digest_ok D contents u then Inr (checksum_of_upload D (Some u)) else Inl BadChecksum)"
  using injD [OF assms]
  by (cases u; simp add: validate_checksum_def compute_checksum_def checksum_of_upload_def checksum_empty_def)

lemma validate_checksum_total: "\<exists>r. validate_checksum D contents u = Done r"
proof (cases u)
  case (Some x)
  then show ?thesis by (cases x; simp add: validate_checksum_def compute_checksum_def Let_def)
qed simp

end
