(* ===== verification/Text.thy ===== *)
theory Text
  imports Prelude "HOL-Library.List_Lexorder" "HOL-Library.Char_ord"
begin

text \<open>
  The operations of Rust strings that the components use: \<open>starts_with\<close>, \<open>ends_with\<close>, \<open>split_once\<close>,
  \<open>strip_prefix\<close>, decimal printing and parsing. A string is the list of its characters;
  strings are ordered lexicographically, which is the order of their UTF-8 encodings.
\<close>

section \<open>Prefixes and suffixes\<close>

definition starts_with :: "string \<Rightarrow> string \<Rightarrow> bool" where
  "starts_with s p \<longleftrightarrow> take (length p) s = p"

definition ends_with :: "string \<Rightarrow> string \<Rightarrow> bool" where
  "ends_with s p \<longleftrightarrow> length p \<le> length s \<and> drop (length s - length p) s = p"

lemma starts_with_iff: "starts_with s p \<longleftrightarrow> (\<exists>t. s = p @ t)"
  unfolding starts_with_def by (metis append_eq_conv_conj)

lemma starts_with_append [simp]: "starts_with (p @ s) p"
  by (simp add: starts_with_def)

lemma starts_with_trans: "starts_with s p \<Longrightarrow> starts_with p q \<Longrightarrow> starts_with s q"
  by (auto simp: starts_with_iff)

lemma starts_with_same [simp]: "starts_with s s"
  by (simp add: starts_with_def)

lemma starts_with_Nil [simp]: "starts_with s []"
  by (simp add: starts_with_def)

lemma starts_with_le: "starts_with s p \<Longrightarrow> p \<le> s"
  by (auto simp: starts_with_iff list_le_def list_less_def lexord_append_rightI) (metis append_Nil2 lexord_append_rightI neq_Nil_conv)

text \<open>The strings with a given prefix are an interval of the order.\<close>

lemma take_mono: "(s :: 'a :: linorder list) \<le> t \<Longrightarrow> take n s \<le> take n t"
proof (induction n arbitrary: s t)
  case (Suc n)
  then show ?case by (cases s; cases t) auto
qed simp

lemma starts_with_between:
  assumes "starts_with a p" and "starts_with b p" and "a \<le> x" and "x \<le> b"
  shows "starts_with x p"
  using take_mono [OF assms(3), of "length p"] take_mono [OF assms(4), of "length p"] assms(1,2)
  by (simp add: starts_with_def)

section \<open>Splitting\<close>

fun split_once :: "string \<Rightarrow> string \<Rightarrow> (string \<times> string) option" where
  "split_once [] d = (if d = [] then Some ([], []) else None)"
| "split_once (c # s) d =
     (if starts_with (c # s) d then Some ([], drop (length d) (c # s))
      else map_option (\<lambda>(a, b). (c # a, b)) (split_once s d))"

lemma split_once_append: "split_once s d = Some (a, b) \<Longrightarrow> s = a @ d @ b"
proof (induction s d arbitrary: a b rule: split_once.induct)
  case (2 c s d)
  then show ?case by (auto split: if_splits simp: starts_with_iff)
qed (auto split: if_splits)

text \<open>The part before the delimiter only depends on the string up to the end of the delimiter.\<close>

lemma split_once_prefix:
  "split_once s d = Some (a, b) \<Longrightarrow> \<exists>b'. split_once (a @ d @ t) d = Some (a, b')"
proof (induction s d arbitrary: a b rule: split_once.induct)
  case (1 d)
  then show ?case by (cases t) (auto split: if_splits)
next
  case (2 c s d)
  show ?case
  proof (cases "starts_with (c # s) d")
    case True
    with 2 have "a = []" by simp
    moreover have "starts_with (d @ t) d" by simp
    ultimately show ?thesis by (cases "d @ t") auto
  next
    case False
    with 2(2) obtain a' where a: "a = c # a'" and s: "split_once s d = Some (a', b)" by auto
    from 2(1) [OF False s] obtain b' where b': "split_once (a' @ d @ t) d = Some (a', b')" by blast
    have "s = a' @ d @ b" using split_once_append [OF s] .
    with False have "\<not> starts_with (c # a' @ d @ t) d"
      by (simp add: starts_with_def take_Cons' split: if_splits)
    with b' a show ?thesis by simp
  qed
qed

section \<open>Decimal numbers\<close>

fun nat_to_string :: "nat \<Rightarrow> string" where
  "nat_to_string n =
     (if n < 10 then [char_of (48 + n)] else nat_to_string (n div 10) @ [char_of (48 + n mod 10)])"

declare nat_to_string.simps [simp del]

definition digit_value :: "char \<Rightarrow> nat option" where
  "digit_value c = (let v = of_char c :: nat in if 48 \<le> v \<and> v \<le> 57 then Some (v - 48) else None)"

fun parse_digits :: "nat \<Rightarrow> string \<Rightarrow> nat option" where
  "parse_digits acc [] = Some acc"
| "parse_digits acc (c # s) = (case digit_value c of
     None \<Rightarrow> None
   | Some d \<Rightarrow> let acc = 10 * acc + d in if acc \<le> u64_max then parse_digits acc s else None)"

text \<open>\<open>str::parse::<usize>\<close>: an optional plus sign, at least one digit, no overflow.\<close>

definition parse_usize :: "string \<Rightarrow> nat option" where
  "parse_usize s = (case s of
     [] \<Rightarrow> None
   | c # rest \<Rightarrow> if c = CHR ''+'' then (if rest = [] then None else parse_digits 0 rest) else parse_digits 0 s)"

lemma digit_value_char [simp]: "d < 10 \<Longrightarrow> digit_value (char_of (48 + d)) = Some d"
  by (simp add: digit_value_def)

lemma parse_digits_append:
  "parse_digits acc (s @ t) = (case parse_digits acc s of None \<Rightarrow> None | Some n \<Rightarrow> parse_digits n t)"
  by (induction acc s rule: parse_digits.induct) (auto simp: Let_def split: option.splits)

lemma parse_digits_print: "n \<le> u64_max \<Longrightarrow> parse_digits 0 (nat_to_string n) = Some n"
proof (induction n rule: nat_to_string.induct)
  case (1 n)
  show ?case
  proof (cases "n < 10")
    case True
    with 1(2) show ?thesis by (subst nat_to_string.simps) (simp add: Let_def)
  next
    case False
    then have "parse_digits 0 (nat_to_string (n div 10)) = Some (n div 10)" using 1 by simp
    with False 1(2) show ?thesis
      by (subst nat_to_string.simps) (simp add: parse_digits_append Let_def mult_div_mod_eq)
  qed
qed

lemma nat_to_string_first: "\<exists>d rest. d < (10 :: nat) \<and> nat_to_string n = char_of (48 + d) # rest"
proof (induction n rule: nat_to_string.induct)
  case (1 n)
  then show ?case
    by (cases "n < 10"; subst nat_to_string.simps) auto
qed

lemma parse_usize_print: "n \<le> u64_max \<Longrightarrow> parse_usize (nat_to_string n) = Some n"
proof -
  assume n: "n \<le> u64_max"
  obtain d :: nat and rest where d: "d < 10" "nat_to_string n = char_of (48 + d) # rest" using nat_to_string_first by blast
  have "char_of (48 + d) \<noteq> CHR ''+''"
  proof
    assume "char_of (48 + d) = CHR ''+''"
    then have "digit_value CHR ''+'' = Some d" using digit_value_char [OF d(1)] by simp
    then show False by (simp add: digit_value_def)
  qed
  with d parse_digits_print [OF n] show ?thesis by (simp add: parse_usize_def)
qed

end
