(* ===== verification/Mock_Client.thy ===== *)
theory Mock_Client
  imports Mock_Object Text "HOL-Library.RBT"
begin

text \<open>
  The in-memory S3 client (\<open>MockClient\<close> of \<open>mountpoint-s3-client/src/mock_client.rs\<close>), the reference
  implementation of the trait \<open>ObjectClient\<close> that the file system is tested against. The bucket is a
  \<open>BTreeMap\<close> from keys to objects, here a red-black tree. Keys are compared character by character,
  which is the order of their bytes. Every operation takes the state of the client and returns the new
  one. Time is the argument \<open>now\<close>, the hash functions are the argument \<open>D\<close>.
\<close>

section \<open>State\<close>

record mock_client_config =
  mcc_bucket :: string
  mcc_part_size :: nat
  mcc_unordered_list_seed :: "nat option"
  mcc_enable_backpressure :: bool
  mcc_initial_read_window_size :: nat
  mcc_enable_rename :: bool
  mcc_fail_on_non_aligned_read_window :: bool

datatype operation =
  OpDeleteObject | OpHeadObject | OpGetObject | OpGetObjectAttributes | OpListObjectsV2 | OpPutObject
| OpRenameObject | OpCopyObject | OpPutObjectSingle

record mock_client =
  mc_config :: mock_client_config
  mc_objects :: "(string, mock_object) rbt"
  mc_in_progress_uploads :: "string list"
  mc_operation_counts :: "operation \<Rightarrow> nat"
  mc_window_increment_failed :: bool

definition mock_client_new :: "mock_client_config \<Rightarrow> mock_client" where
  "mock_client_new config =
     \<lparr>mc_config = config, mc_objects = RBT.empty, mc_in_progress_uploads = [], mc_operation_counts = (\<lambda>_. 0),
      mc_window_increment_failed = False\<rparr>"

definition add_object :: "mock_client \<Rightarrow> string \<Rightarrow> mock_object \<Rightarrow> mock_client" where
  "add_object c key v = c\<lparr>mc_objects := RBT.insert key v (mc_objects c)\<rparr>"

definition remove_object :: "mock_client \<Rightarrow> string \<Rightarrow> mock_client" where
  "remove_object c key = c\<lparr>mc_objects := RBT.delete key (mc_objects c)\<rparr>"

definition remove_all_objects :: "mock_client \<Rightarrow> mock_client" where
  "remove_all_objects c = c\<lparr>mc_objects := RBT.empty\<rparr>"

definition object_count :: "mock_client \<Rightarrow> nat" where
  "object_count c = length (RBT.entries (mc_objects c))"

definition contains_key :: "mock_client \<Rightarrow> string \<Rightarrow> bool" where
  "contains_key c key \<longleftrightarrow> RBT.lookup (mc_objects c) key \<noteq> None"

definition contains_prefix :: "mock_client \<Rightarrow> string \<Rightarrow> bool" where
  "contains_prefix c pre = list_ex (\<lambda>k. starts_with k (pre @ ''/'')) (RBT.keys (mc_objects c))"

definition is_upload_in_progress :: "mock_client \<Rightarrow> string \<Rightarrow> bool" where
  "is_upload_in_progress c key \<longleftrightarrow> key \<in> set (mc_in_progress_uploads c)"

definition get_object_storage_class :: "mock_client \<Rightarrow> string \<Rightarrow> string + string option" where
  "get_object_storage_class c key = (case RBT.lookup (mc_objects c) key of
     Some ob \<Rightarrow> Inr (mo_storage_class ob) | None \<Rightarrow> Inl ''object not found'')"

definition restore_object :: "nat \<Rightarrow> mock_client \<Rightarrow> string \<Rightarrow> mock_client \<times> (string + unit)" where
  "restore_object now c key = (case RBT.lookup (mc_objects c) key of
     Some ob \<Rightarrow> (add_object c key (ob\<lparr>mo_restore_status := Some (Restored (now + 3600))\<rparr>), Inr ())
   | None \<Rightarrow> (c, Inl ''object not found''))"

definition is_object_restored :: "mock_client \<Rightarrow> string \<Rightarrow> string + bool" where
  "is_object_restored c key = (case RBT.lookup (mc_objects c) key of
     Some ob \<Rightarrow> Inr (case mo_restore_status ob of Some (Restored _) \<Rightarrow> True | _ \<Rightarrow> False)
   | None \<Rightarrow> Inl ''object not found'')"

definition inc_op_count :: "operation \<Rightarrow> mock_client \<Rightarrow> mock_client" where
  "inc_op_count op c =
     c\<lparr>mc_operation_counts := (mc_operation_counts c)(op := mc_operation_counts c op + 1)\<rparr>"

section \<open>GetObject\<close>

record mock_backpressure_handle =
  bh_read_window_end_offset :: nat
  bh_range_start :: nat
  bh_range_end :: nat
  bh_part_size :: nat
  bh_fail_on_non_aligned :: bool

record mock_get_object_response =
  mr_object :: mock_object
  mr_next_offset :: nat
  mr_length :: nat
  mr_part_size :: nat
  mr_handle :: "mock_backpressure_handle option"

text \<open>\<open>increment_read_window\<close> also returns whether the shared failure flag is to be raised.\<close>

definition mock_increment_read_window ::
  "mock_backpressure_handle \<Rightarrow> nat \<Rightarrow> (mock_backpressure_handle \<times> bool) run" where
  "mock_increment_read_window h len =
     (let end_offset = bh_read_window_end_offset h + len in
      and_then (checked_sub end_offset (bh_range_start h)) (\<lambda>relative_end.
        Done (h\<lparr>bh_read_window_end_offset := end_offset\<rparr>,
              bh_fail_on_non_aligned h \<and> end_offset < bh_range_end h \<and> \<not> bh_part_size h dvd relative_end)))"

definition mock_ensure_read_window ::
  "mock_backpressure_handle \<Rightarrow> nat \<Rightarrow> (mock_backpressure_handle \<times> bool) run" where
  "mock_ensure_read_window h desired = mock_increment_read_window h (desired - bh_read_window_end_offset h)"

definition mock_get_object ::
  "mock_client \<Rightarrow> string \<Rightarrow> string \<Rightarrow> (nat \<times> nat) option \<Rightarrow> string option \<Rightarrow>
     (mock_client \<times> (object_client_error + mock_get_object_response)) run" where
  "mock_get_object c bucket key rng if_match =
     (let c = inc_op_count OpGetObject c in
      if bucket \<noteq> mcc_bucket (mc_config c) then Done (c, Inl (ServiceError NoSuchBucket))
      else case RBT.lookup (mc_objects c) key of
        None \<Rightarrow> Done (c, Inl (ServiceError NoSuchKey))
      | Some ob \<Rightarrow>
          if if_match \<noteq> None \<and> the if_match \<noteq> mo_etag ob then Done (c, Inl (ServiceError PreconditionFailed))
          else if rng \<noteq> None \<and> (fst (the rng) \<ge> mo_size ob \<or> snd (the rng) > mo_size ob)
          then Done (c, Inl (ClientError (''invalid range, length='' @ nat_to_string (mo_size ob))))
          else and_then (case rng of Some (a, b) \<Rightarrow> and_then (checked_sub b a) (\<lambda>n. Done (a, n)) | None \<Rightarrow> Done (0, mo_size ob))
            (\<lambda>(next_offset, len).
               let handle = (if mcc_enable_backpressure (mc_config c)
                     then Some \<lparr>bh_read_window_end_offset = next_offset + mcc_initial_read_window_size (mc_config c),
                                bh_range_start = next_offset, bh_range_end = next_offset + len,
                                bh_part_size = mcc_part_size (mc_config c),
                                bh_fail_on_non_aligned = mcc_fail_on_non_aligned_read_window (mc_config c)\<rparr>
                     else None)
               in Done (c, Inr \<lparr>mr_object = ob, mr_next_offset = next_offset, mr_length = len,
                                mr_part_size = mcc_part_size (mc_config c), mr_handle = handle\<rparr>)))"

text \<open>\<open>poll_next\<close> of the response; \<open>failed\<close> is the failure flag that the client shares with its responses.\<close>

definition poll_next ::
  "bool \<Rightarrow> mock_get_object_response \<Rightarrow>
     (mock_get_object_response \<times> (object_client_error + get_body_part) option) run" where
  "poll_next failed r =
     (if mr_handle r \<noteq> None \<and> failed then Done (r, Some (Inl (ClientError ''read window increment failed'')))
      else if mr_length r = 0 then Done (r, None)
      else let next_read_size = min (mr_part_size r) (mr_length r) in
        if mr_handle r \<noteq> None \<and> mr_next_offset r \<ge> bh_read_window_end_offset (the (mr_handle r))
        then Done (r, Some (Inl (ClientError ''empty read window'')))
        else and_then (mock_object_read (mr_object r) (mr_next_offset r) next_read_size) (\<lambda>next_part.
          Done (r\<lparr>mr_next_offset := mr_next_offset r + next_read_size, mr_length := mr_length r - next_read_size\<rparr>,
                Some (Inr \<lparr>gp_offset = mr_next_offset r, gp_data = next_part\<rparr>))))"

text \<open>\<open>collect\<close>: read the whole body. It does not end when the part size is zero.\<close>

partial_function (option) collect_loop ::
  "bool \<Rightarrow> mock_get_object_response \<Rightarrow> nat option \<Rightarrow> bytes \<Rightarrow> (object_client_error + bytes) run option" where
  "collect_loop failed r next_offset body =
     (case poll_next failed r of
        Done (r, None) \<Rightarrow> Some (Done (Inr body))
      | Done (r, Some (Inl e)) \<Rightarrow> Some (Done (Inl e))
      | Done (r, Some (Inr part)) \<Rightarrow>
          if next_offset \<noteq> None \<and> gp_offset part \<noteq> the next_offset then Some Panic
          else collect_loop failed r (Some (gp_offset part + length (gp_data part))) (body @ gp_data part)
      | Panic \<Rightarrow> Some Panic
      | Pending \<Rightarrow> Some Pending)"

definition collect :: "bool \<Rightarrow> mock_get_object_response \<Rightarrow> (object_client_error + bytes) run option" where
  "collect failed r = collect_loop failed r None []"

section \<open>Writing\<close>

record put_single_params =
  pp_checksum :: "upload_checksum option"
  pp_storage_class :: "string option"
  pp_if_match :: "string option"
  pp_write_offset_bytes :: "nat option"
  pp_metadata :: "string \<rightharpoonup> string"

type_synonym put_result = "put_object_error + string"

definition new_object :: "digest_env \<Rightarrow> nat \<Rightarrow> put_single_params \<Rightarrow> bytes \<Rightarrow> checksum \<Rightarrow> mock_object" where
  "new_object D now params contents cks =
     (object_from D now contents)\<lparr>mo_storage_class := pp_storage_class params, mo_metadata := pp_metadata params,
        mo_checksum := cks\<rparr>"

definition append_object ::
  "digest_env \<Rightarrow> nat \<Rightarrow> mock_client \<Rightarrow> string \<Rightarrow> nat \<Rightarrow> put_single_params \<Rightarrow> bytes \<Rightarrow> (mock_client \<times> put_result) run" where
  "append_object D now c key offset params contents =
     (case RBT.lookup (mc_objects c) key of
        None \<Rightarrow>
          if offset \<noteq> 0 then Done (c, Inl PutNoSuchKey)
          else if pp_if_match params \<noteq> None then Done (c, Inl PutPreconditionFailed)
          else and_then (validate_checksum D contents (pp_checksum params)) (\<lambda>v. case v of
            Inl e \<Rightarrow> Done (c, Inl e)
          | Inr cks \<Rightarrow> let ob = new_object D now params contents cks
              in Done (add_object c key ob, Inr (mo_etag ob)))
      | Some ob \<Rightarrow>
          if pp_if_match params \<noteq> None \<and> mo_etag ob \<noteq> the (pp_if_match params) then Done (c, Inl PutPreconditionFailed)
          else if contents = [] \<and> mo_size ob \<noteq> 0 then Done (c, Inl EmptyBody)
          else if mo_size ob \<noteq> offset then Done (c, Inl InvalidWriteOffset)
          else let current_algorithms = checksum_algorithms (mo_checksum ob);
                   checksum_matches = (case pp_checksum params of
                       Some u \<Rightarrow> upload_checksum_algorithm u \<in> set current_algorithms
                     | None \<Rightarrow> current_algorithms = [])
               in if \<not> checksum_matches then Done (c, Inl InvalidChecksumType)
                  else and_then (validate_checksum D contents (pp_checksum params)) (\<lambda>v. case v of
                    Inl e \<Rightarrow> Done (c, Inl e)
                  | Inr _ \<Rightarrow> and_then (object_append D now ob contents) (\<lambda>ob.
                      Done (add_object c key ob, Inr (mo_etag ob)))))"

definition mock_put_object ::
  "digest_env \<Rightarrow> nat \<Rightarrow> mock_client \<Rightarrow> string \<Rightarrow> put_single_params \<Rightarrow> bytes \<Rightarrow> (mock_client \<times> put_result) run" where
  "mock_put_object D now c key params contents =
     (case pp_write_offset_bytes params of
        Some offset \<Rightarrow> append_object D now c key offset params contents
      | None \<Rightarrow> and_then (validate_checksum D contents (pp_checksum params)) (\<lambda>v. case v of
          Inl e \<Rightarrow> Done (c, Inl e)
        | Inr cks \<Rightarrow> let ob = new_object D now params contents cks
            in Done (add_object c key ob, Inr (mo_etag ob))))"

definition put_object_single ::
  "digest_env \<Rightarrow> nat \<Rightarrow> mock_client \<Rightarrow> string \<Rightarrow> string \<Rightarrow> put_single_params \<Rightarrow> bytes \<Rightarrow> (mock_client \<times> put_result) run" where
  "put_object_single D now c bucket key params contents =
     (let c = inc_op_count OpPutObjectSingle c in
      if bucket \<noteq> mcc_bucket (mc_config c) then Done (c, Inl PutNoSuchBucket)
      else mock_put_object D now c key params contents)"

section \<open>Streaming uploads\<close>

datatype trailing_checksums = TrailingEnabled | ReviewOnly | TrailingDisabled

record put_params =
  pm_trailing_checksums :: trailing_checksums
  pm_storage_class :: "string option"
  pm_metadata :: "string \<rightharpoonup> string"

record mock_put_request =
  pr_key :: string
  pr_buffer :: bytes
  pr_part_size :: nat
  pr_params :: put_params

record upload_review =
  ur_checksum_algorithm :: "checksum_algorithm option"
  ur_parts :: "mock_part_attributes list"

definition mock_put_object_request ::
  "mock_client \<Rightarrow> string \<Rightarrow> string \<Rightarrow> put_params \<Rightarrow> mock_client \<times> (put_object_error + mock_put_request)" where
  "mock_put_object_request c bucket key params =
     (let c = inc_op_count OpPutObject c in
      if bucket \<noteq> mcc_bucket (mc_config c) then (c, Inl PutNoSuchBucket)
      else (c\<lparr>mc_in_progress_uploads := List.insert key (mc_in_progress_uploads c)\<rparr>,
            Inr \<lparr>pr_key = key, pr_buffer = [], pr_part_size = mcc_part_size (mc_config c), pr_params = params\<rparr>))"

definition put_request_write :: "mock_put_request \<Rightarrow> bytes \<Rightarrow> mock_put_request" where
  "put_request_write r bs = r\<lparr>pr_buffer := pr_buffer r @ bs\<rparr>"

text \<open>\<open>slice::chunks\<close>, which panics on the chunk size zero.\<close>

function chunks :: "nat \<Rightarrow> 'a list \<Rightarrow> 'a list list" where
  "chunks n xs = (if n = 0 \<or> xs = [] then [] else take n xs # chunks n (drop n xs))"
  by pat_completeness auto
termination
  by (relation "measure (length \<circ> snd)") auto

declare chunks.simps [simp del]

definition put_request_parts :: "digest_env \<Rightarrow> mock_put_request \<Rightarrow> mock_part_attributes list run" where
  "put_request_parts D r =
     and_then (assert_that (pr_part_size r \<noteq> 0)) (\<lambda>_.
       Done (map (\<lambda>part. \<lparr>mpa_size = length part,
           mpa_checksum = (if pm_trailing_checksums (pr_params r) \<noteq> TrailingDisabled
             then Some (de_base64 D (de_crc32c D part)) else None)\<rparr>) (chunks (pr_part_size r) (pr_buffer r))))"

definition bytes_of_string :: "string \<Rightarrow> bytes" where
  "bytes_of_string s = map (\<lambda>c. of_nat (of_char c)) s"

definition compute_crc32c_of_crc32c_checksums :: "digest_env \<Rightarrow> string list \<Rightarrow> string" where
  "compute_crc32c_of_crc32c_checksums D individual =
     de_base64 D (de_crc32c D (concat (map bytes_of_string individual))) @ ''-'' @ nat_to_string (length individual)"

text \<open>Completing consumes the request, so its \<open>Drop\<close> follows.\<close>

definition put_request_drop :: "mock_client \<Rightarrow> mock_put_request \<Rightarrow> mock_client" where
  "put_request_drop c r = c\<lparr>mc_in_progress_uploads := removeAll (pr_key r) (mc_in_progress_uploads c)\<rparr>"

definition complete_inner ::
  "digest_env \<Rightarrow> nat \<Rightarrow> mock_client \<Rightarrow> mock_put_request \<Rightarrow> mock_part_attributes list \<Rightarrow> (mock_client \<times> put_result) run" where
  "complete_inner D now c r parts =
     (let ob = (object_from D now (pr_buffer r))\<lparr>mo_storage_class := pm_storage_class (pr_params r),
                 mo_metadata := pm_metadata (pr_params r)\<rparr> in
      and_then
        (if pm_trailing_checksums (pr_params r) = TrailingEnabled
         then and_then (assert_that (\<forall>p \<in> set parts. mpa_checksum p \<noteq> None)) (\<lambda>_.
                Done (ob\<lparr>mo_checksum := checksum_empty\<lparr>ck_crc32c :=
                           Some (compute_crc32c_of_crc32c_checksums D (map (the \<circ> mpa_checksum) parts))\<rparr>,
                         mo_parts := Some (Parts parts)\<rparr>))
         else Done (ob\<lparr>mo_parts := Some (PartsCount (length parts))\<rparr>)) (\<lambda>ob.
        Done (put_request_drop (add_object c (pr_key r) ob) r, Inr (mo_etag ob))))"

definition put_request_complete ::
  "digest_env \<Rightarrow> nat \<Rightarrow> mock_client \<Rightarrow> mock_put_request \<Rightarrow> (mock_client \<times> put_result) run" where
  "put_request_complete D now c r = and_then (put_request_parts D r) (\<lambda>parts. complete_inner D now c r parts)"

datatype review_error = UploadReviewFailed | CompleteFailed put_object_error

definition review_and_complete ::
  "digest_env \<Rightarrow> nat \<Rightarrow> mock_client \<Rightarrow> mock_put_request \<Rightarrow> (upload_review \<Rightarrow> bool) \<Rightarrow>
     (mock_client \<times> (review_error + string)) run" where
  "review_and_complete D now c r review_callback =
     (let algorithm = (if pm_trailing_checksums (pr_params r) \<noteq> TrailingDisabled then Some Crc32c else None) in
      and_then (put_request_parts D r) (\<lambda>parts.
        if \<not> review_callback \<lparr>ur_checksum_algorithm = algorithm, ur_parts = parts\<rparr>
        then Done (put_request_drop c r, Inl UploadReviewFailed)
        else and_then (complete_inner D now c r parts) (\<lambda>(c, res).
          Done (c, case res of Inl e \<Rightarrow> Inl (CompleteFailed e) | Inr etag \<Rightarrow> Inr etag))))"

section \<open>The other operations on single objects\<close>

record head_object_result =
  hr_size :: nat
  hr_last_modified :: nat
  hr_etag :: string
  hr_storage_class :: "string option"
  hr_restore_status :: "restore_status option"
  hr_checksum :: checksum

datatype head_object_error = HeadNotFound

definition head_object ::
  "mock_client \<Rightarrow> string \<Rightarrow> string \<Rightarrow> bool \<Rightarrow> mock_client \<times> (head_object_error + head_object_result)" where
  "head_object c bucket key checksum_mode =
     (let c = inc_op_count OpHeadObject c in
      if bucket \<noteq> mcc_bucket (mc_config c) then (c, Inl HeadNotFound)
      else case RBT.lookup (mc_objects c) key of
        None \<Rightarrow> (c, Inl HeadNotFound)
      | Some ob \<Rightarrow> (c, Inr \<lparr>hr_size = mo_size ob, hr_last_modified = mo_last_modified ob, hr_etag = mo_etag ob,
            hr_storage_class = mo_storage_class ob, hr_restore_status = mo_restore_status ob,
            hr_checksum = (if checksum_mode then mo_checksum ob else checksum_empty)\<rparr>))"

datatype delete_object_error = DeleteNoSuchBucket

definition delete_object :: "mock_client \<Rightarrow> string \<Rightarrow> string \<Rightarrow> mock_client \<times> (delete_object_error + unit)" where
  "delete_object c bucket key =
     (let c = inc_op_count OpDeleteObject c in
      if bucket \<noteq> mcc_bucket (mc_config c) then (c, Inl DeleteNoSuchBucket)
      else (remove_object c key, Inr ()))"

datatype copy_object_error = CopyNotFound | ObjectNotInActiveTierError

definition copy_object ::
  "mock_client \<Rightarrow> string \<Rightarrow> string \<Rightarrow> string \<Rightarrow> string \<Rightarrow> mock_client \<times> (copy_object_error + unit)" where
  "copy_object c source_bucket source_key destination_bucket destination_key =
     (if destination_bucket \<noteq> mcc_bucket (mc_config c) \<and> source_bucket \<noteq> mcc_bucket (mc_config c)
      then (c, Inl CopyNotFound)
      else case RBT.lookup (mc_objects c) source_key of
        Some ob \<Rightarrow> (add_object c destination_key ob, Inr ())
      | None \<Rightarrow> (c, Inl CopyNotFound))"

record rename_object_params =
  rp_if_none_match :: "string option"
  rp_if_match :: "string option"
  rp_if_source_match :: "string option"

datatype rename_precondition = IfMatch | IfNoneMatch | OtherPrecondition

datatype rename_object_error =
  RenameNoSuchBucket | KeyTooLong | KeyNotFound | PreConditionFailed rename_precondition
| NotImplementedError | InternalError | AccessDenied | BadRequest

definition rename_object ::
  "mock_client \<Rightarrow> string \<Rightarrow> string \<Rightarrow> string \<Rightarrow> rename_object_params \<Rightarrow> mock_client \<times> (rename_object_error + unit)" where
  "rename_object c bucket src_key dst_key params =
     (let c = inc_op_count OpRenameObject c; objects = mc_objects c in
      if \<not> mcc_enable_rename (mc_config c) then (c, Inl NotImplementedError)
      else if bucket \<noteq> mcc_bucket (mc_config c) then (c, Inl RenameNoSuchBucket)
      else if length dst_key > 1024 then (c, Inl KeyTooLong)
      else if RBT.lookup objects dst_key \<noteq> None \<and> rp_if_none_match params = Some ''*''
        then (c, Inl (PreConditionFailed IfNoneMatch))
      else if rp_if_match params \<noteq> None \<and> RBT.lookup objects dst_key \<noteq> None \<and>
          the (rp_if_match params) \<noteq> mo_etag (the (RBT.lookup objects dst_key))
        then (c, Inl (PreConditionFailed IfMatch))
      else if rp_if_source_match params \<noteq> None \<and> RBT.lookup objects src_key \<noteq> None \<and>
          the (rp_if_source_match params) \<noteq> mo_etag (the (RBT.lookup objects src_key))
        then (c, Inl (PreConditionFailed IfMatch))
      else case RBT.lookup objects src_key of
        None \<Rightarrow> (c, Inl KeyNotFound)
      | Some removed \<Rightarrow> (c\<lparr>mc_objects := RBT.insert dst_key removed (RBT.delete src_key objects)\<rparr>, Inr ()))"

datatype object_attribute = AttrETag | AttrChecksum | AttrObjectParts | AttrStorageClass | AttrObjectSize

record object_part =
  op_checksum :: "checksum option"
  op_part_number :: nat
  op_size :: nat

record attributes_parts =
  ap_is_truncated :: "bool option"
  ap_max_parts :: "nat option"
  ap_next_part_number_marker :: "nat option"
  ap_part_number_marker :: "nat option"
  ap_parts :: "object_part list option"
  ap_total_parts_count :: "nat option"

record attributes_result =
  ar_etag :: "string option"
  ar_checksum :: "checksum option"
  ar_object_parts :: "attributes_parts option"
  ar_storage_class :: "string option"
  ar_object_size :: "nat option"

datatype attributes_error = AttrNoSuchBucket | AttrNoSuchKey

definition attributes_of_parts :: "mock_object_parts \<Rightarrow> attributes_parts" where
  "attributes_of_parts ps = (case ps of
     PartsCount n \<Rightarrow> \<lparr>ap_is_truncated = None, ap_max_parts = None, ap_next_part_number_marker = None,
       ap_part_number_marker = None, ap_parts = None, ap_total_parts_count = Some n\<rparr>
   | Parts parts \<Rightarrow> \<lparr>ap_is_truncated = Some False, ap_max_parts = Some 10000,
       ap_next_part_number_marker = Some (length parts), ap_part_number_marker = Some 0,
       ap_parts = Some (map (\<lambda>(i, part). \<lparr>op_checksum = Some (checksum_empty\<lparr>ck_crc32c := mpa_checksum part\<rparr>),
         op_part_number = i + 1, op_size = mpa_size part\<rparr>) (enumerate 0 parts)),
       ap_total_parts_count = Some (length parts)\<rparr>)"

fun set_attribute :: "mock_object \<Rightarrow> object_attribute \<Rightarrow> attributes_result \<Rightarrow> attributes_result" where
  "set_attribute ob AttrETag r = r\<lparr>ar_etag := Some (mo_etag ob)\<rparr>"
| "set_attribute ob AttrChecksum r = r\<lparr>ar_checksum := Some (mo_checksum ob)\<rparr>"
| "set_attribute ob AttrObjectParts r = r\<lparr>ar_object_parts := map_option attributes_of_parts (mo_parts ob)\<rparr>"
| "set_attribute ob AttrStorageClass r = r\<lparr>ar_storage_class := mo_storage_class ob\<rparr>"
| "set_attribute ob AttrObjectSize r = r\<lparr>ar_object_size := Some (mo_size ob)\<rparr>"

definition get_object_attributes ::
  "mock_client \<Rightarrow> string \<Rightarrow> string \<Rightarrow> object_attribute list \<Rightarrow> mock_client \<times> (attributes_error + attributes_result)" where
  "get_object_attributes c bucket key attributes =
     (let c = inc_op_count OpGetObjectAttributes c in
      if bucket \<noteq> mcc_bucket (mc_config c) then (c, Inl AttrNoSuchBucket)
      else case RBT.lookup (mc_objects c) key of
        None \<Rightarrow> (c, Inl AttrNoSuchKey)
      | Some ob \<Rightarrow> (c, Inr (fold (set_attribute ob) attributes
          \<lparr>ar_etag = None, ar_checksum = None, ar_object_parts = None, ar_storage_class = None, ar_object_size = None\<rparr>)))"

end
