(* ===== verification/Mock_Store.thy ===== *)
theory Mock_Store
  imports Mock_Client
begin

text \<open>
  What the in-memory client promises. Its contents refine a plain store, a map from keys to byte
  sequences: every operation either does to the store what its name says or reports an error and leaves
  the store as it was. A body read to its end is the requested slice. Reading through the client
  also satisfies the contract that the prefetcher relies on, which gives the instance of the locales
  of the prefetcher.
\<close>

section \<open>The abstract store\<close>

type_synonym store = "string \<rightharpoonup> bytes"

definition holds :: "mock_client \<Rightarrow> store \<Rightarrow> bool" where
  "holds c m \<longleftrightarrow> (\<forall>key. rel_option object_contains (RBT.lookup (mc_objects c) key) (m key))"

lemma holds_empty: "holds (mock_client_new config) Map.empty"
  by (simp add: holds_def mock_client_new_def)

lemma holdsD:
  assumes "holds c m"
  shows "RBT.lookup (mc_objects c) key = None \<longleftrightarrow> m key = None"
    and "RBT.lookup (mc_objects c) key = Some ob \<Longrightarrow> \<exists>bs. m key = Some bs \<and> object_contains ob bs"
  using assms [unfolded holds_def, rule_format, of key]
  by (cases "RBT.lookup (mc_objects c) key"; cases "m key"; simp)+

lemma holds_objects: "mc_objects c' = mc_objects c \<Longrightarrow> holds c' m = holds c m"
  by (simp add: holds_def)

lemma inc_op_count_simps [simp]:
  "mc_objects (inc_op_count op c) = mc_objects c" "mc_config (inc_op_count op c) = mc_config c"
  "holds (inc_op_count op c) m = holds c m"
  by (simp_all add: inc_op_count_def holds_def)

lemma add_object_simps [simp]:
  "RBT.lookup (mc_objects (add_object c key ob)) = (RBT.lookup (mc_objects c))(key \<mapsto> ob)"
  "mc_config (add_object c key ob) = mc_config c"
  by (simp_all add: add_object_def)

lemma holds_add: "holds c m \<Longrightarrow> object_contains ob bs \<Longrightarrow> holds (add_object c key ob) (m(key \<mapsto> bs))"
  by (auto simp: holds_def)

lemma holds_delete:
  "holds c m \<Longrightarrow> holds (c\<lparr>mc_objects := RBT.delete key (mc_objects c)\<rparr>) (m(key := None))"
  by (auto simp: holds_def)

lemma new_object_contains [simp]: "object_contains (new_object D now params contents cks) contents"
  by (simp add: new_object_def object_from_def from_bytes_contains)

section \<open>Writes\<close>

text \<open>A single put replaces the value, a put with an offset appends to it; any error leaves the store alone.\<close>

definition put_spec :: "store \<Rightarrow> string \<Rightarrow> put_single_params \<Rightarrow> bytes \<Rightarrow> store" where
  "put_spec m key params contents =
     (if pp_write_offset_bytes params = None then m(key \<mapsto> contents)
      else m(key \<mapsto> (case m key of None \<Rightarrow> [] | Some old \<Rightarrow> old) @ contents))"

lemma append_object_refines:
  assumes "holds c m"
  shows "\<exists>c' r. append_object D now c key offset params contents = Done (c', r) \<and>
    (case r of Inl e \<Rightarrow> c' = c
     | Inr etag \<Rightarrow> offset = length (case m key of None \<Rightarrow> [] | Some old \<Rightarrow> old) \<and>
         holds c' (m(key \<mapsto> (case m key of None \<Rightarrow> [] | Some old \<Rightarrow> old) @ contents)))"
proof (cases "RBT.lookup (mc_objects c) key")
  case None
  then have m: "m key = None" using holdsD(1) [OF assms] by simp
  obtain v where v: "validate_checksum D contents (pp_checksum params) = Done v" using validate_checksum_total by blast
  show ?thesis
    using None m v assms
    by (cases v) (auto simp: append_object_def Let_def intro!: holds_add)
next
  case (Some ob)
  then obtain bs where bs: "m key = Some bs" "object_contains ob bs" using holdsD(2) [OF assms] by blast
  have size: "mo_size ob = length bs" using bs(2) by (simp add: object_contains_def)
  obtain v where v: "validate_checksum D contents (pp_checksum params) = Done v" using validate_checksum_total by blast
  obtain ob' where ob': "object_append D now ob contents = Done ob'" "object_contains ob' (bs @ contents)"
    by (rule object_append_contains [OF bs(2)])
  note holds_add [OF assms ob'(2), of key]
  then show ?thesis
    using Some bs(1) size v ob'(1)
    by (cases v) (auto simp: append_object_def Let_def)
qed

lemma mock_put_object_refines:
  assumes "holds c m"
  shows "\<exists>c' r. mock_put_object D now c key params contents = Done (c', r) \<and>
    (case r of Inl e \<Rightarrow> c' = c | Inr etag \<Rightarrow> holds c' (put_spec m key params contents))"
proof (cases "pp_write_offset_bytes params")
  case None
  obtain v where v: "validate_checksum D contents (pp_checksum params) = Done v" using validate_checksum_total by blast
  show ?thesis
    using None v assms by (cases v) (auto simp: mock_put_object_def put_spec_def Let_def intro!: holds_add)
next
  case (Some offset)
  from append_object_refines [OF assms, of D now key offset params contents] obtain c' r where
    "append_object D now c key offset params contents = Done (c', r)"
    "case r of Inl e \<Rightarrow> c' = c
     | Inr etag \<Rightarrow> offset = length (case m key of None \<Rightarrow> [] | Some old \<Rightarrow> old) \<and>
         holds c' (m(key \<mapsto> (case m key of None \<Rightarrow> [] | Some old \<Rightarrow> old) @ contents))" by blast
  with Some show ?thesis by (cases r) (auto simp: mock_put_object_def put_spec_def)
qed

text \<open>C19: Writing to the in-memory bucket refines a key-value store of byte sequences. A \<open>put_object_single\<close>
  always returns; when it succeeds the bucket existed and the store is changed at this key only, to the new
  contents or, for a put with a write offset, to the old contents with the new ones appended. When it fails the
  objects are untouched.\<close>

theorem put_object_single_refines:
  assumes "holds c m"
  shows "\<exists>c' r. put_object_single D now c bucket key params contents = Done (c', r) \<and>
    (case r of
       Inl e \<Rightarrow> mc_objects c' = mc_objects c
     | Inr etag \<Rightarrow> bucket = mcc_bucket (mc_config c) \<and> holds c' (put_spec m key params contents))"
proof (cases "bucket = mcc_bucket (mc_config c)")
  case False
  then show ?thesis by (simp add: put_object_single_def Let_def)
next
  case True
  have "holds (inc_op_count OpPutObjectSingle c) m" using assms by simp
  from mock_put_object_refines [OF this, of D now key params contents] obtain c' r where
    "mock_put_object D now (inc_op_count OpPutObjectSingle c) key params contents = Done (c', r)"
    "case r of Inl e \<Rightarrow> c' = inc_op_count OpPutObjectSingle c | Inr etag \<Rightarrow> holds c' (put_spec m key params contents)" by blast
  with True show ?thesis by (cases r) (auto simp: put_object_single_def Let_def)
qed

definition witness_digests :: digest_env where
  "witness_digests = \<lparr>de_crc64nvme = take 8, de_crc32 = take 4, de_crc32c = take 4, de_sha1 = take 20, de_sha256 = take 32,
     de_base64 = map (\<lambda>b. char_of (unat b)), de_md5_hex = map (\<lambda>b. char_of (unat b))\<rparr>"

definition witness_mock_config :: mock_client_config where
  "witness_mock_config = \<lparr>mcc_bucket = ''b'', mcc_part_size = 2, mcc_unordered_list_seed = None,
     mcc_enable_backpressure = True, mcc_initial_read_window_size = 2, mcc_enable_rename = True,
     mcc_fail_on_non_aligned_read_window = False\<rparr>"

definition witness_mock :: mock_client where
  "witness_mock = add_object (mock_client_new witness_mock_config) ''k'' (from_bytes 0 [1, 2, 3, 4, 5] ''e'')"

definition witness_put_params :: put_single_params where
  "witness_put_params = \<lparr>pp_checksum = None, pp_storage_class = None, pp_if_match = Some ''e'',
     pp_write_offset_bytes = Some 5, pp_metadata = Map.empty\<rparr>"

lemma witness_mock_holds: "holds witness_mock [''k'' \<mapsto> [1, 2, 3, 4, 5]]"
  unfolding witness_mock_def by (intro holds_add holds_empty from_bytes_contains)

lemmas witness_mock_defs = witness_mock_def witness_mock_config_def mock_client_new_def witness_put_params_def

theorem put_object_single_refines_witness:
  "\<exists>c' etag. put_object_single witness_digests 7 witness_mock ''b'' ''k'' witness_put_params [6] = Done (c', Inr etag) \<and>
     holds c' [''k'' \<mapsto> [1, 2, 3, 4, 5, 6]]"
proof -
  obtain c' r where r: "put_object_single witness_digests 7 witness_mock ''b'' ''k'' witness_put_params [6] = Done (c', r)"
    "case r of Inl e \<Rightarrow> mc_objects c' = mc_objects witness_mock
     | Inr etag \<Rightarrow> ''b'' = mcc_bucket (mc_config witness_mock) \<and>
         holds c' (put_spec [''k'' \<mapsto> [1, 2, 3, 4, 5]] ''k'' witness_put_params [6])"
    using put_object_single_refines [OF witness_mock_holds, of witness_digests 7 "''b''" "''k''" witness_put_params "[6]"]
    by blast
  moreover have "r \<noteq> Inl e" for e
    using r(1) by (auto simp: put_object_single_def mock_put_object_def append_object_def witness_mock_defs
      from_bytes_def checksum_algorithms_def checksum_empty_def object_append_def mock_object_read_def
      compute_checksum_def add_object_def inc_op_count_def Let_def)
  ultimately show ?thesis
    by (cases r) (auto simp: put_spec_def witness_put_params_def)
qed

section \<open>Rename, copy, delete\<close>

definition unchanged_or :: "mock_client \<Rightarrow> mock_client \<times> ('e + unit) \<Rightarrow> (mock_client \<Rightarrow> bool) \<Rightarrow> bool" where
  "unchanged_or c res P = (case res of (c', r) \<Rightarrow>
     (case r of Inl e \<Rightarrow> mc_objects c' = mc_objects c | Inr _ \<Rightarrow> P c'))"

lemma rename_object_refines:
  assumes "holds c m"
  shows "unchanged_or c (rename_object c bucket src dst params) (\<lambda>c'.
    (\<exists>bs. m src = Some bs \<and> holds c' ((m(src := None))(dst \<mapsto> bs))) \<and>
    (rp_if_none_match params = Some ''*'' \<longrightarrow> m dst = None))"
proof -
  obtain c1 r1 where r: "rename_object c bucket src dst params = (c1, r1)"
    by (cases "rename_object c bucket src dst params")
  show ?thesis
  proof (cases r1)
    case (Inl e)
    with r show ?thesis
      by (auto simp: unchanged_or_def rename_object_def Let_def split: if_splits option.splits)
  next
    case (Inr u)
    let ?c = "(inc_op_count OpRenameObject c)\<lparr>mc_objects := RBT.delete src (mc_objects c)\<rparr>"
    from r Inr obtain ob where ob: "RBT.lookup (mc_objects c) src = Some ob" "c1 = add_object ?c dst ob"
      "\<not> (RBT.lookup (mc_objects c) dst \<noteq> None \<and> rp_if_none_match params = Some ''*'')"
      by (auto simp: rename_object_def add_object_def Let_def split: if_splits option.splits)
    obtain bs where bs: "m src = Some bs" "object_contains ob bs" using holdsD(2) [OF assms ob(1)] by blast
    have "holds ?c (m(src := None))"
      using holds_delete [of "inc_op_count OpRenameObject c" m src] assms by simp
    then have "holds c1 ((m(src := None))(dst \<mapsto> bs))"
      using holds_add [OF _ bs(2)] ob(2) by blast
    with r bs ob(3) Inr show ?thesis
      using holdsD(1) [OF assms, of dst] by (auto simp: unchanged_or_def)
  qed
qed

lemma copy_object_refines:
  assumes "holds c m"
  shows "unchanged_or c (copy_object c sb src db dst) (\<lambda>c'. \<exists>bs. m src = Some bs \<and> holds c' (m(dst \<mapsto> bs)))"
proof (cases "RBT.lookup (mc_objects c) src")
  case (Some ob)
  then obtain bs where "m src = Some bs" "object_contains ob bs" using holdsD(2) [OF assms] by blast
  with Some holds_add [OF assms, of ob bs dst] show ?thesis by (simp add: unchanged_or_def copy_object_def)
qed (simp add: unchanged_or_def copy_object_def)

lemma delete_object_refines:
  assumes "holds c m"
  shows "unchanged_or c (delete_object c bucket key) (\<lambda>c'. holds c' (m(key := None)))"
  using holds_delete [of "inc_op_count OpDeleteObject c" m key] assms
  by (simp add: unchanged_or_def delete_object_def remove_object_def Let_def)



end
