(* ===== verification/Mock_Reads.thy ===== *)
theory Mock_Reads
  imports Mock_Store
begin

text \<open>
  Reading from the in-memory client: the body of a response, polled to its end, is the requested slice of
  the object, and what was put is what a later get returns. Seen through the interface that the part
  stream uses, the client is faithful and reliable, so the locales of the prefetcher hold for
  a client part stream over it.
\<close>

section \<open>Bodies\<close>

definition response_ok :: "bytes \<Rightarrow> mock_get_object_response \<Rightarrow> bool" where
  "response_ok bs r \<longleftrightarrow> object_contains (mr_object r) bs \<and> mr_next_offset r + mr_length r \<le> length bs \<and> 0 < mr_part_size r"

definition window_open :: "mock_get_object_response \<Rightarrow> bool" where
  "window_open r \<longleftrightarrow> (case mr_handle r of
     None \<Rightarrow> True | Some h \<Rightarrow> mr_length r = 0 \<or> mr_next_offset r + mr_length r \<le> bh_read_window_end_offset h)"

definition advance :: "mock_get_object_response \<Rightarrow> mock_get_object_response" where
  "advance r = (let n = min (mr_part_size r) (mr_length r)
     in r\<lparr>mr_next_offset := mr_next_offset r + n, mr_length := mr_length r - n\<rparr>)"

lemma poll_next_ok:
  assumes ok: "response_ok bs r" and len: "0 < mr_length r"
    and win: "mr_handle r = None \<or> \<not> failed \<and> mr_next_offset r < bh_read_window_end_offset (the (mr_handle r))"
  shows "poll_next failed r = Done (advance r, Some (Inr \<lparr>gp_offset = mr_next_offset r,
    gp_data = seg bs (mr_next_offset r) (mr_next_offset (advance r))\<rparr>))"
proof -
  let ?n = "min (mr_part_size r) (mr_length r)"
  have "mock_object_read (mr_object r) (mr_next_offset r) ?n = Done (seg bs (mr_next_offset r) (mr_next_offset r + ?n))"
    using ok object_read_contains [of "mr_object r" bs "mr_next_offset r" ?n] min_absorb1 [of "mr_next_offset r + ?n" "length bs"]
    by (auto simp: response_ok_def)
  with len win show ?thesis by (auto simp: poll_next_def advance_def Let_def)
qed

lemma advance_ok:
  assumes "response_ok bs r" and "0 < mr_length r"
  shows "response_ok bs (advance r)" and "mr_length (advance r) < mr_length r"
    and "mr_next_offset (advance r) + mr_length (advance r) = mr_next_offset r + mr_length r"
    and "mr_handle (advance r) = mr_handle r" and "mr_next_offset r < mr_next_offset (advance r)"
  using assms by (auto simp: response_ok_def advance_def Let_def)

lemma collect_loop_ok:
  assumes "response_ok bs r" and "window_open r" and "\<not> failed" and "no = None \<or> no = Some (mr_next_offset r)"
  shows "collect_loop failed r no body =
    Some (Done (Inr (body @ seg bs (mr_next_offset r) (mr_next_offset r + mr_length r))))"
  using assms
proof (induction "mr_length r" arbitrary: r no body rule: less_induct)
  case less
  show ?case
  proof (cases "mr_length r = 0")
    case True
    then have "poll_next failed r = Done (r, None)" using less.prems(3) by (simp add: poll_next_def)
    then show ?thesis using True by (subst collect_loop.simps) simp
  next
    case False
    then have len: "0 < mr_length r" by simp
    note adv = advance_ok [OF less.prems(1) len]
    have "mr_handle r = None \<or> \<not> failed \<and> mr_next_offset r < bh_read_window_end_offset (the (mr_handle r))"
      using less.prems(2,3) len by (auto simp: window_open_def split: option.splits)
    note poll = poll_next_ok [OF less.prems(1) len this]
    let ?o = "mr_next_offset r" and ?o' = "mr_next_offset (advance r)"
    have ln: "length (seg bs ?o ?o') = ?o' - ?o"
      using adv(1) by (auto simp: response_ok_def length_seg)
    have win: "window_open (advance r)"
      using less.prems(2) adv(3,4) len by (auto simp: window_open_def split: option.splits)
    have next_ok: "?o + length (seg bs ?o ?o') = ?o'" using ln adv(5) by simp
    have "seg bs ?o ?o' @ seg bs ?o' (?o' + mr_length (advance r)) = seg bs ?o (?o + mr_length r)"
      using adv(3,5) seg_append [of ?o ?o' "?o + mr_length r" bs] by simp
    with less.hyps [OF adv(2,1) win less.prems(3), of "Some ?o'"] next_ok less.prems(4) show ?thesis
      by (subst collect_loop.simps) (auto simp: poll)
  qed
qed

lemma get_object_ok:
  assumes "holds c m" and "m key = Some bs" and "a \<le> b" and "a < length bs" and "b \<le> length bs"
    and etag: "RBT.lookup (mc_objects c) key = Some ob" "if_match = None \<or> if_match = Some (mo_etag ob)"
  obtains r where "mock_get_object c (mcc_bucket (mc_config c)) key (Some (a, b)) if_match = Done (inc_op_count OpGetObject c, Inr r)"
    and "mr_object r = ob" and "mr_next_offset r = a" and "mr_length r = b - a" and "mr_part_size r = mcc_part_size (mc_config c)"
    and "map_option bh_read_window_end_offset (mr_handle r) =
      (if mcc_enable_backpressure (mc_config c) then Some (a + mcc_initial_read_window_size (mc_config c)) else None)"
proof -
  have "object_contains ob bs" using holdsD(2) [OF assms(1) etag(1)] assms(2) by simp
  then have "mo_size ob = length bs" by (simp add: object_contains_def)
  with assms(3-5) etag show thesis
    by (intro that [of "\<lparr>mr_object = ob, mr_next_offset = a, mr_length = b - a, mr_part_size = mcc_part_size (mc_config c),
        mr_handle = (if mcc_enable_backpressure (mc_config c)
          then Some \<lparr>bh_read_window_end_offset = a + mcc_initial_read_window_size (mc_config c), bh_range_start = a,
            bh_range_end = a + (b - a), bh_part_size = mcc_part_size (mc_config c),
            bh_fail_on_non_aligned = mcc_fail_on_non_aligned_read_window (mc_config c)\<rparr>
          else None)\<rparr>"])
      (auto simp: mock_get_object_def Let_def)
qed

text \<open>C21: What is put is what is read back. After a \<open>put_object_single\<close> of \<open>contents\<close> that succeeds with an entity tag,
  a \<open>get_object\<close> of any non-empty range inside the contents that requires this entity tag succeeds, and reading its body to the
  end terminates with exactly that range of the contents, however large the parts are. With flow control
  enabled the initial window must span the range.\<close>

theorem put_then_get:
  assumes "holds c m" and "put_object_single D now c bucket key params contents = Done (c', Inr etag)"
    and "pp_write_offset_bytes params = None" and "0 < mcc_part_size (mc_config c)"
    and "a < b" and "b \<le> length contents" and "\<not> mc_window_increment_failed c"
    and "mcc_enable_backpressure (mc_config c) \<longrightarrow> b - a \<le> mcc_initial_read_window_size (mc_config c)"
  shows "\<exists>c'' r. mock_get_object c' bucket key (Some (a, b)) (Some etag) = Done (c'', Inr r) \<and>
    collect (mc_window_increment_failed c'') r = Some (Done (Inr (seg contents a b)))"
proof -
  from assms(2,3) obtain cks where put: "bucket = mcc_bucket (mc_config c)"
    "c' = add_object (inc_op_count OpPutObjectSingle c) key (new_object D now params contents cks)"
    "etag = mo_etag (new_object D now params contents cks)"
    by (auto simp: put_object_single_def mock_put_object_def Let_def and_then_Done_iff case_sum_Done_iff split: if_splits)
  have "holds (inc_op_count OpPutObjectSingle c) m" using assms(1) by simp
  then have h: "holds c' (m(key \<mapsto> contents))" unfolding put(2) by (rule holds_add) simp
  have same: "mc_config c' = mc_config c" "mc_window_increment_failed c' = mc_window_increment_failed c"
    unfolding put(2) by (simp_all add: add_object_def inc_op_count_def)
  have lookup: "RBT.lookup (mc_objects c') key = Some (new_object D now params contents cks)"
    unfolding put(2) by simp
  have m: "(m(key \<mapsto> contents)) key = Some contents" and ab: "a \<le> b" and al: "a < length contents"
    and etag: "Some etag = None \<or> Some etag = Some (mo_etag (new_object D now params contents cks))"
    using assms(5,6) put(3) by simp_all
  obtain r where r: "mock_get_object c' (mcc_bucket (mc_config c')) key (Some (a, b)) (Some etag) = Done (inc_op_count OpGetObject c', Inr r)"
    "mr_object r = new_object D now params contents cks" "mr_next_offset r = a" "mr_length r = b - a" "mr_part_size r = mcc_part_size (mc_config c')"
    "map_option bh_read_window_end_offset (mr_handle r) =
      (if mcc_enable_backpressure (mc_config c') then Some (a + mcc_initial_read_window_size (mc_config c')) else None)"
    by (rule get_object_ok [OF h m ab al assms(6) lookup etag])
  have ok: "response_ok contents r" using r(2-5) assms(4-6) same by (simp add: response_ok_def)
  have win: "window_open r"
    using r(3,4,6) assms(5,8) same by (auto simp: window_open_def split: option.splits if_splits)
  have "collect (mc_window_increment_failed (inc_op_count OpGetObject c')) r = Some (Done (Inr (seg contents a b)))"
    using collect_loop_ok [OF ok win, of False None "[]"] assms(5,7) r(3,4) same
    by (simp add: collect_def inc_op_count_def)
  with r(1) put(1) same show ?thesis by auto
qed

theorem put_then_get_witness:
  "\<exists>c' etag c'' r.
     put_object_single witness_digests 0 witness_mock ''b'' ''n'' (witness_put_params\<lparr>pp_write_offset_bytes := None\<rparr>) [9, 8, 7] =
       Done (c', Inr etag) \<and>
     mock_get_object c' ''b'' ''n'' (Some (1, 3)) (Some etag) = Done (c'', Inr r) \<and>
     collect (mc_window_increment_failed c'') r = Some (Done (Inr [8, 7]))"
proof -
  have "\<exists>c' etag. put_object_single witness_digests 0 witness_mock ''b'' ''n''
      (witness_put_params\<lparr>pp_write_offset_bytes := None\<rparr>) [9, 8, 7] = Done (c', Inr etag)"
    by (simp add: put_object_single_def mock_put_object_def witness_mock_defs add_object_def inc_op_count_def Let_def)
  then obtain c' etag where put: "put_object_single witness_digests 0 witness_mock ''b'' ''n''
      (witness_put_params\<lparr>pp_write_offset_bytes := None\<rparr>) [9, 8, 7] = Done (c', Inr etag)" by blast
  have "\<exists>c'' r. mock_get_object c' ''b'' ''n'' (Some (1, 3)) (Some etag) = Done (c'', Inr r) \<and>
      collect (mc_window_increment_failed c'') r = Some (Done (Inr (seg [9, 8, 7] 1 3)))"
    by (rule put_then_get [OF witness_mock_holds put]) (simp_all add: witness_mock_defs add_object_def)
  with put show ?thesis by (auto simp: seg_def)
qed

section \<open>The client as the part stream sees it\<close>

text \<open>
  The response as a list of body parts with a window. Polling with the window withheld gives the parts; the
  window check of \<open>poll_next\<close> is the one of the request loop, with the error of an empty window.
\<close>

fun body_parts :: "nat \<Rightarrow> mock_get_object_response \<Rightarrow> (object_client_error + get_body_part) list" where
  "body_parts 0 r = []"
| "body_parts (Suc n) r = (case poll_next False (r\<lparr>mr_handle := None\<rparr>) of
     Done (r', Some x) \<Rightarrow> x # body_parts n r' | _ \<Rightarrow> [])"

definition mock_response :: "mock_get_object_response \<Rightarrow> get_object_response" where
  "mock_response r =
     \<lparr>gr_parts = body_parts (mr_length r) r, gr_window = map_option bh_read_window_end_offset (mr_handle r),
      gr_starved = StarveError (ClientError ''empty read window''), gr_hangs = False\<rparr>"

definition mock_s3_client :: "mock_client \<Rightarrow> s3_client" where
  "mock_s3_client c =
     \<lparr>sc_get_object = (\<lambda>n bucket key rng etag. case mock_get_object c bucket key (Some rng) (Some etag) of
        Done (c', Inr r) \<Rightarrow> Inr (mock_response r)
      | Done (c', Inl e) \<Rightarrow> Inl e
      | _ \<Rightarrow> Inl (ClientError ''reversed range'')),
      sc_read_part_size = mcc_part_size (mc_config c),
      sc_initial_read_window_size =
        (if mcc_enable_backpressure (mc_config c) then Some (mcc_initial_read_window_size (mc_config c)) else None)\<rparr>"

lemma advance_handle [simp]: "advance (r\<lparr>mr_handle := None\<rparr>) = (advance r)\<lparr>mr_handle := None\<rparr>"
  by (simp add: advance_def Let_def)

lemma body_parts_ok:
  assumes "response_ok bs r" and "mr_length r \<le> n"
  shows "bodies_from bs (mr_next_offset r) (mr_next_offset r + mr_length r) (body_parts n r) \<and>
    all_parts (body_parts n r) \<and>
    current_offset_after (mr_next_offset r) (body_parts n r) = mr_next_offset r + mr_length r"
  using assms
proof (induction n arbitrary: r)
  case (Suc n)
  let ?r = "r\<lparr>mr_handle := None\<rparr>"
  have ok: "response_ok bs ?r" using Suc.prems(1) by (simp add: response_ok_def)
  show ?case
  proof (cases "mr_length r = 0")
    case True
    then show ?thesis by (simp add: poll_next_def)
  next
    case False
    then have len: "0 < mr_length ?r" by simp
    note adv = advance_ok [OF ok len]
    have poll: "poll_next False ?r = Done (advance ?r, Some (Inr \<lparr>gp_offset = mr_next_offset r,
        gp_data = seg bs (mr_next_offset r) (mr_next_offset (advance ?r))\<rparr>))"
      using poll_next_ok [OF ok len] by simp
    have "length (seg bs (mr_next_offset r) (mr_next_offset (advance ?r))) = mr_next_offset (advance ?r) - mr_next_offset r"
      using adv(1) by (intro length_seg) (simp add: response_ok_def)
    then have o: "mr_next_offset r + length (seg bs (mr_next_offset r) (mr_next_offset (advance ?r))) = mr_next_offset (advance ?r)"
      using adv(5) by simp
    have "mr_length (advance ?r) \<le> n" using adv(2) Suc.prems(2) by simp
    from Suc.IH [OF adv(1) this] adv(3) show ?thesis
      by (simp add: poll o [simplified])
  qed
qed (auto simp: response_ok_def)

text \<open>The object that a client serves under a key.\<close>

definition serves :: "mock_client \<Rightarrow> object_id \<Rightarrow> bytes \<Rightarrow> bool" where
  "serves c i obj \<longleftrightarrow> (case RBT.lookup (mc_objects c) (oid_key i) of
     None \<Rightarrow> False | Some ob \<Rightarrow> object_contains ob obj \<and> mo_etag ob = oid_etag i)"

lemma mock_get_served:
  assumes s: "serves c i obj" and sz: "0 < mcc_part_size (mc_config c)" and bp: "mcc_enable_backpressure (mc_config c)"
    and ab: "a < b" "b \<le> length obj"
  shows "\<exists>resp win. sc_get_object (mock_s3_client c) n bucket (oid_key i) (a, b) (oid_etag i) =
      (if bucket = mcc_bucket (mc_config c) then Inr resp else Inl (ServiceError NoSuchBucket)) \<and>
    gr_window resp = Some win \<and> bodies_from obj a b (gr_parts resp) \<and> all_parts (gr_parts resp) \<and>
    current_offset_after a (gr_parts resp) = b"
proof -
  from s obtain ob where ob: "RBT.lookup (mc_objects c) (oid_key i) = Some ob" "object_contains ob obj" "mo_etag ob = oid_etag i"
    by (auto simp: serves_def split: option.splits)
  let ?w = "a + mcc_initial_read_window_size (mc_config c)"
  define r where "r = \<lparr>mr_object = ob, mr_next_offset = a, mr_length = b - a, mr_part_size = mcc_part_size (mc_config c),
    mr_handle = Some \<lparr>bh_read_window_end_offset = ?w, bh_range_start = a, bh_range_end = a + (b - a),
      bh_part_size = mcc_part_size (mc_config c), bh_fail_on_non_aligned = mcc_fail_on_non_aligned_read_window (mc_config c)\<rparr>\<rparr>"
  have "mo_size ob = length obj" using ob(2) by (simp add: object_contains_def)
  then have get: "mock_get_object c bucket (oid_key i) (Some (a, b)) (Some (oid_etag i)) =
      Done (inc_op_count OpGetObject c, if bucket = mcc_bucket (mc_config c) then Inr r else Inl (ServiceError NoSuchBucket))"
    using ob ab bp by (auto simp: mock_get_object_def r_def Let_def)
  have "response_ok obj r" using ob(2) ab sz by (simp add: response_ok_def r_def)
  from body_parts_ok [OF this order_refl] ab have
    "bodies_from obj a b (gr_parts (mock_response r)) \<and> all_parts (gr_parts (mock_response r)) \<and>
      current_offset_after a (gr_parts (mock_response r)) = b"
    by (simp add: mock_response_def r_def)
  moreover have "gr_window (mock_response r) = Some ?w" by (simp add: mock_response_def r_def)
  ultimately show ?thesis
    using get by (intro exI [of _ "mock_response r"] exI [of _ ?w]) (simp add: mock_s3_client_def)
qed

lemma mock_client_laws:
  assumes "serves c i obj" and "0 < mcc_part_size (mc_config c)" and "mcc_enable_backpressure (mc_config c)"
  shows "client_faithful (mock_s3_client c) i obj"
    and "client_reliable (mock_s3_client c) (mcc_bucket (mc_config c)) i obj"
proof -
  show "client_faithful (mock_s3_client c) i obj"
    unfolding client_faithful_def
  proof (intro allI impI)
    fix n bucket a b resp
    assume "a < b" "b \<le> length obj" "sc_get_object (mock_s3_client c) n bucket (oid_key i) (a, b) (oid_etag i) = Inr resp"
    with mock_get_served [OF assms, of a b n bucket] show "bodies_from obj a b (gr_parts resp)"
      by (auto split: if_splits)
  qed
  show "client_reliable (mock_s3_client c) (mcc_bucket (mc_config c)) i obj"
    unfolding client_reliable_def using mock_get_served [OF assms] by (metis (full_types))
qed

text \<open>The contract of the prefetcher holds for every bucket that serves the object.\<close>

lemma mock_part_stream:
  assumes "crc_laws E" and "serves c i obj" and "2 \<le> mcc_part_size (mc_config c)" and "mcc_enable_backpressure (mc_config c)"
    and "mcc_initial_read_window_size (mc_config c) \<noteq> 0"
  shows "object_part_stream E i obj (client_part_stream E (mock_s3_client c) P)"
proof (rule client_part_stream_ok)
  show "client_faithful (mock_s3_client c) i obj" using assms by (intro mock_client_laws) simp_all
qed (use assms in \<open>simp_all add: mock_s3_client_def\<close>)

lemma mock_part_stream_reliable:
  assumes "crc_laws E" and "serves c i obj" and "2 \<le> mcc_part_size (mc_config c)" and "mcc_enable_backpressure (mc_config c)"
    and "mcc_initial_read_window_size (mc_config c) \<noteq> 0" and "increments_suffice P (length obj)"
  shows "reliable_part_stream E i obj (client_part_stream E (mock_s3_client c) P) (mcc_bucket (mc_config c))"
proof (rule client_part_stream_reliable)
  show "client_faithful (mock_s3_client c) i obj" "client_reliable (mock_s3_client c) (mcc_bucket (mc_config c)) i obj"
    using assms by (intro mock_client_laws; simp)+
qed (use assms in \<open>simp_all add: mock_s3_client_def\<close>)

text \<open>In particular for a bucket with a single object, whatever its contents, and a producer that is granted the
  whole window at once.\<close>

definition single_object_client :: "object_id \<Rightarrow> bytes \<Rightarrow> mock_client" where
  "single_object_client i obj = add_object (mock_client_new witness_mock_config) (oid_key i) (from_bytes 0 obj (oid_etag i))"

definition eager_producer :: "nat \<Rightarrow> producer_env" where
  "eager_producer n = \<lparr>pe_increments = (\<lambda>_. ([n], [], True)), pe_sched = (\<lambda>_. [1, 1])\<rparr>"

lemma single_object_serves: "serves (single_object_client i obj) i obj"
  using from_bytes_contains [of 0 obj "oid_etag i"]
  by (simp add: serves_def single_object_client_def) (simp add: from_bytes_def)

lemma single_object_config [simp]: "mc_config (single_object_client i obj) = witness_mock_config"
  by (simp add: single_object_client_def mock_client_new_def)

interpretation mock_stream: reliable_part_stream sum_crc_env i obj
    "client_part_stream sum_crc_env (mock_s3_client (single_object_client i obj)) (eager_producer (length obj))" "''b''" for i obj
  using mock_part_stream_reliable [OF sum_crc_env_laws(1) single_object_serves, of i obj "eager_producer (length obj)"]
  by (simp add: increments_suffice_def eager_producer_def witness_mock_config_def)

end
