(* ===== verification/Read_Path.thy ===== *)
theory Read_Path
  imports Mock_Reads
begin

text \<open>
  The read path from the file handle to the S3 client: a prefetcher opened on an object, any sequence of
  reads at any offsets, and the handle dropped. The properties compose the lemmas of the locales of the
  prefetcher with the client part stream; the S3 client and the CRC functions are parameters, constrained by
  what the S3 API and the checksum crate document. The in-memory client is the concrete instance.
\<close>

section \<open>Reads return the object\<close>

text \<open>C1: Every byte the prefetcher hands out is the right byte. For an S3 client that answers ranged requests with
  consecutive pieces of the object (then possibly errors), a handle that is opened, read with any sequence of offsets and lengths,
  in any interleaving with its producer, and dropped, never panics. Each read returns an error or a buffer that passes
  its integrity check and is exactly the requested slice of the object, clipped at its end. A read may wait for data.\<close>

theorem reads_return_object_bytes:
  assumes "crc_laws E" and "client_faithful C i obj" and "2 \<le> sc_read_part_size C"
    and "sc_initial_read_window_size C = Some v" and "v \<noteq> 0" and "length obj \<le> u64_max" and "pg_config_ok config"
    and "mem_limit ml < - 1" and "0 < pf_max_backward_seek_distance config"
  shows "pg_session E (client_part_stream E C P) config bucket i handle (length obj) ml reqs = Pending \<or>
    (\<exists>ml' rs. pg_session E (client_part_stream E C P) config bucket i handle (length obj) ml reqs = Done (ml', rs) \<and>
      list_all2 (read_outcome_ok E obj) reqs rs)"
  using object_part_stream.pg_session_ok [OF client_part_stream_ok [OF assms(1-5)] assms(6-9)] by blast

text \<open>C2: The prefetcher gives back the memory it accounts for. Whatever happens during the reads (seeks within
  the window or outside it, errors, resets, cancelled requests), once the handle is dropped the counter of the
  memory limiter has the value it had before the handle was opened, up to what the other users of the limiter did
  meanwhile, provided each read asked for at least one byte.\<close>

theorem session_returns_memory:
  assumes "crc_laws E" and "client_faithful C i obj" and "2 \<le> sc_read_part_size C"
    and "sc_initial_read_window_size C = Some v" and "v \<noteq> 0" and "length obj \<le> u64_max" and "pg_config_ok config"
    and "mem_limit ml < - 1" and "0 < pf_max_backward_seek_distance config"
    and "\<forall>req \<in> set reqs. 0 < snd req"
    and "pg_session E (client_part_stream E C P) config bucket i handle (length obj) ml reqs = Done (ml', rs)"
  shows "settled ml' = settled ml"
  using object_part_stream.pg_session_ok [OF client_part_stream_ok [OF assms(1-5)] assms(6-9), of P bucket handle reqs]
    assms(10,11) by auto


section \<open>A concrete session\<close>

definition witness_prefetcher_config :: prefetcher_config where
  "witness_prefetcher_config = \<lparr>pf_max_read_window_size = 8, pf_sequential_prefetch_multiplier = 2,
     pf_max_forward_seek_wait_distance = 4, pf_max_backward_seek_distance = 4, pf_initial_request_size = 2\<rparr>"

definition witness_id :: object_id where
  "witness_id = \<lparr>oid_key = ''k'', oid_etag = ''e''\<rparr>"

definition witness_object :: bytes where
  "witness_object = [1, 2, 3, 4, 5]"

definition witness_s3 :: s3_client where
  "witness_s3 = mock_s3_client (single_object_client witness_id witness_object)"

definition witness_requests :: "(nat \<times> nat) list" where
  "witness_requests = [(0, 3), (3, 10), (1, 3), (9, 1)]"

lemma witness_s3_laws:
  "client_faithful witness_s3 witness_id witness_object"
  "client_reliable witness_s3 ''b'' witness_id witness_object"
  "2 \<le> sc_read_part_size witness_s3" "sc_initial_read_window_size witness_s3 = Some 2"
  using mock_client_laws [OF single_object_serves [of witness_id witness_object]]
  by (simp_all add: witness_s3_def witness_mock_config_def mock_s3_client_def)

lemma witness_prefetcher_config_ok:
  "pg_config_ok witness_prefetcher_config" "0 < pf_max_backward_seek_distance witness_prefetcher_config"
  by (simp_all add: witness_prefetcher_config_def pg_config_ok_def)

lemma witness_increments: "increments_suffice (eager_producer 5) (length witness_object)"
  by (simp add: increments_suffice_def eager_producer_def witness_object_def)

lemma witness_object_small: "length witness_object \<le> u64_max"
  by (simp add: u64_max_def witness_object_def)

definition witness_session :: "(mem_limiter \<times> (prefetch_read_error + checksummed_bytes) list) run" where
  "witness_session = pg_session sum_crc_env (client_part_stream sum_crc_env witness_s3 (eager_producer 5))
     witness_prefetcher_config ''b'' witness_id 1 (length witness_object) witness_limiter witness_requests"

lemma witness_session_done: "\<exists>ml' rs. witness_session = Done (ml', rs)"
  using reliable_part_stream.pg_session_reliable [OF client_part_stream_reliable [OF sum_crc_env_laws(1) witness_s3_laws
    _ witness_increments] witness_object_small witness_prefetcher_config_ok(1) witness_limiter_limit witness_prefetcher_config_ok(2),
    of 1 witness_requests]
  unfolding witness_session_def by fastforce

theorem reads_return_object_bytes_witness:
  "\<exists>ml' rs. witness_session = Done (ml', rs) \<and> list_all2 (read_outcome_ok sum_crc_env witness_object) witness_requests rs"
  using reads_return_object_bytes [OF sum_crc_env_laws(1) witness_s3_laws(1,3,4) _ witness_object_small
      witness_prefetcher_config_ok(1) witness_limiter_limit witness_prefetcher_config_ok(2),
      of "eager_producer 5" "''b''" 1 witness_requests] witness_session_done
  unfolding witness_session_def by fastforce

theorem session_returns_memory_witness:
  "\<exists>ml' rs. witness_session = Done (ml', rs) \<and> settled ml' = settled witness_limiter"
proof -
  obtain ml' rs where s: "witness_session = Done (ml', rs)" using witness_session_done by blast
  have "settled ml' = settled witness_limiter"
  proof (rule session_returns_memory [OF sum_crc_env_laws(1) witness_s3_laws(1,3,4) _ witness_object_small
      witness_prefetcher_config_ok(1) witness_limiter_limit witness_prefetcher_config_ok(2)])
    show "(2 :: nat) \<noteq> 0" by simp
    show "\<forall>req \<in> set witness_requests. 0 < snd req" by (simp add: witness_requests_def)
    show "pg_session sum_crc_env (client_part_stream sum_crc_env witness_s3 (eager_producer 5)) witness_prefetcher_config ''b''
      witness_id 1 (length witness_object) witness_limiter witness_requests = Done (ml', rs)"
      using s by (simp add: witness_session_def)
  qed
  with s show ?thesis by blast
qed


end
