(* ===== verification/Effects.thy ===== *)
theory Effects
  imports Prelude
begin

text \<open>
  Stateful code that can fail: an operation takes the state and returns the new state with a result or an
  error, or panics, or waits for ever. \<open>eff_bind\<close> is the \<open>?\<close> operator: an error ends the operation and keeps the
  state reached so far. \<open>eff_ok P m Q R\<close> is total correctness: from a state in \<open>P\<close> the operation returns, with a
  result in \<open>Q\<close> or an error in \<open>R\<close>.
\<close>

section \<open>Operations\<close>

type_synonym ('s, 'e, 'a) eff = "'s \<Rightarrow> ('s \<times> ('e + 'a)) run"

definition eff_return :: "'a \<Rightarrow> ('s, 'e, 'a) eff" where
  "eff_return x s = Done (s, Inr x)"

definition eff_error :: "'e \<Rightarrow> ('s, 'e, 'a) eff" where
  "eff_error e s = Done (s, Inl e)"

definition eff_lift :: "'e + 'a \<Rightarrow> ('s, 'e, 'a) eff" where
  "eff_lift r s = Done (s, r)"

definition eff_run :: "'a run \<Rightarrow> ('s, 'e, 'a) eff" where
  "eff_run r s = and_then r (\<lambda>x. Done (s, Inr x))"

definition eff_panic :: "('s, 'e, 'a) eff" where
  "eff_panic s = Panic"

definition eff_gets :: "('s \<Rightarrow> 'a) \<Rightarrow> ('s, 'e, 'a) eff" where
  "eff_gets f s = Done (s, Inr (f s))"

definition eff_modify :: "('s \<Rightarrow> 's) \<Rightarrow> ('s, 'e, unit) eff" where
  "eff_modify f s = Done (f s, Inr ())"

definition eff_bind :: "('s, 'e, 'a) eff \<Rightarrow> ('a \<Rightarrow> ('s, 'e, 'b) eff) \<Rightarrow> ('s, 'e, 'b) eff" where
  "eff_bind m f s = and_then (m s) (\<lambda>(s', r). case r of Inl e \<Rightarrow> Done (s', Inl e) | Inr x \<Rightarrow> f x s')"

text \<open>Keeping a result as a value, as \<open>match\<close> on an awaited call does.\<close>

definition eff_try :: "('s, 'e, 'a) eff \<Rightarrow> ('s, 'e, 'e + 'a) eff" where
  "eff_try m s = and_then (m s) (\<lambda>(s', r). Done (s', Inr r))"

lemmas eff_defs = eff_return_def eff_error_def eff_lift_def eff_run_def eff_panic_def eff_gets_def eff_modify_def

lemma eff_apply [simp]:
  "eff_return x s = Done (s, Inr x)"
  "eff_error e s = Done (s, Inl e)"
  "eff_lift r s = Done (s, r)"
  "eff_run (Done x) s = Done (s, Inr x)"
  "eff_panic s = Panic"
  "eff_gets f s = Done (s, Inr (f s))"
  "eff_modify g s = Done (g s, Inr ())"
  by (simp_all add: eff_defs)

lemma eff_bind_simps [simp]:
  "m s = Done (s', Inr x) \<Longrightarrow> eff_bind m f s = f x s'"
  "m s = Done (s', Inl e) \<Longrightarrow> eff_bind m f s = Done (s', Inl e)"
  by (simp_all add: eff_bind_def)

lemma eff_try_simps [simp]: "m s = Done (s', r) \<Longrightarrow> eff_try m s = Done (s', Inr r)"
  by (simp add: eff_try_def)

text \<open>Normal form of a sequence: binds nest to the right and are pushed into branches.\<close>

lemma eff_bind_assoc: "eff_bind (eff_bind m f) g = eff_bind m (\<lambda>x. eff_bind (f x) g)"
proof
  fix s
  show "eff_bind (eff_bind m f) g s = eff_bind m (\<lambda>x. eff_bind (f x) g) s"
    by (cases "m s") (auto simp: eff_bind_def split: sum.split)
qed

lemma eff_bind_branches:
  "eff_bind (eff_return x) f = f x"
  "eff_bind (eff_error e) f = eff_error e"
  "eff_bind eff_panic f = eff_panic"
  "eff_bind (if b then m else m') f = (if b then eff_bind m f else eff_bind m' f)"
  "eff_bind (case o1 of None \<Rightarrow> m | Some y \<Rightarrow> h y) f = (case o1 of None \<Rightarrow> eff_bind m f | Some y \<Rightarrow> eff_bind (h y) f)"
  "eff_bind (case r of Inl e \<Rightarrow> k e | Inr y \<Rightarrow> l y) f = (case r of Inl e \<Rightarrow> eff_bind (k e) f | Inr y \<Rightarrow> eff_bind (l y) f)"
  "eff_bind (case q of (y, z) \<Rightarrow> j y z) f = (case q of (y, z) \<Rightarrow> eff_bind (j y z) f)"
  by (auto simp: eff_bind_def fun_eq_iff split: option.split sum.split prod.split)

lemmas eff_flat = eff_bind_assoc eff_bind_branches

section \<open>Total correctness\<close>

definition eff_ok ::
  "('s \<Rightarrow> bool) \<Rightarrow> ('s, 'e, 'a) eff \<Rightarrow> ('a \<Rightarrow> 's \<Rightarrow> bool) \<Rightarrow> ('e \<Rightarrow> 's \<Rightarrow> bool) \<Rightarrow> bool" where
  "eff_ok P m Q R \<longleftrightarrow>
     (\<forall>s. P s \<longrightarrow> (\<exists>s' r. m s = Done (s', r) \<and> (case r of Inl e \<Rightarrow> R e s' | Inr x \<Rightarrow> Q x s')))"

named_theorems eff_intros

lemma eff_ok_bind [eff_intros]:
  assumes "eff_ok P m Q R" and "\<And>x. eff_ok (Q x) (f x) Q' R"
  shows "eff_ok P (eff_bind m f) Q' R"
  unfolding eff_ok_def
proof (intro allI impI)
  fix s assume "P s"
  with assms(1) obtain s' r where m: "m s = Done (s', r)" and r: "case r of Inl e \<Rightarrow> R e s' | Inr x \<Rightarrow> Q x s'"
    unfolding eff_ok_def by blast
  show "\<exists>s' r. eff_bind m f s = Done (s', r) \<and> (case r of Inl e \<Rightarrow> R e s' | Inr x \<Rightarrow> Q' x s')"
  proof (cases r)
    case (Inl e)
    with m r show ?thesis by simp
  next
    case (Inr x)
    with r have "Q x s'" by simp
    with assms(2) [of x] obtain s'' r' where "f x s' = Done (s'', r')"
      and "case r' of Inl e \<Rightarrow> R e s'' | Inr x \<Rightarrow> Q' x s''" unfolding eff_ok_def by blast
    with m Inr show ?thesis by simp
  qed
qed

lemma eff_ok_return: "(\<And>s. P s \<Longrightarrow> Q x s) \<Longrightarrow> eff_ok P (eff_return x) Q R"
  by (simp add: eff_ok_def)

lemma eff_ok_error: "(\<And>s. P s \<Longrightarrow> R e s) \<Longrightarrow> eff_ok P (eff_error e) Q R"
  by (simp add: eff_ok_def)

lemma eff_ok_lift:
  "(\<And>s x. P s \<Longrightarrow> r = Inr x \<Longrightarrow> Q x s) \<Longrightarrow> (\<And>s e. P s \<Longrightarrow> r = Inl e \<Longrightarrow> R e s) \<Longrightarrow> eff_ok P (eff_lift r) Q R"
  by (simp add: eff_ok_def split: sum.split)

lemma eff_ok_run: "(\<And>s. P s \<Longrightarrow> \<exists>x. r = Done x \<and> Q x s) \<Longrightarrow> eff_ok P (eff_run r) Q R"
  by (fastforce simp: eff_ok_def)

lemma eff_ok_gets: "(\<And>s. P s \<Longrightarrow> Q (f s) s) \<Longrightarrow> eff_ok P (eff_gets f) Q R"
  by (simp add: eff_ok_def)

lemma eff_ok_modify: "(\<And>s. P s \<Longrightarrow> Q () (f s)) \<Longrightarrow> eff_ok P (eff_modify f) Q R"
  by (simp add: eff_ok_def)

lemma eff_ok_panic: "(\<And>s. \<not> P s) \<Longrightarrow> eff_ok P eff_panic Q R"
  by (simp add: eff_ok_def)

lemma eff_ok_try: "eff_ok P m (\<lambda>x. Q (Inr x)) (\<lambda>e. Q (Inl e)) \<Longrightarrow> eff_ok P (eff_try m) Q R"
  unfolding eff_ok_def eff_try_def
proof (intro allI impI)
  fix s
  assume "\<forall>s. P s \<longrightarrow> (\<exists>s' r. m s = Done (s', r) \<and> (case r of Inl e \<Rightarrow> Q (Inl e) s' | Inr x \<Rightarrow> Q (Inr x) s'))" and "P s"
  then obtain s' r where "m s = Done (s', r)" and "Q r s'" by (metis sum.case_eq_if sum.collapse)
  then show "\<exists>s' r. and_then (m s) (\<lambda>(s', r). Done (s', Inr r)) = Done (s', r) \<and>
    (case r of Inl e \<Rightarrow> R e s' | Inr x \<Rightarrow> Q x s')" by simp
qed

lemma eff_ok_if [eff_intros]:
  "eff_ok (\<lambda>s. P s \<and> b) m Q R \<Longrightarrow> eff_ok (\<lambda>s. P s \<and> \<not> b) m' Q R \<Longrightarrow> eff_ok P (if b then m else m') Q R"
  by (auto simp: eff_ok_def)

lemma eff_ok_weaken:
  "eff_ok P m Q R \<Longrightarrow> (\<And>s. P' s \<Longrightarrow> P s) \<Longrightarrow> (\<And>x s. Q x s \<Longrightarrow> Q' x s) \<Longrightarrow> (\<And>e s. R e s \<Longrightarrow> R' e s) \<Longrightarrow>
     eff_ok P' m Q' R'"
  unfolding eff_ok_def
proof (intro allI impI)
  fix s
  assume ok: "\<forall>s. P s \<longrightarrow> (\<exists>s' r. m s = Done (s', r) \<and> (case r of Inl e \<Rightarrow> R e s' | Inr x \<Rightarrow> Q x s'))"
    and imp: "\<And>s. P' s \<Longrightarrow> P s" "\<And>x s. Q x s \<Longrightarrow> Q' x s" "\<And>e s. R e s \<Longrightarrow> R' e s" and "P' s"
  then obtain s' r where "m s = Done (s', r)" and "case r of Inl e \<Rightarrow> R e s' | Inr x \<Rightarrow> Q x s'" by blast
  then show "\<exists>s' r. m s = Done (s', r) \<and> (case r of Inl e \<Rightarrow> R' e s' | Inr x \<Rightarrow> Q' x s')"
    using imp(2,3) by (cases r) auto
qed

lemma eff_okI:
  "(\<And>s. P s \<Longrightarrow> \<exists>s' r. m s = Done (s', r) \<and> (case r of Inl e \<Rightarrow> R e s' | Inr x \<Rightarrow> Q x s')) \<Longrightarrow> eff_ok P m Q R"
  by (simp add: eff_ok_def)

lemma eff_okD:
  "eff_ok P m Q R \<Longrightarrow> P s \<Longrightarrow> \<exists>s' r. m s = Done (s', r) \<and> (case r of Inl e \<Rightarrow> R e s' | Inr x \<Rightarrow> Q x s')"
  by (simp add: eff_ok_def)

lemma eff_okE:
  assumes "eff_ok P m Q R" and "P s"
  obtains s' x where "m s = Done (s', Inr x)" "Q x s'" | s' e where "m s = Done (s', Inl e)" "R e s'"
proof -
  from assms obtain s' r where "m s = Done (s', r)" and "case r of Inl e \<Rightarrow> R e s' | Inr x \<Rightarrow> Q x s'"
    unfolding eff_ok_def by blast
  with that show thesis by (cases r) auto
qed

lemma eff_ok_conj:
  assumes "eff_ok P m Q R" and "eff_ok P' m Q' R'"
  shows "eff_ok (\<lambda>s. P s \<and> P' s) m (\<lambda>x s. Q x s \<and> Q' x s) (\<lambda>e s. R e s \<and> R' e s)"
proof (rule eff_okI)
  fix s assume s: "P s \<and> P' s"
  with assms(2) obtain s' r where 1: "m s = Done (s', r)" and 2: "case r of Inl e \<Rightarrow> R' e s' | Inr x \<Rightarrow> Q' x s'"
    unfolding eff_ok_def by blast
  from assms(1) s 1 have "case r of Inl e \<Rightarrow> R e s' | Inr x \<Rightarrow> Q x s'" unfolding eff_ok_def by fastforce
  with 1 2 show "\<exists>s' r. m s = Done (s', r) \<and>
      (case r of Inl e \<Rightarrow> R e s' \<and> R' e s' | Inr x \<Rightarrow> Q x s' \<and> Q' x s')"
    by (cases r) auto
qed

text \<open>Preservation of an invariant, whatever the outcome.\<close>

abbreviation eff_keeps :: "('s \<Rightarrow> bool) \<Rightarrow> ('s, 'e, 'a) eff \<Rightarrow> bool" where
  "eff_keeps I m \<equiv> eff_ok I m (\<lambda>_. I) (\<lambda>_. I)"

end
