(* ===== verification/Paths.thy ===== *)
theory Paths
  imports Text
begin

text \<open>
  Names, keys, prefixes and S3 paths (\<open>metablock/path.rs\<close>, \<open>s3/prefix.rs\<close>, \<open>s3/path.rs\<close>).

  An inode is addressed by a \<^emph>\<open>valid key\<close>: the names on the path from the root, each followed by
  a slash, the last one without it when the inode is a file. \<open>key_path\<close> describes the keys that
  the superblock can build, and the lemmas show that they are exactly the keys that
  \<open>TryFrom<String>\<close> accepts, with the same name offset.
  Strings are the sequences of their bytes, as \<open>str::len\<close> and \<open>as_bytes\<close> count them.
\<close>

section \<open>Kinds and errors\<close>

datatype inode_kind = File | Directory

datatype valid_key_error = VkNotADirectory | InvalidKey string

datatype prefix_error = MissingFinalDelimiter

datatype s3_path_error =
  ExpectedS3URI | InvalidBucketName | InvalidBucketNameS3URI | InvalidBucketLength | S3PrefixError prefix_error

section \<open>Names\<close>

text \<open>\<open>InvalidFileName\<close> is the only error of the parser; it carries the offending name.\<close>

datatype name_error = InvalidFileName string

definition parse_str :: "string \<Rightarrow> name_error + string" where
  "parse_str name =
     (if name \<noteq> [] \<and> name \<noteq> ''.'' \<and> name \<noteq> ''..'' \<and> CHR ''/'' \<notin> set name \<and> CHR 0x00 \<notin> set name
      then Inr name else Inl (InvalidFileName name))"

text \<open>An \<open>OsStr\<close> that is not valid UTF-8 has no \<open>to_str\<close>: \<open>utf8\<close> tells which names have one.\<close>

definition parse_os_str :: "(string \<Rightarrow> bool) \<Rightarrow> string \<Rightarrow> name_error + string" where
  "parse_os_str utf8 name = (if utf8 name then parse_str name else Inl (InvalidFileName name))"

definition valid_name :: "string \<Rightarrow> bool" where
  "valid_name name \<longleftrightarrow> parse_str name = Inr name"

lemma parse_str_eq: "parse_str name = (if valid_name name then Inr name else Inl (InvalidFileName name))"
  by (auto simp: parse_str_def valid_name_def)

lemma parse_str_Inr_iff: "parse_str name = Inr n \<longleftrightarrow> valid_name name \<and> n = name"
  by (auto simp: parse_str_def valid_name_def)

lemma parse_str_Inl_iff: "parse_str name = Inl e \<longleftrightarrow> \<not> valid_name name \<and> e = InvalidFileName name"
  by (auto simp: parse_str_def valid_name_def)

lemma valid_nameD: "valid_name name \<Longrightarrow> name \<noteq> [] \<and> CHR ''/'' \<notin> set name"
  by (auto simp: valid_name_def parse_str_def split: if_splits)

section \<open>Prefixes\<close>

record prefix = pf_path :: string

definition prefix_new :: "string \<Rightarrow> prefix_error + prefix" where
  "prefix_new s =
     (if s \<noteq> [] \<and> \<not> ends_with s ''/'' then Inl MissingFinalDelimiter else Inr \<lparr>pf_path = s\<rparr>)"

definition prefix_empty :: prefix where
  "prefix_empty = \<lparr>pf_path = []\<rparr>"

definition prefix_ok :: "prefix \<Rightarrow> bool" where
  "prefix_ok p \<longleftrightarrow> pf_path p = [] \<or> ends_with (pf_path p) ''/''"

lemma prefix_new_Inr_iff: "prefix_new s = Inr p \<longleftrightarrow> pf_path p = s \<and> prefix_ok p"
  by (cases p) (auto simp: prefix_new_def prefix_ok_def)

lemma prefix_empty_ok [simp]: "prefix_ok prefix_empty"
  by (simp add: prefix_ok_def prefix_empty_def)

section \<open>Keys\<close>

record valid_key =
  vk_key :: string
  vk_name_offset :: nat

definition vk_root :: valid_key where
  "vk_root = \<lparr>vk_key = [], vk_name_offset = 0\<rparr>"

definition vk_kind :: "valid_key \<Rightarrow> inode_kind" where
  "vk_kind k = (if vk_key k = [] \<or> last (vk_key k) = CHR ''/'' then Directory else File)"

definition new_child :: "valid_key \<Rightarrow> string \<Rightarrow> inode_kind \<Rightarrow> valid_key_error + valid_key" where
  "new_child p name kind =
     (if vk_kind p = Directory then
        Inr \<lparr>vk_key = vk_key p @ name @ (if kind = Directory then ''/'' else []),
             vk_name_offset = length (vk_key p)\<rparr>
      else Inl VkNotADirectory)"

definition full_key :: "prefix \<Rightarrow> valid_key \<Rightarrow> valid_key" where
  "full_key p k = \<lparr>vk_key = pf_path p @ vk_key k, vk_name_offset = vk_name_offset k + length (pf_path p)\<rparr>"

text \<open>Slicing a string panics when its bounds are out of order or out of range.\<close>

definition str_slice :: "string \<Rightarrow> nat \<Rightarrow> nat \<Rightarrow> string run" where
  "str_slice s a b = and_then (assert_that (a \<le> b \<and> b \<le> length s)) (\<lambda>_. Done (seg s a b))"

definition vk_name :: "valid_key \<Rightarrow> string run" where
  "vk_name k =
     (if vk_key k = [] then Done []
      else if last (vk_key k) = CHR ''/'' then str_slice (vk_key k) (vk_name_offset k) (length (vk_key k) - 1)
      else str_slice (vk_key k) (vk_name_offset k) (length (vk_key k)))"

definition vk_valid_name :: "valid_key \<Rightarrow> string option run" where
  "vk_valid_name k = and_then (vk_name k) (\<lambda>n. Done (if n = [] then None else Some n))"

text \<open>\<open>str::split\<close> and \<open>str::split_terminator\<close> by a character.\<close>

fun split_char :: "char \<Rightarrow> string \<Rightarrow> string list" where
  "split_char d [] = [[]]"
| "split_char d (c # s) =
     (if c = d then [] # split_char d s
      else case split_char d s of [] \<Rightarrow> [[c]] | x # xs \<Rightarrow> (c # x) # xs)"

definition split_terminator :: "char \<Rightarrow> string \<Rightarrow> string list" where
  "split_terminator d s =
     (let ps = split_char d s in if last ps = [] then butlast ps else ps)"

definition vk_components :: "valid_key \<Rightarrow> string list" where
  "vk_components k = (if vk_key k = [] then [] else split_terminator (CHR ''/'') (vk_key k))"

fun last_valid :: "string option \<Rightarrow> string list \<Rightarrow> unit + string option" where
  "last_valid last_component [] = Inr last_component"
| "last_valid last_component (component # rest) =
     (case parse_str component of Inl _ \<Rightarrow> Inl () | Inr _ \<Rightarrow> last_valid (Some component) rest)"

definition vk_try_from :: "string \<Rightarrow> (valid_key_error + valid_key) run" where
  "vk_try_from s =
     (case last_valid None (split_terminator (CHR ''/'') s) of
        Inl _ \<Rightarrow> Done (Inl (InvalidKey s))
      | Inr last_component \<Rightarrow>
          let is_dir = ends_with s ''/'';
              name_len = (case last_component of None \<Rightarrow> 0
                          | Some name \<Rightarrow> if is_dir then length name + 1 else length name)
          in and_then (checked_sub (length s) name_len) (\<lambda>offset.
               Done (Inr \<lparr>vk_key = s, vk_name_offset = offset\<rparr>)))"

section \<open>Buckets and S3 paths\<close>

text \<open>
  The regular expression engine is the crate \<open>regex\<close>, a parameter \<open>is_match\<close> of pattern and text.
  \<open>regex_char_class\<close> is what its documentation says of the one pattern used: one or more characters,
  all of the class.
\<close>

type_synonym bucket = string

definition bucket_pattern :: string where
  "bucket_pattern = ''^[0-9a-zA-Z'' @ [CHR 0x5C] @ ''-'' @ [CHR 0x5C] @ ''._]+$''"

definition bucket_char :: "char \<Rightarrow> bool" where
  "bucket_char c \<longleftrightarrow> (CHR ''0'' \<le> c \<and> c \<le> CHR ''9'') \<or> (CHR ''a'' \<le> c \<and> c \<le> CHR ''z'') \<or>
     (CHR ''A'' \<le> c \<and> c \<le> CHR ''Z'') \<or> c = CHR ''-'' \<or> c = CHR ''.'' \<or> c = CHR ''_''"

definition regex_char_class :: "(string \<Rightarrow> string \<Rightarrow> bool) \<Rightarrow> bool" where
  "regex_char_class is_match \<longleftrightarrow>
     (\<forall>s. is_match bucket_pattern s \<longleftrightarrow> s \<noteq> [] \<and> list_all bucket_char s)"

definition matches_bucket_regex :: "(string \<Rightarrow> string \<Rightarrow> bool) \<Rightarrow> string \<Rightarrow> bool" where
  "matches_bucket_regex is_match b = is_match bucket_pattern b"

definition validate_bucket_length :: "string \<Rightarrow> s3_path_error + unit" where
  "validate_bucket_length b = (if length b < 3 \<or> length b > 255 then Inl InvalidBucketLength else Inr ())"

definition bucket_new :: "(string \<Rightarrow> string \<Rightarrow> bool) \<Rightarrow> string \<Rightarrow> s3_path_error + bucket" where
  "bucket_new is_match b =
     (case validate_bucket_length b of Inl e \<Rightarrow> Inl e
      | Inr _ \<Rightarrow> if matches_bucket_regex is_match b \<or> starts_with b ''arn:'' then Inr b else Inl InvalidBucketName)"

definition is_arn :: "bucket \<Rightarrow> bool" where
  "is_arn b = starts_with b ''arn:''"

record s3_path =
  sp_bucket :: bucket
  sp_prefix :: prefix

definition strip_prefix :: "string \<Rightarrow> string \<Rightarrow> string option" where
  "strip_prefix s p = (if starts_with s p then Some (drop (length p) s) else None)"

definition parse_s3_uri :: "(string \<Rightarrow> string \<Rightarrow> bool) \<Rightarrow> string \<Rightarrow> s3_path_error + s3_path" where
  "parse_s3_uri is_match s3_uri =
     (case strip_prefix s3_uri ''s3://'' of
        None \<Rightarrow> Inl ExpectedS3URI
      | Some bucket_prefix \<Rightarrow>
          let (b, p) = (case split_once bucket_prefix ''/'' of Some bp \<Rightarrow> bp | None \<Rightarrow> (bucket_prefix, []))
          in case bucket_new is_match b of
               Inl e \<Rightarrow> Inl e
             | Inr b \<Rightarrow>
                 if is_arn b then Inl InvalidBucketNameS3URI
                 else case prefix_new p of Inl e \<Rightarrow> Inl (S3PrefixError e)
                      | Inr p \<Rightarrow> Inr \<lparr>sp_bucket = b, sp_prefix = p\<rparr>)"

definition bucket_description :: "s3_path \<Rightarrow> string" where
  "bucket_description sp =
     (if pf_path (sp_prefix sp) = [] then ''bucket '' @ sp_bucket sp
      else ''prefix '' @ pf_path (sp_prefix sp) @ '' of bucket '' @ sp_bucket sp)"

record s3_location =
  sl_path :: s3_path
  sl_partial_key :: valid_key

definition location_full_key :: "s3_location \<Rightarrow> valid_key" where
  "location_full_key l = full_key (sp_prefix (sl_path l)) (sl_partial_key l)"

definition location_name :: "s3_location \<Rightarrow> string run" where
  "location_name l = vk_name (sl_partial_key l)"

section \<open>The keys the superblock builds\<close>

text \<open>\<open>key_path ns k\<close>: descending from the root along the names \<open>ns\<close> with \<open>new_child\<close> gives \<open>k\<close>.\<close>

inductive key_path :: "string list \<Rightarrow> valid_key \<Rightarrow> bool" where
  root: "key_path [] vk_root"
| child: "key_path ns p \<Longrightarrow> valid_name n \<Longrightarrow> new_child p n kind = Inr k \<Longrightarrow> key_path (ns @ [n]) k"

definition dir_text :: "string list \<Rightarrow> string" where
  "dir_text ns = concat (map (\<lambda>n. n @ ''/'') ns)"

lemma dir_text_simps [simp]:
  "dir_text [] = []"
  "dir_text (n # ns) = n @ CHR ''/'' # dir_text ns"
  "dir_text (ns @ [n]) = dir_text ns @ n @ ''/''"
  by (simp_all add: dir_text_def)

lemma dir_text_empty_iff [simp]: "dir_text ns = [] \<longleftrightarrow> ns = []"
  by (cases ns) simp_all

lemma dir_text_last: "ns \<noteq> [] \<Longrightarrow> last (dir_text ns) = CHR ''/''"
  by (cases ns rule: rev_cases) simp_all

lemma slash_not_in_name [dest]: "valid_name n \<Longrightarrow> CHR ''/'' \<in> set n \<Longrightarrow> False"
  by (auto dest: valid_nameD)

lemma last_name_not_slash: "valid_name n \<Longrightarrow> last n \<noteq> CHR ''/''"
  using last_in_set valid_nameD by metis

text \<open>The text and the offset of a key are determined by its names and its kind.\<close>

lemma new_child_Inr_iff:
  "new_child p n kind = Inr k \<longleftrightarrow> vk_kind p = Directory \<and>
     k = \<lparr>vk_key = vk_key p @ n @ (if kind = Directory then ''/'' else []), vk_name_offset = length (vk_key p)\<rparr>"
  by (auto simp: new_child_def)

lemma new_child_kind: "valid_name n \<Longrightarrow> new_child p n kind = Inr k \<Longrightarrow> vk_kind k = kind"
  using last_name_not_slash [of n] valid_nameD [of n]
  by (cases kind) (auto simp: new_child_Inr_iff vk_kind_def)

definition path_key :: "string list \<Rightarrow> inode_kind \<Rightarrow> valid_key" where
  "path_key ns kind = (if ns = [] then vk_root else
     \<lparr>vk_key = dir_text (butlast ns) @ last ns @ (if kind = Directory then ''/'' else []),
      vk_name_offset = length (dir_text (butlast ns))\<rparr>)"

lemma path_key_Nil [simp]: "path_key [] kind = vk_root"
  by (simp add: path_key_def)

lemma path_key_snoc [simp]:
  "path_key (ns @ [n]) kind = \<lparr>vk_key = dir_text ns @ n @ (if kind = Directory then ''/'' else []),
     vk_name_offset = length (dir_text ns)\<rparr>"
  by (simp add: path_key_def)

lemma path_key_dir_text [simp]: "vk_key (path_key ns Directory) = dir_text ns"
  by (cases ns rule: rev_cases) (simp_all add: vk_root_def)

lemma root_kind [simp]: "vk_kind vk_root = Directory"
  by (simp add: vk_kind_def vk_root_def)

lemma key_path_iff:
  "key_path ns k \<longleftrightarrow> list_all valid_name ns \<and> (\<exists>kind. k = path_key ns kind)"
proof
  assume "key_path ns k"
  then have "list_all valid_name ns \<and> k = path_key ns (vk_kind k)"
  proof (induction rule: key_path.induct)
    case (child ns p n kind k)
    from child.hyps(2,3) have kind: "vk_kind k = kind" by (rule new_child_kind)
    from child.hyps(3) have "vk_kind p = Directory" by (simp add: new_child_Inr_iff)
    with child.IH have "vk_key p = dir_text ns" by (metis path_key_dir_text)
    with child kind show ?case by (simp add: new_child_Inr_iff)
  qed (simp add: path_key_def)
  then show "list_all valid_name ns \<and> (\<exists>kind. k = path_key ns kind)" by blast
next
  have dir: "key_path ns (path_key ns kind)" if "list_all valid_name ns" for ns kind
    using that
  proof (induction ns arbitrary: kind rule: rev_induct)
    case Nil
    show ?case by (simp add: key_path.root)
  next
    case (snoc n ns)
    then have "key_path ns (path_key ns Directory)" and "valid_name n" by simp_all
    moreover have "vk_kind (path_key ns Directory) = Directory"
      by (cases "ns = []") (simp_all add: vk_kind_def vk_root_def dir_text_last)
    then have "new_child (path_key ns Directory) n kind = Inr (path_key (ns @ [n]) kind)"
      by (simp add: new_child_Inr_iff)
    ultimately show ?case by (rule key_path.child)
  qed
  assume "list_all valid_name ns \<and> (\<exists>kind. k = path_key ns kind)"
  with dir show "key_path ns k" by blast
qed

text \<open>Splitting is the inverse of joining.\<close>

lemma split_char_not_Nil [simp]: "split_char d s \<noteq> []"
  by (induction s) (auto split: list.splits)

lemma split_char_name [simp]: "d \<notin> set n \<Longrightarrow> split_char d n = [n]"
  by (induction n) auto

lemma split_char_append: "d \<notin> set n \<Longrightarrow> split_char d (n @ d # s) = n # split_char d s"
  by (induction n) auto

lemma split_char_dir_text:
  "list_all valid_name ns \<Longrightarrow> split_char (CHR ''/'') (dir_text ns @ s) = ns @ split_char (CHR ''/'') s"
proof (induction ns)
  case (Cons n ns)
  then have "CHR ''/'' \<notin> set n" by (auto dest: valid_nameD)
  with Cons show ?case by (simp add: split_char_append)
qed simp

lemma split_char_join:
  "s = dir_text (butlast (split_char (CHR ''/'') s)) @ last (split_char (CHR ''/'') s)"
proof (induction s)
  case (Cons c s)
  then show ?case
    by (cases "split_char (CHR ''/'') s") (auto split: list.splits)
qed simp

lemma components_of_path:
  assumes "list_all valid_name ns"
  shows "vk_components (path_key ns kind) = ns"
proof (cases ns rule: rev_cases)
  case Nil
  then show ?thesis by (simp add: vk_components_def vk_root_def)
next
  case (snoc ms n)
  with assms have n: "CHR ''/'' \<notin> set n" "n \<noteq> []" and ms: "list_all valid_name ms"
    by (auto dest: valid_nameD)
  show ?thesis
  proof (cases kind)
    case File
    with snoc n split_char_dir_text [OF ms, of n] show ?thesis
      by (simp add: vk_components_def split_terminator_def)
  next
    case Directory
    with snoc n split_char_dir_text [OF ms, of "n @ ''/''"] split_char_append [OF n(1), of "[]"] show ?thesis
      by (simp add: vk_components_def split_terminator_def butlast_append)
  qed
qed

lemma path_key_name:
  assumes "list_all valid_name ns"
  shows "vk_name (path_key ns kind) = Done (if ns = [] then [] else last ns)"
proof (cases ns rule: rev_cases)
  case Nil
  then show ?thesis by (simp add: vk_name_def vk_root_def)
next
  case (snoc ms n)
  with assms have "valid_name n" by simp
  with snoc last_name_not_slash [of n] valid_nameD [of n] show ?thesis
    by (cases kind) (auto simp: vk_name_def str_slice_def seg_def)
qed

lemma path_key_kind:
  assumes "list_all valid_name ns" and "ns \<noteq> []"
  shows "vk_kind (path_key ns kind) = kind"
proof -
  from assms(2) obtain ms n where ns: "ns = ms @ [n]" by (metis rev_exhaust)
  with assms have "valid_name n" by simp
  with ns last_name_not_slash [of n] valid_nameD [of n] show ?thesis
    by (cases kind) (auto simp: vk_kind_def)
qed

lemma last_valid_Inr_iff:
  "last_valid acc cs = Inr r \<longleftrightarrow> list_all valid_name cs \<and> r = (if cs = [] then acc else Some (last cs))"
proof (induction acc cs rule: last_valid.induct)
  case (2 acc c cs)
  then show ?case
    by (cases "valid_name c") (auto simp: parse_str_eq)
qed auto

lemma split_terminator_join:
  "\<exists>kind. s = vk_key (path_key (split_terminator (CHR ''/'') s) kind)"
proof -
  let ?ps = "split_char (CHR ''/'') s"
  show ?thesis
  proof (cases "last ?ps = []")
    case True
    with split_char_join [of s] have "s = vk_key (path_key (split_terminator (CHR ''/'') s) Directory)"
      by (simp add: split_terminator_def Let_def)
    then show ?thesis ..
  next
    case False
    obtain ms n where ps: "?ps = ms @ [n]" by (metis rev_exhaust split_char_not_Nil)
    with False split_char_join [of s] have "s = vk_key (path_key (split_terminator (CHR ''/'') s) File)"
      by (simp add: split_terminator_def Let_def)
    then show ?thesis ..
  qed
qed

lemma ends_with_slash: "ends_with s ''/'' \<longleftrightarrow> s \<noteq> [] \<and> last s = CHR ''/''"
  by (cases s rule: rev_cases) (auto simp: ends_with_def)

lemma try_from_path_key:
  assumes "list_all valid_name ns"
  shows "vk_try_from (vk_key (path_key ns kind)) = Done (Inr (path_key ns kind))"
proof (cases ns rule: rev_cases)
  case Nil
  then show ?thesis
    by (simp add: vk_try_from_def split_terminator_def vk_root_def)
next
  case (snoc ms n)
  have "split_terminator (CHR ''/'') (vk_key (path_key ns kind)) = ns"
    using components_of_path [OF assms, of kind] snoc valid_nameD [of n] assms
    by (auto simp: vk_components_def split: if_splits)
  moreover have "last_valid None ns = Inr (Some n)"
    using assms snoc by (simp add: last_valid_Inr_iff)
  moreover from assms snoc have "n \<noteq> []" "last n \<noteq> CHR ''/''"
    by (auto dest: valid_nameD last_name_not_slash)
  ultimately show ?thesis
    using snoc by (cases kind) (simp_all add: vk_try_from_def ends_with_slash)
qed

lemma try_from_total: "vk_try_from s = Done (Inl (InvalidKey s)) \<and> \<not> (\<exists>ns k. key_path ns k \<and> vk_key k = s) \<or>
  (\<exists>k. vk_try_from s = Done (Inr k) \<and> key_path (vk_components k) k \<and> vk_key k = s)"
proof (cases "list_all valid_name (split_terminator (CHR ''/'') s)")
  case True
  from split_terminator_join [of s] obtain kind
    where s: "s = vk_key (path_key (split_terminator (CHR ''/'') s) kind)" by blast
  let ?k = "path_key (split_terminator (CHR ''/'') s) kind"
  have "vk_try_from s = Done (Inr ?k)"
    using try_from_path_key [OF True, of kind] s by simp
  moreover have "key_path (vk_components ?k) ?k"
    using True by (auto simp: components_of_path key_path_iff)
  ultimately show ?thesis using s by metis
next
  case False
  have "vk_try_from s = Done (Inl (InvalidKey s))"
  proof (cases "last_valid None (split_terminator (CHR ''/'') s)")
    case (Inr r)
    with False show ?thesis by (simp add: last_valid_Inr_iff)
  qed (simp add: vk_try_from_def)
  moreover have "\<not> (key_path ns k \<and> vk_key k = s)" for ns k
  proof
    assume "key_path ns k \<and> vk_key k = s"
    then obtain kind where "list_all valid_name ns" and "k = path_key ns kind" and "vk_key k = s"
      by (auto simp: key_path_iff)
    with components_of_path [of ns kind] False show False
      by (auto simp: vk_components_def split: if_splits) (simp add: split_terminator_def)
  qed
  ultimately show ?thesis by blast
qed

section \<open>Full keys\<close>

lemma full_key_kind: "prefix_ok p \<Longrightarrow> vk_kind (full_key p k) = vk_kind k"
  by (cases "vk_key k = []") (auto simp: prefix_ok_def full_key_def vk_kind_def ends_with_slash)

lemma full_key_name:
  assumes "vk_key k \<noteq> []"
  shows "vk_name (full_key p k) = vk_name k"
proof -
  have len: "length (pf_path p) + length (vk_key k) - Suc 0 = length (pf_path p) + (length (vk_key k) - Suc 0)"
    using assms by (cases "vk_key k") simp_all
  have "str_slice (x @ s) (a + length x) (length x + b) = str_slice s a b" for x s :: string and a b
    by (auto simp: str_slice_def seg_def assert_that_def)
  from this [of "pf_path p" "vk_key k" "vk_name_offset k"] assms len show ?thesis
    by (simp add: vk_name_def full_key_def)
qed

section \<open>S3 URIs\<close>

lemma split_once_char:
  "split_once s [c] = (if c \<in> set s then Some (takeWhile (\<lambda>x. x \<noteq> c) s, tl (dropWhile (\<lambda>x. x \<noteq> c) s)) else None)"
  by (induction s) (auto simp: starts_with_def)

lemma takeWhile_name:
  "c \<notin> set n \<Longrightarrow> takeWhile (\<lambda>x. x \<noteq> c) (n @ c # q) = n \<and> dropWhile (\<lambda>x. x \<noteq> c) (n @ c # q) = c # q"
  by (induction n) auto

lemma bucket_new_Inr_iff:
  assumes "regex_char_class is_match"
  shows "bucket_new is_match b = Inr b' \<longleftrightarrow> b' = b \<and> 3 \<le> length b \<and> length b \<le> 255 \<and>
     (list_all bucket_char b \<or> starts_with b ''arn:'')"
proof -
  have "matches_bucket_regex is_match b \<longleftrightarrow> b \<noteq> [] \<and> list_all bucket_char b"
    using assms unfolding matches_bucket_regex_def regex_char_class_def by blast
  moreover have "3 \<le> length b \<Longrightarrow> b \<noteq> []" by auto
  ultimately show ?thesis
    by (cases "length b < 3 \<or> length b > 255") (auto simp del: One_nat_def simp: bucket_new_def validate_bucket_length_def)
qed

lemma bucket_chars_no_special:
  "list_all bucket_char b \<Longrightarrow> CHR ''/'' \<notin> set b \<and> \<not> starts_with b ''arn:''"
proof -
  assume b: "list_all bucket_char b"
  have "\<not> bucket_char (CHR ''/'')" "\<not> bucket_char (CHR '':'')"
    by (simp_all add: bucket_char_def less_eq_char_def)
  with b have "CHR ''/'' \<notin> set b" "CHR '':'' \<notin> set b" by (auto simp: list_all_iff)
  then show ?thesis by (auto simp: starts_with_iff)
qed

text \<open>
  C23: A key is accepted by \<open>TryFrom<String>\<close> exactly when it is the text of a key that descends from
  the root along valid names, and then the result (name offset included) is the very key that the
  descent builds, along the components that \<open>components\<close> returns; the parser never panics.
\<close>

theorem try_from_accepts_built_keys:
  "(vk_try_from s = Done (Inr k) \<longleftrightarrow> vk_key k = s \<and> key_path (vk_components k) k) \<and>
   (\<exists>r. vk_try_from s = Done r)"
proof -
  have built: "vk_try_from (vk_key k) = Done (Inr k)" if "key_path (vk_components k) k"
    using that try_from_path_key unfolding key_path_iff by metis
  from try_from_total [of s] show ?thesis
  proof
    assume "vk_try_from s = Done (Inl (InvalidKey s)) \<and> \<not> (\<exists>ns k. key_path ns k \<and> vk_key k = s)"
    then show ?thesis by auto
  next
    assume "\<exists>k. vk_try_from s = Done (Inr k) \<and> key_path (vk_components k) k \<and> vk_key k = s"
    then obtain j where j: "vk_try_from s = Done (Inr j)" "key_path (vk_components j) j" "vk_key j = s" by blast
    then have "vk_try_from s = Done (Inr k) \<longleftrightarrow> k = j" by auto
    with built j show ?thesis by metis
  qed
qed

text \<open>
  C24: Keys are unambiguous. For a key that descends along the names \<open>ns\<close>, \<open>components\<close> returns \<open>ns\<close>,
  \<open>name\<close> the last of them, also of the full key under a bucket prefix, and the
  full key of no other descent under the same prefix has the same text: two different inodes never
  denote the same S3 key.
\<close>

theorem built_keys_unambiguous:
  assumes "prefix_ok p" and "key_path ns k"
  shows "vk_components k = ns \<and>
     (ns \<noteq> [] \<longrightarrow> vk_name k = Done (last ns) \<and> vk_name (full_key p k) = Done (last ns)) \<and>
     vk_kind (full_key p k) = vk_kind k \<and>
     (\<forall>ms j. key_path ms j \<and> vk_key (full_key p j) = vk_key (full_key p k) \<longrightarrow> ms = ns \<and> j = k)"
    (is "?A \<and> ?B \<and> ?C \<and> ?D")
proof -
  from assms(2) obtain kind where ns: "list_all valid_name ns" and k: "k = path_key ns kind"
    by (auto simp: key_path_iff)
  have A: ?A using ns k by (simp add: components_of_path)
  have B: ?B
  proof
    assume "ns \<noteq> []"
    moreover from this have "vk_key k \<noteq> []"
      using ns k by (cases ns rule: rev_cases) (auto dest: valid_nameD)
    ultimately show "vk_name k = Done (last ns) \<and> vk_name (full_key p k) = Done (last ns)"
      using ns k by (simp add: full_key_name path_key_name)
  qed
  have C: ?C using assms(1) by (rule full_key_kind)
  have D: ?D
  proof (intro allI impI)
    fix ms j
    assume j: "key_path ms j \<and> vk_key (full_key p j) = vk_key (full_key p k)"
    then obtain kind' where ms: "list_all valid_name ms" and j': "j = path_key ms kind'"
      and eq: "vk_key j = vk_key k"
      by (auto simp: key_path_iff full_key_def)
    have "vk_try_from (vk_key k) = Done (Inr k)" using try_from_path_key [OF ns] k by simp
    moreover have "vk_try_from (vk_key j) = Done (Inr j)" using try_from_path_key [OF ms] j' by simp
    ultimately have "j = k" using eq by simp
    moreover have "ms = vk_components j" using ms j' by (simp add: components_of_path)
    ultimately show "ms = ns \<and> j = k" using A by simp
  qed
  from A B C D show ?thesis by blast
qed

theorem built_keys_unambiguous_witness:
  "vk_components (path_key [''a'', ''b''] Directory) = [''a'', ''b''] \<and>
   vk_name (full_key \<lparr>pf_path = ''p/''\<rparr> (path_key [''a'', ''b''] Directory)) = Done ''b''"
proof -
  have "prefix_ok \<lparr>pf_path = ''p/''\<rparr>" by (simp add: prefix_ok_def ends_with_def)
  moreover have "key_path [''a'', ''b''] (path_key [''a'', ''b''] Directory)"
    by (auto simp: key_path_iff valid_name_def parse_str_def)
  ultimately show ?thesis
    using built_keys_unambiguous [of "\<lparr>pf_path = ''p/''\<rparr>" "[''a'', ''b'']" "path_key [''a'', ''b''] Directory"]
    by simp
qed

text \<open>
  C25: An S3 URI is accepted exactly when it reads \<open>s3://\<close>, a bucket name of 3 to 255 letters,
  digits, dashes, dots and underscores, and then nothing or a slash and a prefix that is empty or ends in a
  slash; the parsed path carries that bucket and that prefix, so printing and parsing is a round
  trip. Every other string gives an error, never a path: an ARN in particular.
\<close>

theorem parse_s3_uri_accepts:
  assumes "regex_char_class is_match"
  shows "parse_s3_uri is_match s = Inr sp \<longleftrightarrow>
     (3 \<le> length (sp_bucket sp) \<and> length (sp_bucket sp) \<le> 255 \<and> list_all bucket_char (sp_bucket sp) \<and>
      prefix_ok (sp_prefix sp) \<and>
      (s = ''s3://'' @ sp_bucket sp @ ''/'' @ pf_path (sp_prefix sp) \<or>
       s = ''s3://'' @ sp_bucket sp \<and> sp_prefix sp = prefix_empty))" (is "?L \<longleftrightarrow> ?R")
proof
  assume ?L
  then obtain t b q where t: "s = ''s3://'' @ t" and
    bq: "(case split_once t ''/'' of Some bp \<Rightarrow> bp | None \<Rightarrow> (t, [])) = (b, q)" and
    b: "bucket_new is_match b = Inr (sp_bucket sp)" and arn: "\<not> is_arn b" and
    q: "prefix_new q = Inr (sp_prefix sp)"
    by (auto simp: parse_s3_uri_def strip_prefix_def starts_with_iff bucket_new_Inr_iff [OF assms]
        split: option.splits sum.splits if_splits prod.splits)
  have "t = b @ ''/'' @ q \<or> t = b \<and> q = []"
    using bq split_once_append [of t "''/''" b q] by (auto split: option.splits)
  with t b arn q show ?R
    by (cases sp; cases "sp_prefix sp")
       (auto simp: bucket_new_Inr_iff [OF assms] is_arn_def prefix_new_Inr_iff prefix_empty_def)
next
  assume R: ?R
  then have noslash: "CHR ''/'' \<notin> set (sp_bucket sp)" and noarn: "\<not> is_arn (sp_bucket sp)"
    by (auto simp: is_arn_def dest: bucket_chars_no_special)
  note tw = takeWhile_name [OF noslash]
  have sb: "bucket_new is_match (sp_bucket sp) = Inr (sp_bucket sp)"
    using R by (simp add: bucket_new_Inr_iff [OF assms])
  have sq: "prefix_new (pf_path (sp_prefix sp)) = Inr (sp_prefix sp)"
    using R by (simp add: prefix_new_Inr_iff)
  from R show ?L
    using sb sq noarn noslash tw
    by (auto simp: parse_s3_uri_def strip_prefix_def starts_with_def split_once_char prefix_empty_def)
qed

theorem parse_s3_uri_accepts_witness:
  "parse_s3_uri (\<lambda>_ t. t \<noteq> [] \<and> list_all bucket_char t) ''s3://my_bucket/a/b/''
     = Inr \<lparr>sp_bucket = ''my_bucket'', sp_prefix = \<lparr>pf_path = ''a/b/''\<rparr>\<rparr>"
proof -
  have "regex_char_class (\<lambda>_ t. t \<noteq> [] \<and> list_all bucket_char t)"
    by (simp add: regex_char_class_def)
  moreover have "list_all bucket_char ''my_bucket''"
    by (simp add: bucket_char_def less_eq_char_def)
  moreover have "prefix_ok \<lparr>pf_path = ''a/b/''\<rparr>" by (simp add: prefix_ok_def ends_with_def)
  ultimately show ?thesis
    by (subst parse_s3_uri_accepts) simp_all
qed

end
