(* ===== verification/Metablock.thy ===== *)
theory Metablock
  imports Paths Mock_Client
begin

text \<open>
  The vocabulary of the metablock (\<open>metablock.rs\<close>, \<open>metablock/stat.rs\<close>, \<open>metablock/expiry.rs\<close>,
  \<open>metablock/lookup.rs\<close>, \<open>metablock/error.rs\<close>) and the cache configuration it is built from
  (\<open>fs/time_to_live.rs\<close>, \<open>fs/config.rs\<close>).

  Instants and durations are natural numbers of nanoseconds; the clock reading of an operation is its
  argument \<open>now\<close>. \<open>Instant::checked_add\<close> fails beyond \<open>instant_max\<close>, the largest instant of a
  platform with 64-bit seconds; \<open>configured_ttls_never_overflow\<close> shows that the expiry of every time to
  live that the configuration can produce is below it, so the components use the plain sum.
  Log output and debug assertions, which release builds omit, are left out.
\<close>

section \<open>Time to live\<close>

datatype time_to_live = Minimal | Indefinite | Duration nat

datatype time_to_live_error = InvalidInt | TooLarge

definition nanos_per_second :: nat where
  "nanos_per_second = 1000000000"

definition nanos_per_milli :: nat where
  "nanos_per_milli = 1000000"

definition MAXIMUM_TTL_SECONDS :: nat where
  "MAXIMUM_TTL_SECONDS = 100 * 365 * 24 * 60 * 60"

definition INDEFINITE_DURATION :: nat where
  "INDEFINITE_DURATION = MAXIMUM_TTL_SECONDS * nanos_per_second"

definition NEVER_EXPIRE_TTL :: nat where
  "NEVER_EXPIRE_TTL = 200 * 365 * 24 * 60 * 60 * nanos_per_second"

definition new_from_str :: "string \<Rightarrow> time_to_live_error + time_to_live" where
  "new_from_str s =
     (if s = ''minimal'' then Inr Minimal
      else if s = ''indefinite'' then Inr Indefinite
      else case parse_usize s of
        None \<Rightarrow> Inl InvalidInt
      | Some seconds \<Rightarrow>
          if seconds > MAXIMUM_TTL_SECONDS then Inl TooLarge
          else Inr (Duration (seconds * nanos_per_second)))"

section \<open>Cache configuration\<close>

record cache_config =
  cc_serve_lookup_from_cache :: bool
  cc_file_ttl :: nat
  cc_dir_ttl :: nat
  cc_use_negative_cache :: bool
  cc_negative_cache_ttl :: nat
  cc_negative_cache_size :: nat

definition cache_config_default :: cache_config where
  "cache_config_default =
     \<lparr>cc_serve_lookup_from_cache = False, cc_file_ttl = 100 * nanos_per_milli, cc_dir_ttl = 1000 * nanos_per_milli,
      cc_use_negative_cache = False, cc_negative_cache_ttl = 100 * nanos_per_milli, cc_negative_cache_size = 100000\<rparr>"

definition cache_config_new :: "time_to_live \<Rightarrow> cache_config" where
  "cache_config_new metadata_ttl = (case metadata_ttl of
     Minimal \<Rightarrow> cache_config_default
   | Indefinite \<Rightarrow> cache_config_default\<lparr>cc_serve_lookup_from_cache := True, cc_file_ttl := INDEFINITE_DURATION,
       cc_dir_ttl := INDEFINITE_DURATION, cc_use_negative_cache := True, cc_negative_cache_ttl := INDEFINITE_DURATION\<rparr>
   | Duration ttl \<Rightarrow> cache_config_default\<lparr>cc_serve_lookup_from_cache := True, cc_file_ttl := ttl, cc_dir_ttl := ttl,
       cc_use_negative_cache := True, cc_negative_cache_ttl := ttl\<rparr>)"

definition with_negative_metadata_ttl :: "cache_config \<Rightarrow> time_to_live \<Rightarrow> cache_config" where
  "with_negative_metadata_ttl cc negative_metadata_ttl = (case negative_metadata_ttl of
     Minimal \<Rightarrow> cc\<lparr>cc_use_negative_cache := False,
       cc_negative_cache_ttl := cc_negative_cache_ttl cache_config_default\<rparr>
   | Indefinite \<Rightarrow> cc\<lparr>cc_use_negative_cache := True, cc_negative_cache_ttl := INDEFINITE_DURATION\<rparr>
   | Duration ttl \<Rightarrow> cc\<lparr>cc_use_negative_cache := True, cc_negative_cache_ttl := ttl\<rparr>)"

section \<open>Expiry\<close>

definition instant_max :: nat where
  "instant_max = (2 ^ 63 - 1) * nanos_per_second + (nanos_per_second - 1)"

definition expiry_from_now :: "nat \<Rightarrow> nat \<Rightarrow> nat run" where
  "expiry_from_now now ttl = (if now + ttl \<le> instant_max then Done (now + ttl) else Panic)"

definition remaining_ttl :: "nat \<Rightarrow> nat \<Rightarrow> nat" where
  "remaining_ttl expiry now = expiry - now"

definition is_expired :: "nat \<Rightarrow> nat \<Rightarrow> bool" where
  "is_expired expiry now \<longleftrightarrow> expiry < now"

section \<open>Inode attributes\<close>

record inode_stat =
  st_expiry :: nat
  st_size :: nat
  st_mtime :: nat
  st_ctime :: nat
  st_atime :: nat
  st_etag :: "string option"
  st_is_readable :: bool

definition stat_is_valid :: "inode_stat \<Rightarrow> nat \<Rightarrow> bool" where
  "stat_is_valid st now = (\<not> is_expired (st_expiry st) now)"

definition update_validity :: "nat \<Rightarrow> nat \<Rightarrow> inode_stat \<Rightarrow> inode_stat" where
  "update_validity now validity st = st\<lparr>st_expiry := now + validity\<rparr>"

text \<open>\<open>system_now\<close> is the wall clock, in which restoration times are given.\<close>

definition stat_is_readable :: "nat \<Rightarrow> string option \<Rightarrow> restore_status option \<Rightarrow> bool" where
  "stat_is_readable system_now storage_class restore_status =
     (if storage_class = Some ''GLACIER'' \<or> storage_class = Some ''DEEP_ARCHIVE'' then
        (case restore_status of Some (Restored expiry) \<Rightarrow> expiry > system_now | _ \<Rightarrow> False)
      else True)"

record clock =
  ck_now :: nat
  ck_system :: nat

definition stat_for_file ::
  "clock \<Rightarrow> nat \<Rightarrow> nat \<Rightarrow> string option \<Rightarrow> string option \<Rightarrow> restore_status option \<Rightarrow> nat \<Rightarrow> inode_stat" where
  "stat_for_file clk sz datetime etag storage_class restore_status validity =
     \<lparr>st_expiry = ck_now clk + validity, st_size = sz, st_mtime = datetime, st_ctime = datetime, st_atime = datetime,
      st_etag = etag, st_is_readable = stat_is_readable (ck_system clk) storage_class restore_status\<rparr>"

definition stat_for_directory :: "clock \<Rightarrow> nat \<Rightarrow> nat \<Rightarrow> inode_stat" where
  "stat_for_directory clk datetime validity =
     \<lparr>st_expiry = ck_now clk + validity, st_size = 0, st_mtime = datetime, st_ctime = datetime, st_atime = datetime,
      st_etag = None, st_is_readable = True\<rparr>"

section \<open>Errors and lookups\<close>

record inode_error_info =
  ei_ino :: nat
  ei_key :: string
  ei_bucket :: "string option"

text \<open>A client error keeps the context, bucket and key it was built with; the error of the client itself is opaque.\<close>

datatype inode_error =
  ClientError string string string
| FileDoesNotExist string inode_error_info
| InodeDoesNotExist nat
| InvalidName string
| NotADirectory inode_error_info
| IsDirectory inode_error_info
| FileAlreadyExists inode_error_info
| InodeNotWritable inode_error_info
| InodeInvalidWriteStatus inode_error_info
| InodeAlreadyWriting inode_error_info
| InodeNotReadableWhileWriting inode_error_info
| InodeNotWritableWhileReading inode_error_info
| CannotRemoveRemoteDirectory inode_error_info
| DirectoryNotEmpty inode_error_info
| UnlinkNotPermittedWhileWriting inode_error_info
| CannotRenameDirectory inode_error_info
| RenameNotPermittedWhileWriting inode_error_info
| RenameDestinationExists string inode_error_info
| RenameNotSupported
| NameTooLong string
| CorruptedMetadata inode_error_info
| SetAttrNotPermittedOnRemoteInode inode_error_info
| StaleInode string inode_error_info inode_error_info
| OperationNotSupportedOnSyntheticInode nat
| OutOfOrderReadDir int int nat
| NoSuchDirHandle nat
| FlexibleRetrievalObjectNotAccessible inode_error_info

record inode_information =
  ii_ino :: nat
  ii_stat :: inode_stat
  ii_kind :: inode_kind

record lookup =
  lk_information :: inode_information
  lk_location :: "s3_location option"

definition lookup_new :: "nat \<Rightarrow> inode_stat \<Rightarrow> inode_kind \<Rightarrow> s3_location option \<Rightarrow> lookup" where
  "lookup_new ino st kind location =
     \<lparr>lk_information = \<lparr>ii_ino = ino, ii_stat = st, ii_kind = kind\<rparr>, lk_location = location\<rparr>"

definition lookup_s3_location :: "lookup \<Rightarrow> inode_error + s3_location" where
  "lookup_s3_location l = (case lk_location l of
     Some location \<Rightarrow> Inr location
   | None \<Rightarrow> Inl (OperationNotSupportedOnSyntheticInode (ii_ino (lk_information l))))"

definition lookup_inode_err :: "lookup \<Rightarrow> inode_error_info" where
  "lookup_inode_err l = (case lk_location l of
     Some location \<Rightarrow> \<lparr>ei_ino = ii_ino (lk_information l), ei_key = vk_key (location_full_key location),
       ei_bucket = Some (sp_bucket (sl_path location))\<rparr>
   | None \<Rightarrow> \<lparr>ei_ino = ii_ino (lk_information l), ei_key = ''SYNTHETIC'', ei_bucket = Some ''SYNTHETIC''\<rparr>)"

definition lookup_validity :: "lookup \<Rightarrow> nat \<Rightarrow> nat" where
  "lookup_validity l now = remaining_ttl (st_expiry (ii_stat (lk_information l))) now"

section \<open>Write modes\<close>

record write_mode =
  wm_allow_overwrite :: bool
  wm_incremental_upload :: bool

definition is_inode_writable :: "write_mode \<Rightarrow> bool \<Rightarrow> bool" where
  "is_inode_writable mode is_truncate =
     (wm_incremental_upload mode \<or> (wm_allow_overwrite mode \<and> is_truncate))"

datatype read_write_mode = ModeRead | ModeWrite

record new_handle =
  nh_lookup :: lookup
  nh_mode :: read_write_mode

section \<open>Lemmas\<close>

lemma lookup_new_simps [simp]:
  "ii_ino (lk_information (lookup_new ino st kind l)) = ino"
  "ii_stat (lk_information (lookup_new ino st kind l)) = st"
  "ii_kind (lk_information (lookup_new ino st kind l)) = kind"
  "lk_location (lookup_new ino st kind l) = l"
  by (simp_all add: lookup_new_def)

lemma update_validity_simps [simp]:
  "st_expiry (update_validity now validity st) = now + validity"
  "st_size (update_validity now validity st) = st_size st"
  "st_etag (update_validity now validity st) = st_etag st"
  by (simp_all add: update_validity_def)

lemma stat_is_valid_update [simp]: "stat_is_valid (update_validity now validity st) now"
  by (simp add: stat_is_valid_def is_expired_def)

definition ttl_ok :: "nat \<Rightarrow> bool" where
  "ttl_ok ttl \<longleftrightarrow> ttl \<le> INDEFINITE_DURATION"

definition ttl_value_ok :: "time_to_live \<Rightarrow> bool" where
  "ttl_value_ok t = (case t of Duration d \<Rightarrow> ttl_ok d | _ \<Rightarrow> True)"

lemma new_from_str_ok: "new_from_str s = Inr t \<Longrightarrow> ttl_value_ok t"
  by (auto simp: new_from_str_def ttl_value_ok_def ttl_ok_def INDEFINITE_DURATION_def
      split: if_splits option.splits)

lemmas ttl_defs = ttl_ok_def INDEFINITE_DURATION_def MAXIMUM_TTL_SECONDS_def nanos_per_second_def nanos_per_milli_def

lemma cache_config_default_ttls:
  "ttl_ok (cc_file_ttl cache_config_default)" "ttl_ok (cc_dir_ttl cache_config_default)"
  "ttl_ok (cc_negative_cache_ttl cache_config_default)" "ttl_ok INDEFINITE_DURATION"
  by (simp_all add: cache_config_default_def ttl_defs)

text \<open>
  C29: A time to live read from the command line is rejected unless it is a keyword or a number of
  seconds of at most a hundred years, and no expiry that is computed from a configuration made of
  accepted values overflows the clock, for any clock reading up to the last century before its end:
  \<open>Expiry::from_now\<close> does not panic, and likewise for the attributes of the root inode.
\<close>

theorem configured_ttls_never_overflow:
  assumes "new_from_str s = Inr t" and "new_from_str s' = Inr t'"
    and "now + NEVER_EXPIRE_TTL \<le> instant_max"
    and "cc = cache_config_new t \<or> cc = with_negative_metadata_ttl (cache_config_new t) t'"
    and "ttl \<in> {cc_file_ttl cc, cc_dir_ttl cc, cc_negative_cache_ttl cc, NEVER_EXPIRE_TTL}"
  shows "expiry_from_now now ttl = Done (now + ttl)"
proof -
  have t: "ttl_value_ok t" "ttl_value_ok t'" using assms(1,2) by (simp_all add: new_from_str_ok)
  have new: "ttl_ok (cc_file_ttl (cache_config_new t))" "ttl_ok (cc_dir_ttl (cache_config_new t))"
    "ttl_ok (cc_negative_cache_ttl (cache_config_new t))"
    using t(1) cache_config_default_ttls
    by (simp_all add: cache_config_new_def ttl_value_ok_def split: time_to_live.splits)
  have "ttl_ok (cc_file_ttl cc) \<and> ttl_ok (cc_dir_ttl cc) \<and> ttl_ok (cc_negative_cache_ttl cc)"
    using assms(4) new t(2) cache_config_default_ttls
    by (auto simp: with_negative_metadata_ttl_def ttl_value_ok_def split: time_to_live.splits)
  with assms(5) have "ttl_ok ttl \<or> ttl = NEVER_EXPIRE_TTL" by blast
  moreover have "INDEFINITE_DURATION \<le> NEVER_EXPIRE_TTL"
    by (simp add: ttl_defs NEVER_EXPIRE_TTL_def)
  ultimately have "ttl \<le> NEVER_EXPIRE_TTL" by (auto simp: ttl_ok_def)
  with assms(3) show ?thesis by (simp add: expiry_from_now_def)
qed

theorem configured_ttls_never_overflow_witness:
  "expiry_from_now 5 (cc_file_ttl (cache_config_new (Duration (60 * nanos_per_second)))) =
     Done (5 + cc_file_ttl (cache_config_new (Duration (60 * nanos_per_second))))"
proof -
  have "new_from_str ''60'' = Inr (Duration (60 * nanos_per_second))"
    by (simp add: new_from_str_def parse_usize_def digit_value_def u64_max_def MAXIMUM_TTL_SECONDS_def)
  moreover have "new_from_str ''minimal'' = Inr Minimal" by (simp add: new_from_str_def)
  moreover have "5 + NEVER_EXPIRE_TTL \<le> instant_max"
    by (simp add: NEVER_EXPIRE_TTL_def instant_max_def nanos_per_second_def)
  ultimately show ?thesis
    by (rule configured_ttls_never_overflow [of _ _ _ _ _ "cache_config_new (Duration (60 * nanos_per_second))"]) simp_all
qed

end
