(* ===== verification/Handles_Map.thy ===== *)
theory Handles_Map
  imports Metablock "HOL-Library.AList"
begin

text \<open>
  The table of open file handles per inode (\<open>superblock/handles_map.rs\<close>).

  An inode has any number of readers or one writer, each active or flushed (\<open>Inactive\<close>). A hash map is an
  association list with distinct keys. The lemmas show that in every reachable table the writer
  excludes all readers, that no empty record is kept, and that the table refines a
  readers-writer access per inode in which a new handle overrides the flushed ones.
\<close>

section \<open>Model\<close>

datatype handle_state = Active | Inactive

record inode_handles =
  ih_readers :: "(nat \<times> handle_state) list"
  ih_writer :: "(nat \<times> handle_state) option"

type_synonym inode_handle_map = "nat \<rightharpoonup> inode_handles"

datatype set_writer_error = ActiveWriter | ActiveReaders

definition ih_default :: inode_handles where
  "ih_default = \<lparr>ih_readers = [], ih_writer = None\<rparr>"

definition ih_is_empty :: "inode_handles \<Rightarrow> bool" where
  "ih_is_empty h \<longleftrightarrow> ih_readers h = [] \<and> ih_writer h = None"

definition has_active_writer :: "inode_handles \<Rightarrow> bool" where
  "has_active_writer h = (case ih_writer h of None \<Rightarrow> False | Some (_, st) \<Rightarrow> st = Active)"

definition entry_or_default :: "inode_handle_map \<Rightarrow> nat \<Rightarrow> inode_handles" where
  "entry_or_default m ino = (case m ino of None \<Rightarrow> ih_default | Some h \<Rightarrow> h)"

definition try_add_reader :: "inode_handle_map \<Rightarrow> nat \<Rightarrow> nat \<Rightarrow> inode_handle_map \<times> bool" where
  "try_add_reader m ino fh =
     (let entry = entry_or_default m ino in
      if has_active_writer entry then (m(ino \<mapsto> entry), False)
      else (m(ino \<mapsto> entry\<lparr>ih_writer := None, ih_readers := AList.update fh Active (ih_readers entry)\<rparr>), True))"

definition deactivate_reader :: "inode_handle_map \<Rightarrow> nat \<Rightarrow> nat \<Rightarrow> inode_handle_map" where
  "deactivate_reader m ino fh = (case m ino of
     None \<Rightarrow> m
   | Some entry \<Rightarrow> (case map_of (ih_readers entry) fh of
       None \<Rightarrow> m
     | Some _ \<Rightarrow> m(ino \<mapsto> entry\<lparr>ih_readers := AList.update fh Inactive (ih_readers entry)\<rparr>)))"

definition try_activate_reader :: "inode_handle_map \<Rightarrow> nat \<Rightarrow> nat \<Rightarrow> inode_handle_map \<times> bool" where
  "try_activate_reader m ino fh = (case m ino of
     None \<Rightarrow> (m, False)
   | Some entry \<Rightarrow> (case map_of (ih_readers entry) fh of
       None \<Rightarrow> (m, False)
     | Some _ \<Rightarrow> (m(ino \<mapsto> entry\<lparr>ih_readers := AList.update fh Active (ih_readers entry)\<rparr>), True)))"

definition remove_if_empty :: "inode_handle_map \<Rightarrow> nat \<Rightarrow> inode_handles \<Rightarrow> inode_handle_map" where
  "remove_if_empty m ino entry = (if ih_is_empty entry then m(ino := None) else m(ino \<mapsto> entry))"

definition remove_reader :: "inode_handle_map \<Rightarrow> nat \<Rightarrow> nat \<Rightarrow> inode_handle_map" where
  "remove_reader m ino fh = (case m ino of
     None \<Rightarrow> m
   | Some entry \<Rightarrow> remove_if_empty m ino (entry\<lparr>ih_readers := AList.delete fh (ih_readers entry)\<rparr>))"

definition set_writer :: "inode_handle_map \<Rightarrow> nat \<Rightarrow> nat \<Rightarrow> inode_handle_map \<times> (set_writer_error + unit)" where
  "set_writer m ino fh =
     (let entry = entry_or_default m ino in
      if list_ex (\<lambda>(_, st). st = Active) (ih_readers entry) then (m(ino \<mapsto> entry), Inl ActiveReaders)
      else if has_active_writer entry then (m(ino \<mapsto> entry), Inl ActiveWriter)
      else (m(ino \<mapsto> entry\<lparr>ih_writer := Some (fh, Active), ih_readers := []\<rparr>), Inr ()))"

text \<open>The two changes of the writer's state differ in the state only.\<close>

definition set_writer_state :: "handle_state \<Rightarrow> inode_handle_map \<Rightarrow> nat \<Rightarrow> nat \<Rightarrow> inode_handle_map \<times> bool" where
  "set_writer_state st m ino fh = (case m ino of
     None \<Rightarrow> (m, False)
   | Some entry \<Rightarrow> (case ih_writer entry of
       None \<Rightarrow> (m, False)
     | Some (w, _) \<Rightarrow> if fh = w then (m(ino \<mapsto> entry\<lparr>ih_writer := Some (w, st)\<rparr>), True) else (m, False)))"

definition try_activate_writer :: "inode_handle_map \<Rightarrow> nat \<Rightarrow> nat \<Rightarrow> inode_handle_map \<times> bool" where
  "try_activate_writer = set_writer_state Active"

definition try_deactivate_writer :: "inode_handle_map \<Rightarrow> nat \<Rightarrow> nat \<Rightarrow> inode_handle_map \<times> bool" where
  "try_deactivate_writer = set_writer_state Inactive"

definition try_remove_writer :: "inode_handle_map \<Rightarrow> nat \<Rightarrow> nat \<Rightarrow> inode_handle_map \<times> bool" where
  "try_remove_writer m ino fh = (case m ino of
     None \<Rightarrow> (m, False)
   | Some entry \<Rightarrow> (case ih_writer entry of
       None \<Rightarrow> (m, False)
     | Some (w, _) \<Rightarrow>
         if fh = w then (remove_if_empty m ino (entry\<lparr>ih_writer := None\<rparr>), True) else (m, False)))"

definition remove_inode :: "inode_handle_map \<Rightarrow> nat \<Rightarrow> inode_handle_map \<times> bool" where
  "remove_inode m ino = (m(ino := None), m ino \<noteq> None)"

section \<open>Abstract access\<close>

text \<open>What the table promises: an inode is idle, read through some handles, or written through one.\<close>

datatype access = Idle | Reading "nat \<rightharpoonup> handle_state" | Writing nat handle_state

definition access_of :: "inode_handle_map \<Rightarrow> nat \<Rightarrow> access" where
  "access_of m ino = (case m ino of
     None \<Rightarrow> Idle
   | Some h \<Rightarrow> (case ih_writer h of Some (fh, st) \<Rightarrow> Writing fh st | None \<Rightarrow> Reading (map_of (ih_readers h))))"

definition reading :: "(nat \<rightharpoonup> handle_state) \<Rightarrow> access" where
  "reading r = (if r = Map.empty then Idle else Reading r)"

fun readers_of :: "access \<Rightarrow> nat \<rightharpoonup> handle_state" where
  "readers_of (Reading r) = r"
| "readers_of _ = Map.empty"

datatype handle_op =
  OpenReader nat | FlushReader nat | ResumeReader nat | CloseReader nat
| OpenWriter nat | FlushWriter nat | ResumeWriter nat | CloseWriter nat | ForgetInode

text \<open>The outcome of an operation is whether it was granted.\<close>

fun access_op :: "handle_op \<Rightarrow> access \<Rightarrow> access \<times> bool" where
  "access_op (OpenReader fh) a = (case a of
     Writing w Active \<Rightarrow> (a, False)
   | _ \<Rightarrow> (Reading ((readers_of a)(fh \<mapsto> Active)), True))"
| "access_op (FlushReader fh) a =
     (if readers_of a fh = None then (a, False) else (Reading ((readers_of a)(fh \<mapsto> Inactive)), True))"
| "access_op (ResumeReader fh) a =
     (if readers_of a fh = None then (a, False) else (Reading ((readers_of a)(fh \<mapsto> Active)), True))"
| "access_op (CloseReader fh) a = (case a of
     Reading r \<Rightarrow> (reading (r(fh := None)), r fh \<noteq> None)
   | _ \<Rightarrow> (a, False))"
| "access_op (OpenWriter fh) a =
     (if Active \<in> ran (readers_of a) \<or> (\<exists>w. a = Writing w Active) then (a, False) else (Writing fh Active, True))"
| "access_op (FlushWriter fh) a = (case a of
     Writing w st \<Rightarrow> if fh = w then (Writing w Inactive, True) else (a, False)
   | _ \<Rightarrow> (a, False))"
| "access_op (ResumeWriter fh) a = (case a of
     Writing w st \<Rightarrow> if fh = w then (Writing w Active, True) else (a, False)
   | _ \<Rightarrow> (a, False))"
| "access_op (CloseWriter fh) a = (case a of
     Writing w st \<Rightarrow> if fh = w then (Idle, True) else (a, False)
   | _ \<Rightarrow> (a, False))"
| "access_op ForgetInode a = (Idle, a \<noteq> Idle)"

text \<open>The table's operation for each of them; flushing and closing a reader report nothing.\<close>

fun table_op :: "handle_op \<Rightarrow> inode_handle_map \<Rightarrow> nat \<Rightarrow> inode_handle_map \<times> bool" where
  "table_op (OpenReader fh) m ino = try_add_reader m ino fh"
| "table_op (FlushReader fh) m ino = (deactivate_reader m ino fh, readers_of (access_of m ino) fh \<noteq> None)"
| "table_op (ResumeReader fh) m ino = try_activate_reader m ino fh"
| "table_op (CloseReader fh) m ino = (remove_reader m ino fh, readers_of (access_of m ino) fh \<noteq> None)"
| "table_op (OpenWriter fh) m ino = (let (m, r) = set_writer m ino fh in (m, r = Inr ()))"
| "table_op (FlushWriter fh) m ino = try_deactivate_writer m ino fh"
| "table_op (ResumeWriter fh) m ino = try_activate_writer m ino fh"
| "table_op (CloseWriter fh) m ino = try_remove_writer m ino fh"
| "table_op ForgetInode m ino = remove_inode m ino"

section \<open>Invariant\<close>

definition handles_ok :: "inode_handles \<Rightarrow> bool" where
  "handles_ok h \<longleftrightarrow> distinct (map fst (ih_readers h)) \<and> (ih_writer h = None \<longleftrightarrow> ih_readers h \<noteq> [])"

definition table_ok :: "inode_handle_map \<Rightarrow> bool" where
  "table_ok m \<longleftrightarrow> (\<forall>h \<in> ran m. handles_ok h)"

lemma table_ok_empty [simp]: "table_ok Map.empty"
  by (simp add: table_ok_def)

lemma table_okD: "table_ok m \<Longrightarrow> m ino = Some h \<Longrightarrow> handles_ok h"
  by (auto simp: table_ok_def ran_def)

lemma table_ok_upd: "table_ok m \<Longrightarrow> handles_ok h \<Longrightarrow> table_ok (m(ino \<mapsto> h))"
  by (auto simp: table_ok_def ran_def)

lemma table_ok_del: "table_ok m \<Longrightarrow> table_ok (m(ino := None))"
  by (auto simp: table_ok_def ran_def)

lemmas table_ok_intros = table_ok_upd table_ok_del

lemma update_not_Nil [simp]: "AList.update k v al \<noteq> []"
  by (cases al) auto

lemma delete_Nil_iff: "AList.delete k al = [] \<longleftrightarrow> (map_of al)(k := None) = Map.empty"
  by (metis delete_conv map_of_eq_empty_iff)

lemma list_ex_active_iff:
  "distinct (map fst al) \<Longrightarrow> list_ex (\<lambda>(_, st). st = Active) al \<longleftrightarrow> Active \<in> ran (map_of al)"
  by (force simp: list_ex_iff ran_distinct image_iff)

lemmas handles_defs = try_add_reader_def deactivate_reader_def try_activate_reader_def remove_reader_def set_writer_def
  try_activate_writer_def try_deactivate_writer_def set_writer_state_def try_remove_writer_def remove_inode_def
  entry_or_default_def has_active_writer_def remove_if_empty_def ih_is_empty_def ih_default_def

lemma table_op_ok:
  assumes "table_ok m"
  shows "table_ok (fst (table_op a m ino))"
proof (cases "m ino")
  case None
  with assms show ?thesis
    by (cases a) (auto simp: handles_defs intro!: table_ok_intros simp: handles_ok_def)
next
  case (Some h)
  with assms have "handles_ok h" by (rule table_okD)
  with assms Some show ?thesis
    by (cases a) (auto simp: handles_defs handles_ok_def distinct_update distinct_delete
        split: option.splits intro!: table_ok_intros)
qed

lemma access_of_upd [simp]:
  "access_of (m(ino \<mapsto> h)) ino =
     (case ih_writer h of Some (fh, st) \<Rightarrow> Writing fh st | None \<Rightarrow> Reading (map_of (ih_readers h)))"
  "access_of (m(ino := None)) ino = Idle"
  by (simp_all add: access_of_def)

lemma access_of_other: "ino' \<noteq> ino \<Longrightarrow> access_of (m(ino := h)) ino' = access_of m ino'"
  by (simp add: access_of_def)

section \<open>Refinement\<close>

lemma table_op_refines:
  assumes "table_ok m"
  shows "access_op a (access_of m ino) = (access_of (fst (table_op a m ino)) ino, snd (table_op a m ino))"
proof (cases "m ino")
  case None
  then have "access_of m ino = Idle" by (simp add: access_of_def)
  with None show ?thesis by (cases a) (auto simp: handles_defs Let_def)
next
  case (Some h)
  with assms have ok: "handles_ok h" by (rule table_okD)
  show ?thesis
  proof (cases "ih_writer h")
    case w: None
    with ok Some show ?thesis
      by (cases a) (auto simp: handles_defs handles_ok_def access_of_def update_conv' delete_conv delete_Nil_iff
          list_ex_active_iff reading_def split: option.splits)
  next
    case w: (Some p)
    obtain fh st where "p = (fh, st)" by (cases p)
    with ok Some w show ?thesis
      by (cases st; cases a) (auto simp: handles_defs handles_ok_def access_of_def)
  qed
qed

lemma table_op_other:
  assumes "ino' \<noteq> ino"
  shows "access_of (fst (table_op a m ino)) ino' = access_of m ino'"
  using assms
  by (cases a) (auto simp: handles_defs Let_def access_of_other split: option.splits prod.splits)

fun table_run :: "(nat \<times> handle_op) list \<Rightarrow> inode_handle_map \<Rightarrow> inode_handle_map \<times> bool list" where
  "table_run [] m = (m, [])"
| "table_run ((ino, a) # ops) m =
     (let (m, granted) = table_op a m ino; (m, gs) = table_run ops m in (m, granted # gs))"

fun access_run :: "(nat \<times> handle_op) list \<Rightarrow> (nat \<Rightarrow> access) \<Rightarrow> (nat \<Rightarrow> access) \<times> bool list" where
  "access_run [] s = (s, [])"
| "access_run ((ino, a) # ops) s =
     (let (x, granted) = access_op a (s ino); (s, gs) = access_run ops (s(ino := x)) in (s, granted # gs))"

lemma table_run_refines:
  "table_ok m \<Longrightarrow> table_ok (fst (table_run ops m)) \<and>
     access_run ops (access_of m) = (access_of (fst (table_run ops m)), snd (table_run ops m))"
proof (induction ops arbitrary: m)
  case (Cons e ops)
  obtain ino a where e: "e = (ino, a)" by (cases e)
  obtain m' g where op: "table_op a m ino = (m', g)" by (cases "table_op a m ino")
  have ok: "table_ok m'" using table_op_ok [OF Cons.prems, of a ino] op by simp
  have acc: "access_op a (access_of m ino) = (access_of m' ino, g)"
    using table_op_refines [OF Cons.prems, of a ino] op by simp
  have "(access_of m)(ino := access_of m' ino) = access_of m'"
    using table_op_other [of _ ino a m] op by (auto simp: fun_eq_iff)
  with Cons.IH [OF ok] ok acc show ?case
    by (cases "table_run ops m'") (simp add: e op)
qed simp

text \<open>
  C26: Over any sequence of operations on any inodes, starting from the empty table, the handle table
  behaves as one readers-writer access per inode: the same requests are granted and the same
  handles are open. A reader or writer that opens overrides the flushed handles of the other mode,
  and an active one is never overridden.
\<close>

theorem handle_table_refines_access:
  "access_run ops (\<lambda>_. Idle) = (access_of (fst (table_run ops Map.empty)), snd (table_run ops Map.empty)) \<and>
   table_ok (fst (table_run ops Map.empty))"
proof -
  have "access_of Map.empty = (\<lambda>_. Idle)" by (simp add: access_of_def fun_eq_iff)
  with table_run_refines [of Map.empty ops] show ?thesis by simp
qed

text \<open>
  C27: Exclusive writing. In every table reached by operations from the empty one, while a handle is
  the active writer of an inode there is no reader record of it, no other handle can be opened for
  reading or writing or be resumed, and every such attempt leaves the table's contents as they were;
  only the writer's own flush, its close or forgetting the inode ends its turn.
\<close>

theorem active_writer_exclusive:
  assumes "access_of (fst (table_run ops Map.empty)) ino = Writing fh Active"
    and "a \<notin> {FlushWriter fh, CloseWriter fh, ForgetInode}"
  shows "access_of (fst (table_op a (fst (table_run ops Map.empty)) ino)) ino = Writing fh Active \<and>
    (a \<noteq> ResumeWriter fh \<longrightarrow> \<not> snd (table_op a (fst (table_run ops Map.empty)) ino)) \<and>
    (\<exists>h. fst (table_run ops Map.empty) ino = Some h \<and> ih_readers h = [])"
proof -
  let ?m = "fst (table_run ops Map.empty)"
  have ok: "table_ok ?m" using table_run_refines [of Map.empty ops] by simp
  have "access_op a (Writing fh Active) = (access_of (fst (table_op a ?m ino)) ino, snd (table_op a ?m ino))"
    using table_op_refines [OF ok, of a ino] assms(1) by simp
  moreover obtain h where "?m ino = Some h" "ih_writer h = Some (fh, Active)"
    using assms(1) by (auto simp: access_of_def split: option.splits)
  moreover from this have "ih_readers h = []" using table_okD [OF ok, of ino h] by (auto simp: handles_ok_def)
  ultimately show ?thesis
    using assms(2) by (cases a) (auto split: if_splits)
qed

theorem active_writer_exclusive_witness:
  "access_of (fst (table_op (OpenReader 9)
     (fst (table_run [(7, OpenReader 1), (7, FlushReader 1), (7, OpenWriter 2)] Map.empty)) 7)) 7 = Writing 2 Active"
proof -
  have "access_of (fst (table_run [(7, OpenReader 1), (7, FlushReader 1), (7, OpenWriter 2)] Map.empty)) 7 =
    Writing 2 Active"
    by (simp add: handles_defs Let_def access_of_def)
  from active_writer_exclusive [OF this, of "OpenReader 9"] show ?thesis by simp
qed

end
