(* ===== verification/Negative_Cache.thy ===== *)
theory Negative_Cache
  imports Metablock
begin

text \<open>
  The cache of negative lookups (\<open>superblock/negative_cache.rs\<close>): a bounded set of names known not to
  exist, each for a fixed time.

  The map is a \<open>LinkedHashMap\<close> of the crate \<open>linked_hash_map\<close>: its operations are the parameter
  \<open>L\<close>, and \<open>lhm_laws\<close> is what its documentation says of them, in terms of the entries in order of their last
  insertion. An operation reads the clock several times: \<open>clk i\<close> is its \<open>i\<close>-th reading. The loops that
  remove entries have the number of entries as fuel, which the lemmas show to be enough.
\<close>

section \<open>Model\<close>

datatype neg_key = Key nat string

record 'm linked_hash_map =
  lhm_empty :: 'm
  lhm_get :: "'m \<Rightarrow> neg_key \<Rightarrow> nat option"
  lhm_insert :: "'m \<Rightarrow> neg_key \<Rightarrow> nat \<Rightarrow> 'm \<times> nat option"
  lhm_remove :: "'m \<Rightarrow> neg_key \<Rightarrow> 'm \<times> nat option"
  lhm_front :: "'m \<Rightarrow> (neg_key \<times> nat) option"
  lhm_pop_front :: "'m \<Rightarrow> 'm \<times> (neg_key \<times> nat) option"
  lhm_len :: "'m \<Rightarrow> nat"

definition lhm_laws :: "'m linked_hash_map \<Rightarrow> ('m \<Rightarrow> (neg_key \<times> nat) list) \<Rightarrow> bool" where
  "lhm_laws L entries \<longleftrightarrow> entries (lhm_empty L) = [] \<and>
     (\<forall>m k v. lhm_get L m k = map_of (entries m) k \<and>
        entries (fst (lhm_insert L m k v)) = filter (\<lambda>e. fst e \<noteq> k) (entries m) @ [(k, v)] \<and>
        snd (lhm_insert L m k v) = map_of (entries m) k \<and>
        entries (fst (lhm_remove L m k)) = filter (\<lambda>e. fst e \<noteq> k) (entries m) \<and>
        snd (lhm_remove L m k) = map_of (entries m) k \<and>
        lhm_front L m = (case entries m of [] \<Rightarrow> None | e # _ \<Rightarrow> Some e) \<and>
        entries (fst (lhm_pop_front L m)) = tl (entries m) \<and>
        snd (lhm_pop_front L m) = (case entries m of [] \<Rightarrow> None | e # _ \<Rightarrow> Some e) \<and>
        lhm_len L m = length (entries m))"

record 'm negative_cache =
  nc_map :: 'm
  nc_max_size :: nat
  nc_ttl :: nat

definition nc_new :: "'m linked_hash_map \<Rightarrow> nat \<Rightarrow> nat \<Rightarrow> 'm negative_cache" where
  "nc_new L max_size ttl = \<lparr>nc_map = lhm_empty L, nc_max_size = max_size, nc_ttl = ttl\<rparr>"

definition nc_contains :: "'m linked_hash_map \<Rightarrow> 'm negative_cache \<Rightarrow> nat \<Rightarrow> nat \<Rightarrow> string \<Rightarrow> bool" where
  "nc_contains L nc now parent_ino child_name =
     (case lhm_get L (nc_map nc) (Key parent_ino child_name) of None \<Rightarrow> False
      | Some expiry \<Rightarrow> \<not> is_expired expiry now)"

definition nc_remove :: "'m linked_hash_map \<Rightarrow> 'm negative_cache \<Rightarrow> nat \<Rightarrow> string \<Rightarrow> 'm negative_cache" where
  "nc_remove L nc parent_ino child_name =
     nc\<lparr>nc_map := fst (lhm_remove L (nc_map nc) (Key parent_ino child_name))\<rparr>"

fun pop_expired :: "'m linked_hash_map \<Rightarrow> (nat \<Rightarrow> nat) \<Rightarrow> nat \<Rightarrow> nat \<Rightarrow> 'm \<Rightarrow> 'm" where
  "pop_expired L clk i 0 m = m"
| "pop_expired L clk i (Suc n) m = (case lhm_front L m of
     None \<Rightarrow> m
   | Some (_, e) \<Rightarrow>
       if is_expired e (clk i) then pop_expired L clk (Suc i) n (fst (lhm_pop_front L m)) else m)"

fun pop_excess :: "'m linked_hash_map \<Rightarrow> nat \<Rightarrow> nat \<Rightarrow> 'm \<Rightarrow> 'm" where
  "pop_excess L max_size 0 m = m"
| "pop_excess L max_size (Suc n) m =
     (if lhm_len L m > max_size then
        (case lhm_pop_front L m of (m, None) \<Rightarrow> m | (m, Some _) \<Rightarrow> pop_excess L max_size n m)
      else m)"

definition nc_insert :: "'m linked_hash_map \<Rightarrow> 'm negative_cache \<Rightarrow> (nat \<Rightarrow> nat) \<Rightarrow> nat \<Rightarrow> string \<Rightarrow> 'm negative_cache" where
  "nc_insert L nc clk parent_ino child_name =
     (let expiry = clk 0 + nc_ttl nc;
          (m, old) = lhm_insert L (nc_map nc) (Key parent_ino child_name) expiry
      in if old = None then
           let m = pop_expired L clk 1 (lhm_len L m) m
           in nc\<lparr>nc_map := pop_excess L (nc_max_size nc) (lhm_len L m) m\<rparr>
         else nc\<lparr>nc_map := m\<rparr>)"

section \<open>The loops\<close>

lemma lhm_lawsD:
  assumes "lhm_laws L entries"
  shows "entries (lhm_empty L) = []" "lhm_get L m k = map_of (entries m) k"
    "entries (fst (lhm_insert L m k v)) = filter (\<lambda>e. fst e \<noteq> k) (entries m) @ [(k, v)]"
    "snd (lhm_insert L m k v) = map_of (entries m) k"
    "entries (fst (lhm_remove L m k)) = filter (\<lambda>e. fst e \<noteq> k) (entries m)"
    "lhm_front L m = (case entries m of [] \<Rightarrow> None | e # _ \<Rightarrow> Some e)"
    "entries (fst (lhm_pop_front L m)) = tl (entries m)"
    "snd (lhm_pop_front L m) = (case entries m of [] \<Rightarrow> None | e # _ \<Rightarrow> Some e)"
    "lhm_len L m = length (entries m)"
  using assms unfolding lhm_laws_def by blast+

text \<open>
  The first loop drops a prefix of entries, each expired at one of its clock readings, and stops at
  an entry that is not; the second drops exactly the excess.
\<close>

lemma pop_expired_entries:
  assumes "lhm_laws L entries" and "length (entries m) \<le> n"
  shows "\<exists>j \<le> length (entries m). entries (pop_expired L clk i n m) = drop j (entries m) \<and>
    (\<forall>e \<in> set (take j (entries m)). \<exists>r. is_expired (snd e) (clk r)) \<and>
    (j < length (entries m) \<longrightarrow> (\<exists>r. \<not> is_expired (snd (entries m ! j)) (clk r)))"
  using assms(2)
proof (induction n arbitrary: m i)
  case 0
  then show ?case by simp
next
  case (Suc n)
  note laws = lhm_lawsD [OF assms(1)]
  show ?case
  proof (cases "entries m")
    case Nil
    then show ?thesis by (simp add: laws(6))
  next
    case (Cons e es)
    show ?thesis
    proof (cases "is_expired (snd e) (clk i)")
      case True
      let ?m = "fst (lhm_pop_front L m)"
      have m: "entries ?m = es" using Cons by (simp add: laws(7))
      with Suc.prems Cons have "length (entries ?m) \<le> n" by simp
      from Suc.IH [OF this, of "Suc i"] m obtain j where
        "j \<le> length es" "entries (pop_expired L clk (Suc i) n ?m) = drop j es"
        "\<forall>e \<in> set (take j es). \<exists>r. is_expired (snd e) (clk r)"
        "j < length es \<longrightarrow> (\<exists>r. \<not> is_expired (snd (es ! j)) (clk r))"
        by auto
      with Cons True show ?thesis
        by (intro exI [of _ "Suc j"]) (auto simp: laws(6) split: prod.splits)
    next
      case False
      with Cons show ?thesis
        by (intro exI [of _ 0]) (auto simp: laws(6) split: prod.splits)
    qed
  qed
qed

lemma pop_excess_entries:
  assumes "lhm_laws L entries" and "length (entries m) \<le> n"
  shows "entries (pop_excess L max_size n m) = drop (length (entries m) - max_size) (entries m)"
  using assms(2)
proof (induction n arbitrary: m)
  case 0
  then show ?case by simp
next
  case (Suc n)
  note laws = lhm_lawsD [OF assms(1)]
  show ?case
  proof (cases "length (entries m) > max_size")
    case True
    then obtain e es where m: "entries m = e # es" by (cases "entries m") auto
    obtain m' where pop: "lhm_pop_front L m = (m', Some e)"
      using m laws(8) [of m] by (cases "lhm_pop_front L m") simp
    have "entries m' = es" using m pop laws(7) [of m] by simp
    with Suc.prems m Suc.IH [of m']
    have "entries (pop_excess L max_size n m') = drop (length es - max_size) es" by simp
    moreover have "length (entries m) - max_size = Suc (length es - max_size)" using True m by simp
    ultimately show ?thesis
      using True m pop by (simp add: laws(9))
  next
    case False
    then show ?thesis by (simp add: laws(9))
  qed
qed

lemma nc_insert_entries:
  assumes "lhm_laws L entries" and "length (entries (nc_map nc)) \<le> nc_max_size nc"
    and es: "es = filter (\<lambda>e. fst e \<noteq> Key p c) (entries (nc_map nc)) @ [(Key p c, clk 0 + nc_ttl nc)]"
  obtains d where "entries (nc_map (nc_insert L nc clk p c)) = drop d es"
    and "\<And>i. i < d \<Longrightarrow> i < length es \<Longrightarrow>
      (\<exists>r. is_expired (snd (es ! i)) (clk r)) \<or> i < length es - nc_max_size nc"
    and "length (drop d es) \<le> nc_max_size nc"
proof -
  note laws = lhm_lawsD [OF assms(1)]
  let ?m = "fst (lhm_insert L (nc_map nc) (Key p c) (clk 0 + nc_ttl nc))"
  have m: "entries ?m = es" by (simp add: laws(3) es)
  show thesis
  proof (cases "map_of (entries (nc_map nc)) (Key p c)")
    case None
    let ?m1 = "pop_expired L clk 1 (lhm_len L ?m) ?m"
    from pop_expired_entries [OF assms(1), of ?m "lhm_len L ?m" clk 1] obtain j where
      j: "j \<le> length es" "entries ?m1 = drop j es" "\<forall>e \<in> set (take j es). \<exists>r. is_expired (snd e) (clk r)"
      by (auto simp: m laws(9))
    let ?d = "length es - j - nc_max_size nc + j"
    have ex: "entries (pop_excess L (nc_max_size nc) (lhm_len L ?m1) ?m1) = drop ?d es"
      using pop_excess_entries [OF assms(1), of ?m1 "lhm_len L ?m1"] j(2) by (simp add: laws(9) add.commute)
    have ins: "nc_map (nc_insert L nc clk p c) = pop_excess L (nc_max_size nc) (lhm_len L ?m1) ?m1"
      using None laws(4) [of "nc_map nc" "Key p c" "clk 0 + nc_ttl nc"]
      by (cases "lhm_insert L (nc_map nc) (Key p c) (clk 0 + nc_ttl nc)") (simp add: nc_insert_def Let_def)
    show thesis
    proof (rule that)
      show "entries (nc_map (nc_insert L nc clk p c)) = drop ?d es" using ins ex by simp
      show "length (drop ?d es) \<le> nc_max_size nc" using j(1) by simp
      fix i assume i: "i < ?d" "i < length es"
      show "(\<exists>r. is_expired (snd (es ! i)) (clk r)) \<or> i < length es - nc_max_size nc"
      proof (cases "i < j")
        case True
        with i(2) have "es ! i \<in> set (take j es)" by (auto simp: in_set_conv_nth)
        with j(3) show ?thesis by blast
      next
        case False
        with i show ?thesis by linarith
      qed
    qed
  next
    case (Some v)
    then have ins: "nc_map (nc_insert L nc clk p c) = ?m"
      using laws(4) [of "nc_map nc" "Key p c" "clk 0 + nc_ttl nc"]
      by (cases "lhm_insert L (nc_map nc) (Key p c) (clk 0 + nc_ttl nc)") (simp add: nc_insert_def Let_def)
    have "Key p c \<in> fst ` set (entries (nc_map nc))"
      using Some by (metis domI dom_map_of_conv_image_fst)
    then have "length (filter (\<lambda>e. fst e \<noteq> Key p c) (entries (nc_map nc))) < length (entries (nc_map nc))"
      by (auto intro: length_filter_less)
    with assms(2) have "length es \<le> nc_max_size nc" by (simp add: es)
    with ins m show thesis by (intro that [of 0]) simp_all
  qed
qed

section \<open>Histories\<close>

text \<open>
  The cache is used through insertions, each with its clock readings, and removals.
\<close>

datatype nc_event = NcInsert "nat \<Rightarrow> nat" nat string | NcRemove nat string

fun nc_step :: "'m linked_hash_map \<Rightarrow> nc_event \<Rightarrow> 'm negative_cache \<Rightarrow> 'm negative_cache" where
  "nc_step L (NcInsert clk p c) nc = nc_insert L nc clk p c"
| "nc_step L (NcRemove p c) nc = nc_remove L nc p c"

definition nc_run :: "'m linked_hash_map \<Rightarrow> nat \<Rightarrow> nat \<Rightarrow> nc_event list \<Rightarrow> 'm negative_cache" where
  "nc_run L max_size ttl evs = fold (nc_step L) evs (nc_new L max_size ttl)"

fun removes :: "nat \<Rightarrow> string \<Rightarrow> nc_event \<Rightarrow> bool" where
  "removes p c (NcRemove p' c') = (p' = p \<and> c' = c)"
| "removes p c _ = False"

fun event_key :: "nc_event \<Rightarrow> neg_key" where
  "event_key (NcInsert clk p c) = Key p c"
| "event_key (NcRemove p c) = Key p c"

fun readings_before :: "nat \<Rightarrow> nc_event \<Rightarrow> bool" where
  "readings_before now (NcInsert clk p c) = (\<forall>r. clk r \<le> now)"
| "readings_before now (NcRemove p c) = True"

lemma nc_step_config [simp]:
  "nc_max_size (nc_step L ev nc) = nc_max_size nc" "nc_ttl (nc_step L ev nc) = nc_ttl nc"
  by (cases ev; simp add: nc_insert_def nc_remove_def Let_def split: prod.splits)+

lemma nc_run_config [simp]:
  "nc_max_size (nc_run L max_size ttl evs) = max_size" "nc_ttl (nc_run L max_size ttl evs) = ttl"
  by (induction evs rule: rev_induct) (simp_all add: nc_run_def nc_new_def)

lemma nc_run_snoc: "nc_run L max_size ttl (evs @ [ev]) = nc_step L ev (nc_run L max_size ttl evs)"
  by (simp add: nc_run_def)

lemma nc_run_bounded:
  assumes "lhm_laws L entries"
  shows "length (entries (nc_map (nc_run L max_size ttl evs))) \<le> max_size"
proof (induction evs rule: rev_induct)
  case Nil
  show ?case by (simp add: nc_run_def nc_new_def lhm_lawsD(1) [OF assms])
next
  case (snoc ev evs)
  show ?case
  proof (cases ev)
    case (NcInsert clk p c)
    obtain d es where "entries (nc_map (nc_insert L (nc_run L max_size ttl evs) clk p c)) = drop d es"
      and "length (drop d es) \<le> max_size"
      using nc_insert_entries [OF assms, of "nc_run L max_size ttl evs" _ p c clk] snoc
      by (metis nc_run_config(1))
    with NcInsert show ?thesis by (simp add: nc_run_snoc)
  next
    case (NcRemove p c)
    with snoc show ?thesis
      by (auto simp: nc_run_snoc nc_remove_def lhm_lawsD(5) [OF assms] intro: order_trans [OF length_filter_le])
  qed
qed

lemma nc_run_distinct:
  assumes "lhm_laws L entries"
  shows "distinct (map fst (entries (nc_map (nc_run L max_size ttl evs))))"
proof (induction evs rule: rev_induct)
  case Nil
  show ?case by (simp add: nc_run_def nc_new_def lhm_lawsD(1) [OF assms])
next
  case (snoc ev evs)
  let ?es = "entries (nc_map (nc_run L max_size ttl evs))"
  have filter: "distinct (map fst (filter P ?es))" for P using snoc by (rule distinct_map_filter)
  show ?case
  proof (cases ev)
    case (NcInsert clk p c)
    let ?new = "filter (\<lambda>e. fst e \<noteq> Key p c) ?es @ [(Key p c, clk 0 + ttl)]"
    obtain d where "entries (nc_map (nc_insert L (nc_run L max_size ttl evs) clk p c)) = drop d ?new"
      using nc_insert_entries [OF assms, of "nc_run L max_size ttl evs" ?new p c clk] nc_run_bounded [OF assms, of max_size ttl evs]
      by (metis nc_run_config)
    moreover have "distinct (map fst ?new)" using filter by auto
    ultimately show ?thesis using NcInsert by (simp add: nc_run_snoc drop_map [symmetric] del: drop_append map_append)
  next
    case (NcRemove p c)
    with filter show ?thesis by (simp add: nc_run_snoc nc_remove_def lhm_lawsD(5) [OF assms])
  qed
qed

text \<open>Every entry stems from an insertion that no removal followed.\<close>

lemma nc_run_sound:
  assumes "lhm_laws L entries" and "(Key p c, e) \<in> set (entries (nc_map (nc_run L max_size ttl evs)))"
  shows "\<exists>pre clk post. evs = pre @ NcInsert clk p c # post \<and> e = clk 0 + ttl \<and> \<not> list_ex (removes p c) post"
  using assms(2)
proof (induction evs rule: rev_induct)
  case Nil
  then show ?case by (simp add: nc_run_def nc_new_def lhm_lawsD(1) [OF assms(1)])
next
  case (snoc ev evs)
  let ?nc = "nc_run L max_size ttl evs"
  have old: ?case if "(Key p c, e) \<in> set (entries (nc_map ?nc))" and "\<not> removes p c ev"
  proof -
    from snoc.IH [OF that(1)] obtain pre clk post where
      "evs = pre @ NcInsert clk p c # post" "e = clk 0 + ttl" "\<not> list_ex (removes p c) post" by blast
    with that(2) show ?thesis
      by (intro exI [of _ pre] exI [of _ clk] exI [of _ "post @ [ev]"]) simp
  qed
  show ?case
  proof (cases ev)
    case (NcInsert clk p' c')
    let ?es = "filter (\<lambda>e. fst e \<noteq> Key p' c') (entries (nc_map ?nc)) @ [(Key p' c', clk 0 + ttl)]"
    obtain d where d: "entries (nc_map (nc_insert L ?nc clk p' c')) = drop d ?es"
      using nc_insert_entries [OF assms(1), of ?nc ?es p' c' clk] nc_run_bounded [OF assms(1), of max_size ttl evs]
      by (metis nc_run_config)
    with snoc.prems NcInsert have "(Key p c, e) \<in> set ?es"
      by (auto simp: nc_run_snoc simp del: drop_append dest: in_set_dropD)
    then consider "(Key p c, e) \<in> set (entries (nc_map ?nc))" | "Key p c = Key p' c'" "e = clk 0 + ttl" by auto
    then show ?thesis
    proof cases
      case 1
      with old NcInsert show ?thesis by simp
    next
      case 2
      with NcInsert show ?thesis by (intro exI [of _ evs] exI [of _ clk] exI [of _ "[]"]) simp
    qed
  next
    case (NcRemove p' c')
    with snoc.prems have "(Key p c, e) \<in> set (entries (nc_map ?nc))" "\<not> removes p c ev"
      by (auto simp: nc_run_snoc nc_remove_def lhm_lawsD(5) [OF assms(1)])
    then show ?thesis by (rule old)
  qed
qed

text \<open>An insertion keeps every entry that is current and has fewer than \<open>max_size\<close> entries behind it.\<close>

lemma nc_insert_keeps:
  assumes "lhm_laws L entries" and "length (entries (nc_map nc)) \<le> nc_max_size nc"
    and es: "filter (\<lambda>e. fst e \<noteq> Key p c) (entries (nc_map nc)) @ [(Key p c, clk 0 + nc_ttl nc)] = as @ x # bs"
    and "\<forall>r. clk r \<le> snd x" and "length bs < nc_max_size nc"
  shows "\<exists>as'. entries (nc_map (nc_insert L nc clk p c)) = as' @ x # bs"
proof -
  obtain d where d: "entries (nc_map (nc_insert L nc clk p c)) = drop d (as @ x # bs)"
    and why: "\<And>i. i < d \<Longrightarrow> i < length (as @ x # bs) \<Longrightarrow>
      (\<exists>r. is_expired (snd ((as @ x # bs) ! i)) (clk r)) \<or> i < length (as @ x # bs) - nc_max_size nc"
    using nc_insert_entries [OF assms(1,2), of "as @ x # bs" p c clk] es by metis
  have "d \<le> length as"
  proof (rule ccontr)
    assume "\<not> d \<le> length as"
    with why [of "length as"] have "(\<exists>r. is_expired (snd x) (clk r)) \<or> length as < length (as @ x # bs) - nc_max_size nc"
      by simp
    with assms(4,5) show False by (auto simp: is_expired_def not_less [symmetric])
  qed
  with d show ?thesis by simp
qed

fun is_insert :: "nc_event \<Rightarrow> bool" where
  "is_insert (NcInsert clk p c) = True"
| "is_insert (NcRemove p c) = False"

definition inserted_keys :: "nc_event list \<Rightarrow> neg_key set" where
  "inserted_keys evs = event_key ` set (filter is_insert evs)"

lemma inserted_keys_snoc:
  "inserted_keys (evs @ [ev]) = (if is_insert ev then insert (event_key ev) (inserted_keys evs) else inserted_keys evs)"
  by (auto simp: inserted_keys_def)

lemma nc_run_keeps:
  assumes "lhm_laws L entries" and "now \<le> clk 0 + ttl" and "\<forall>r. clk r \<le> now"
    and "\<forall>ev \<in> set post. event_key ev \<noteq> Key p c \<and> readings_before now ev"
    and "card (inserted_keys post) < max_size"
  shows "\<exists>as bs. entries (nc_map (nc_run L max_size ttl (pre @ NcInsert clk p c # post))) =
      as @ (Key p c, clk 0 + ttl) # bs \<and> fst ` set bs \<subseteq> inserted_keys post"
  using assms(4,5)
proof (induction post rule: rev_induct)
  case Nil
  let ?nc = "nc_run L max_size ttl pre"
  have "\<exists>as. entries (nc_map (nc_insert L ?nc clk p c)) = as @ [(Key p c, clk 0 + ttl)]"
    using nc_insert_keeps [OF assms(1), of ?nc p c clk _ "(Key p c, clk 0 + ttl)" "[]"] nc_run_bounded [OF assms(1)]
      order_trans [OF _ assms(2)] assms(3) Nil.prems by auto
  then obtain as where "entries (nc_map (nc_insert L ?nc clk p c)) = as @ [(Key p c, clk 0 + ttl)]" by blast
  then show ?case by (intro exI [of _ as] exI [of _ "[]"]) (simp add: nc_run_snoc)
next
  case (snoc ev post)
  let ?evs = "pre @ NcInsert clk p c # post" and ?x = "(Key p c, clk 0 + ttl)"
  let ?nc = "nc_run L max_size ttl ?evs"
  have run: "nc_run L max_size ttl (pre @ NcInsert clk p c # post @ [ev]) = nc_step L ev ?nc"
    using nc_run_snoc [of L max_size ttl ?evs ev] by simp
  have fin: "finite (inserted_keys (post @ [ev]))" "finite (inserted_keys post)" by (simp_all add: inserted_keys_def)
  have "inserted_keys post \<subseteq> inserted_keys (post @ [ev])" by (auto simp: inserted_keys_snoc)
  with fin snoc.prems(2) have "card (inserted_keys post) < max_size"
    using card_mono le_less_trans by metis
  with snoc obtain as bs where old: "entries (nc_map ?nc) = as @ ?x # bs" and bs: "fst ` set bs \<subseteq> inserted_keys post"
    by auto
  show ?case
  proof (cases ev)
    case (NcInsert clk' p' c')
    let ?f = "filter (\<lambda>e. fst e \<noteq> Key p' c')"
    let ?bs = "?f bs @ [(Key p' c', clk' 0 + ttl)]"
    have other: "Key p c \<noteq> Key p' c'" and before: "\<forall>r. clk' r \<le> now" using snoc.prems(1) NcInsert by auto
    have keys: "fst ` set ?bs \<subseteq> inserted_keys (post @ [ev])"
      using bs NcInsert by (auto simp: inserted_keys_snoc)
    have es: "?f (entries (nc_map ?nc)) @ [(Key p' c', clk' 0 + nc_ttl ?nc)] = ?f as @ ?x # ?bs"
      using old other by simp
    have "distinct (map fst bs)" using old nc_run_distinct [OF assms(1), of max_size ttl ?evs] by simp
    then have "distinct (map fst ?bs)" by (auto simp: distinct_map inj_on_def distinct_filter)
    then have "length ?bs = card (fst ` set ?bs)" using distinct_card [of "map fst ?bs"] by simp
    also have "\<dots> < max_size" using card_mono [OF fin(1) keys] snoc.prems(2) by linarith
    finally have "\<exists>as'. entries (nc_map (nc_insert L ?nc clk' p' c')) = as' @ ?x # ?bs"
      using nc_insert_keeps [of L entries ?nc p' c' clk' "?f as" ?x ?bs] assms(1) es
        nc_run_bounded [OF assms(1), of max_size ttl ?evs] order_trans [OF _ assms(2)] before
      by (simp only: nc_run_config snd_conv) blast
    with keys show ?thesis using run NcInsert nc_step.simps(1) by metis
  next
    case (NcRemove p' c')
    let ?f = "filter (\<lambda>e. fst e \<noteq> Key p' c')"
    have "entries (nc_map (nc_step L ev ?nc)) = ?f as @ ?x # ?f bs"
      using old snoc.prems(1) NcRemove by (auto simp: nc_remove_def lhm_lawsD(5) [OF assms(1)])
    moreover have "fst ` set (?f bs) \<subseteq> inserted_keys (post @ [ev])"
      using bs NcRemove by (auto simp: inserted_keys_snoc)
    ultimately show ?thesis using run by metis
  qed
qed

text \<open>
  C28: The negative cache never holds more than \<open>max_size\<close> names. A hit is truthful about the history: the
  name was inserted within the last \<open>ttl\<close> and not removed since. And the cache does remember: a name that
  was inserted within the last \<open>ttl\<close> and not removed since is a hit, as long as fewer than \<open>max_size\<close> other
  names were inserted after it.
\<close>

theorem negative_cache_correct:
  assumes "lhm_laws L entries"
  shows "length (entries (nc_map (nc_run L max_size ttl evs))) \<le> max_size \<and>
    (nc_contains L (nc_run L max_size ttl evs) now p c \<longrightarrow>
       (\<exists>pre clk post. evs = pre @ NcInsert clk p c # post \<and> now \<le> clk 0 + ttl \<and> \<not> list_ex (removes p c) post)) \<and>
    (\<forall>pre clk post. evs = pre @ NcInsert clk p c # post \<and> now \<le> clk 0 + ttl \<and> (\<forall>r. clk r \<le> now) \<and>
       (\<forall>ev \<in> set post. event_key ev \<noteq> Key p c \<and> readings_before now ev) \<and> card (inserted_keys post) < max_size \<longrightarrow>
       nc_contains L (nc_run L max_size ttl evs) now p c)"
proof (intro conjI impI allI)
  show "length (entries (nc_map (nc_run L max_size ttl evs))) \<le> max_size" by (rule nc_run_bounded [OF assms])
next
  let ?m = "nc_map (nc_run L max_size ttl evs)"
  assume "nc_contains L (nc_run L max_size ttl evs) now p c"
  then obtain e where "map_of (entries ?m) (Key p c) = Some e" and "now \<le> e"
    by (auto simp: nc_contains_def lhm_lawsD(2) [OF assms] is_expired_def split: option.splits)
  with nc_run_sound [OF assms map_of_SomeD]
  show "\<exists>pre clk post. evs = pre @ NcInsert clk p c # post \<and> now \<le> clk 0 + ttl \<and> \<not> list_ex (removes p c) post" by blast
next
  let ?m = "nc_map (nc_run L max_size ttl evs)"
  fix pre clk post
  assume A: "evs = pre @ NcInsert clk p c # post \<and> now \<le> clk 0 + ttl \<and> (\<forall>r. clk r \<le> now) \<and>
    (\<forall>ev \<in> set post. event_key ev \<noteq> Key p c \<and> readings_before now ev) \<and> card (inserted_keys post) < max_size"
  then have "(Key p c, clk 0 + ttl) \<in> set (entries ?m)"
    using nc_run_keeps [OF assms, of now clk ttl post p c max_size pre] by auto
  then have "map_of (entries ?m) (Key p c) = Some (clk 0 + ttl)"
    using nc_run_distinct [OF assms] by (simp add: map_of_eq_Some_iff)
  with A show "nc_contains L (nc_run L max_size ttl evs) now p c"
    by (simp add: nc_contains_def lhm_lawsD(2) [OF assms] is_expired_def)
qed

text \<open>Lists in order of last insertion are an instance of the map's documented behaviour.\<close>

definition list_map :: "(neg_key \<times> nat) list linked_hash_map" where
  "list_map =
     \<lparr>lhm_empty = [], lhm_get = map_of,
      lhm_insert = (\<lambda>m k v. (filter (\<lambda>e. fst e \<noteq> k) m @ [(k, v)], map_of m k)),
      lhm_remove = (\<lambda>m k. (filter (\<lambda>e. fst e \<noteq> k) m, map_of m k)),
      lhm_front = (\<lambda>m. case m of [] \<Rightarrow> None | e # _ \<Rightarrow> Some e),
      lhm_pop_front = (\<lambda>m. (tl m, case m of [] \<Rightarrow> None | e # _ \<Rightarrow> Some e)), lhm_len = length\<rparr>"

lemma list_map_laws: "lhm_laws list_map id"
  by (simp add: lhm_laws_def list_map_def)

theorem negative_cache_correct_witness:
  "nc_contains list_map (nc_run list_map 2 100
     [NcInsert (\<lambda>_. 5) 1 ''a'', NcInsert (\<lambda>_. 7) 1 ''b'', NcInsert (\<lambda>_. 8) 1 ''b'', NcRemove 1 ''c'']) 10 1 ''a''"
proof -
  let ?post = "[NcInsert (\<lambda>_. 7) 1 ''b'', NcInsert (\<lambda>_. 8) 1 ''b'', NcRemove 1 ''c'']"
  have "card (inserted_keys ?post) < 2" by (simp add: inserted_keys_def)
  then show ?thesis
    using negative_cache_correct [OF list_map_laws, of 2 100 "NcInsert (\<lambda>_. 5) 1 ''a'' # ?post" 10 1 "''a''"]
    by (elim conjE allE [of _ "[]"] allE [of _ "\<lambda>_. 5"] allE [of _ ?post]) simp
qed

end
