(* ===== verification/Mock_List.thy ===== *)
theory Mock_List
  imports Mock_Store "HOL-Library.Multiset"
begin

text \<open>
  Listing the in-memory bucket (\<open>list_objects_ordered\<close>, \<open>list_objects_unordered\<close> and \<open>list_objects\<close> of
  \<open>mountpoint-s3-client/src/mock_client.rs\<close>), which the directory listing of the file system pages through: keys
  that share a prefix up to the next delimiter are rolled up into one common prefix, a page holds at most
  \<open>max_keys\<close> entries, and the continuation token is the key to start the next page from.
\<close>

section \<open>Model\<close>

record object_info =
  oi_key :: string
  oi_size :: nat
  oi_last_modified :: nat
  oi_storage_class :: "string option"
  oi_restore_status :: "restore_status option"
  oi_etag :: string
  oi_checksum_algorithms :: "checksum_algorithm list"

record list_objects_result =
  lo_objects :: "object_info list"
  lo_common_prefixes :: "string list"
  lo_next_continuation_token :: "string option"

definition object_info_of :: "string \<times> mock_object \<Rightarrow> object_info" where
  "object_info_of e = (case e of (key, ob) \<Rightarrow>
     \<lparr>oi_key = key, oi_size = mo_size ob, oi_last_modified = mo_last_modified ob, oi_storage_class = mo_storage_class ob,
      oi_restore_status = mo_restore_status ob, oi_etag = mo_etag ob,
      oi_checksum_algorithms = checksum_algorithms (mo_checksum ob)\<rparr>)"

text \<open>The split of a key without its prefix at the delimiter.\<close>

definition split_delimiter :: "string option \<Rightarrow> string \<Rightarrow> string option" where
  "split_delimiter delimiter s = (case delimiter of
     None \<Rightarrow> None | Some d \<Rightarrow> map_option (\<lambda>(pre, _). pre @ d) (split_once s d))"

text \<open>The loop over the entries; a \<open>BTreeSet\<close> of prefixes is the sorted list of its elements.\<close>

fun list_loop ::
  "string option \<Rightarrow> nat \<Rightarrow> string \<Rightarrow> (string \<times> mock_object) list \<Rightarrow> string list \<Rightarrow> object_info list \<Rightarrow> string option \<Rightarrow>
     list_objects_result" where
  "list_loop delimiter max_keys pre [] common_prefixes object_vec ccp =
     \<lparr>lo_objects = object_vec, lo_common_prefixes = common_prefixes, lo_next_continuation_token = None\<rparr>"
| "list_loop delimiter max_keys pre ((key, ob) # rest) common_prefixes object_vec ccp =
     (let key_prefix = (if length key \<ge> length pre then take (length pre) key else key) in
      if key_prefix > pre
      then \<lparr>lo_objects = object_vec, lo_common_prefixes = common_prefixes, lo_next_continuation_token = None\<rparr>
      else if \<not> starts_with key pre then list_loop delimiter max_keys pre rest common_prefixes object_vec ccp
      else if length common_prefixes + length object_vec \<ge> max_keys then
        (if ccp \<noteq> None \<and> starts_with key (the ccp) then list_loop delimiter max_keys pre rest common_prefixes object_vec ccp
         else \<lparr>lo_objects = object_vec, lo_common_prefixes = common_prefixes, lo_next_continuation_token = Some key\<rparr>)
      else (case split_delimiter delimiter (drop (length pre) key) of
          Some s \<Rightarrow>
            let common_prefix = pre @ s in
            if common_prefix \<in> set common_prefixes
            then list_loop delimiter max_keys pre rest common_prefixes object_vec ccp
            else list_loop delimiter max_keys pre rest (insort common_prefix common_prefixes) object_vec (Some common_prefix)
        | None \<Rightarrow> list_loop delimiter max_keys pre rest common_prefixes (object_vec @ [object_info_of (key, ob)]) ccp))"

definition delimiter_option :: "string \<Rightarrow> string option" where
  "delimiter_option d = (if d = [] then None else Some d)"

definition entries_from :: "mock_client \<Rightarrow> string \<Rightarrow> (string \<times> mock_object) list" where
  "entries_from c token = filter (\<lambda>e. token \<le> fst e) (RBT.entries (mc_objects c))"

definition list_objects_ordered ::
  "mock_client \<Rightarrow> string option \<Rightarrow> string \<Rightarrow> nat \<Rightarrow> string \<Rightarrow> list_objects_result" where
  "list_objects_ordered c token delimiter max_keys pre =
     list_loop (delimiter_option delimiter) max_keys pre
       (entries_from c (case token of None \<Rightarrow> [] | Some t \<Rightarrow> t)) [] [] None"

text \<open>
  The listing in random order, as directory buckets give it. The shuffle is the function of the random number crate;
  a continuation token is an index into the shuffled keys, printed in decimal.
\<close>

fun unordered_loop ::
  "mock_client \<Rightarrow> string option \<Rightarrow> string \<Rightarrow> string list \<Rightarrow> string list \<Rightarrow> object_info list \<Rightarrow>
     (string list \<times> object_info list) run" where
  "unordered_loop c delimiter pre [] common_prefixes object_vec = Done (common_prefixes, object_vec)"
| "unordered_loop c delimiter pre (key # rest) common_prefixes object_vec =
     (case RBT.lookup (mc_objects c) key of
        None \<Rightarrow> Panic
      | Some ob \<Rightarrow> (case split_delimiter delimiter (drop (length pre) key) of
          Some s \<Rightarrow>
            let common_prefix = pre @ s in
            unordered_loop c delimiter pre rest
              (if common_prefix \<in> set common_prefixes then common_prefixes else common_prefixes @ [common_prefix]) object_vec
        | None \<Rightarrow> unordered_loop c delimiter pre rest common_prefixes (object_vec @ [object_info_of (key, ob)])))"

definition list_objects_unordered ::
  "(nat \<Rightarrow> string list \<Rightarrow> string list) \<Rightarrow> mock_client \<Rightarrow> string option \<Rightarrow> string \<Rightarrow> nat \<Rightarrow> string \<Rightarrow> nat \<Rightarrow>
     list_objects_result run" where
  "list_objects_unordered shuffle c token delimiter max_keys pre seed =
     (let object_keys = shuffle seed (filter (\<lambda>k. starts_with k pre) (RBT.keys (mc_objects c))) in
      and_then (case token of None \<Rightarrow> Done 0
                | Some ct \<Rightarrow> (case parse_usize ct of Some n \<Rightarrow> Done n | None \<Rightarrow> Panic)) (\<lambda>next_index.
      let page = take max_keys (drop next_index object_keys) in
      and_then (unordered_loop c (delimiter_option delimiter) pre page [] []) (\<lambda>(cps, objs).
        let next_continuation_token = next_index + length page in
        Done \<lparr>lo_objects = objs, lo_common_prefixes = cps,
              lo_next_continuation_token = (if next_continuation_token = next_index + max_keys
                then Some (nat_to_string next_continuation_token) else None)\<rparr>)))"

datatype list_objects_error = ListNoSuchBucket

definition list_objects ::
  "(nat \<Rightarrow> string list \<Rightarrow> string list) \<Rightarrow> mock_client \<Rightarrow> string \<Rightarrow> string option \<Rightarrow> string \<Rightarrow> nat \<Rightarrow> string \<Rightarrow>
     (mock_client \<times> (list_objects_error + list_objects_result)) run" where
  "list_objects shuffle c bucket token delimiter max_keys pre =
     (let c = inc_op_count OpListObjectsV2 c in
      if bucket \<noteq> mcc_bucket (mc_config c) then Done (c, Inl ListNoSuchBucket)
      else case mcc_unordered_list_seed (mc_config c) of
        Some seed \<Rightarrow> and_then (list_objects_unordered shuffle c token delimiter max_keys pre seed) (\<lambda>r. Done (c, Inr r))
      | None \<Rightarrow> Done (c, Inr (list_objects_ordered c token delimiter max_keys pre)))"

section \<open>What a listing is\<close>

text \<open>The item a key contributes: a common prefix or the object itself.\<close>

definition list_item :: "string option \<Rightarrow> string \<Rightarrow> string \<times> mock_object \<Rightarrow> string + object_info" where
  "list_item d pre e = (case split_delimiter d (drop (length pre) (fst e)) of
     Some s \<Rightarrow> Inl (pre @ s) | None \<Rightarrow> Inr (object_info_of e))"

definition list_items :: "string option \<Rightarrow> string \<Rightarrow> (string \<times> mock_object) list \<Rightarrow> (string + object_info) list" where
  "list_items d pre es = remdups_adj (map (list_item d pre) (filter (\<lambda>e. starts_with (fst e) pre) es))"

fun lefts :: "('a + 'b) list \<Rightarrow> 'a list" where
  "lefts [] = []"
| "lefts (Inl x # xs) = x # lefts xs"
| "lefts (Inr y # xs) = lefts xs"

fun rights :: "('a + 'b) list \<Rightarrow> 'b list" where
  "rights [] = []"
| "rights (Inl x # xs) = rights xs"
| "rights (Inr y # xs) = y # rights xs"

lemma lefts_append [simp]: "lefts (xs @ ys) = lefts xs @ lefts ys"
  by (induction xs rule: lefts.induct) auto

lemma rights_append [simp]: "rights (xs @ ys) = rights xs @ rights ys"
  by (induction xs rule: rights.induct) auto

lemma length_lefts_rights: "length (lefts xs) + length (rights xs) = length xs"
  by (induction xs rule: lefts.induct) auto

lemma set_lefts: "x \<in> set (lefts xs) \<longleftrightarrow> Inl x \<in> set xs"
  by (induction xs rule: lefts.induct) auto

section \<open>Keys of one common prefix are adjacent\<close>

lemma split_delimiter_prefix:
  assumes "split_delimiter d s = Some p"
  shows "starts_with s p" and "split_delimiter d (p @ t) = Some p"
proof -
  from assms obtain dd a b where d: "d = Some dd" "split_once s dd = Some (a, b)" "p = a @ dd"
    by (auto simp: split_delimiter_def split: option.splits)
  show "starts_with s p" using split_once_append [OF d(2)] d(3) by (simp add: starts_with_def)
  from split_once_prefix [OF d(2), of t] d show "split_delimiter d (p @ t) = Some p"
    by (auto simp: split_delimiter_def)
qed

lemma list_item_prefix:
  assumes "list_item d pre e = Inl cp"
  shows "starts_with (fst e) pre \<Longrightarrow> starts_with (fst e) cp" and "starts_with (fst e') cp \<Longrightarrow> list_item d pre e' = Inl cp"
proof -
  from assms obtain s where s: "split_delimiter d (drop (length pre) (fst e)) = Some s" "cp = pre @ s"
    by (auto simp: list_item_def split: option.splits)
  show "starts_with (fst e) cp" if "starts_with (fst e) pre"
    using that split_delimiter_prefix(1) [OF s(1)] s(2) by (auto simp: starts_with_iff)
  show "list_item d pre e' = Inl cp" if "starts_with (fst e') cp"
    using that split_delimiter_prefix(2) [OF s(1)] s(2) by (auto simp: list_item_def starts_with_iff)
qed

definition keys_ascending :: "(string \<times> mock_object) list \<Rightarrow> bool" where
  "keys_ascending es \<longleftrightarrow> sorted_wrt (\<lambda>a b. fst a < fst b) es"

lemma list_item_inj:
  assumes "list_item d pre e = list_item d pre e'" and "list_item d pre e = Inr oi"
  shows "fst e = fst e'"
  using assms by (auto simp: list_item_def object_info_of_def split: option.splits prod.splits)

lemma list_items_empty [simp]: "list_items d pre [] = []"
  by (simp add: list_items_def)

lemma list_items_skip: "\<not> starts_with (fst e) pre \<Longrightarrow> list_items d pre (es @ [e]) = list_items d pre es"
  by (simp add: list_items_def)

lemma list_items_Nil_iff: "list_items d pre es = [] \<longleftrightarrow> filter (\<lambda>e. starts_with (fst e) pre) es = []"
  by (simp add: list_items_def)

lemma list_items_split:
  assumes "list_items d pre xs = [] \<or> last (list_items d pre xs) \<noteq> list_item d pre e" and "starts_with (fst e) pre"
  shows "list_items d pre (xs @ e # ys) = list_items d pre xs @ list_items d pre (e # ys)"
proof -
  let ?g = "\<lambda>es. map (list_item d pre) (filter (\<lambda>e. starts_with (fst e) pre) es)"
  have "?g xs = [] \<or> ?g (e # ys) = [] \<or> last (?g xs) \<noteq> hd (?g (e # ys))"
    using assms by (auto simp: list_items_def last_remdups_adj)
  from remdups_adj_append' [OF this] show ?thesis by (simp add: list_items_def)
qed

lemma list_items_repeat:
  assumes "list_items d pre xs \<noteq> []" and "last (list_items d pre xs) = list_item d pre e" and "starts_with (fst e) pre"
  shows "list_items d pre (xs @ [e]) = list_items d pre xs"
proof -
  let ?g = "map (list_item d pre) (filter (\<lambda>e. starts_with (fst e) pre) xs)"
  have "?g \<noteq> []" using assms(1) by (auto simp: list_items_def)
  moreover have "last ?g = list_item d pre e" using assms(2) by (simp add: list_items_def last_remdups_adj)
  ultimately show ?thesis
    using remdups_adj_append'' [of ?g "[list_item d pre e]"] assms(3) by (simp add: list_items_def)
qed

lemma list_items_mem:
  "x \<in> set (list_items d pre es) \<longleftrightarrow> (\<exists>e \<in> set es. starts_with (fst e) pre \<and> list_item d pre e = x)"
  by (auto simp: list_items_def)

text \<open>If a key has a common prefix that was seen before, then it was the last item seen.\<close>

lemma seen_prefix_is_last:
  assumes asc: "keys_ascending (xs @ [e])" and e: "starts_with (fst e) pre" "list_item d pre e = Inl cp"
    and seen: "Inl cp \<in> set (list_items d pre xs)"
  shows "list_items d pre xs \<noteq> [] \<and> last (list_items d pre xs) = Inl cp"
proof -
  define f where "f = filter (\<lambda>e. starts_with (fst e) pre) xs"
  from seen obtain e1 where e1: "e1 \<in> set f" "list_item d pre e1 = Inl cp" "starts_with (fst e1) pre"
    by (auto simp: list_items_mem f_def)
  then obtain zs l where f: "f = zs @ [l]" by (cases f rule: rev_cases) auto
  have "keys_ascending f"
    using asc unfolding keys_ascending_def f_def sorted_wrt_append by (simp add: sorted_wrt_filter)
  then have asc_f: "\<forall>z \<in> set zs. fst z < fst l" unfolding f keys_ascending_def sorted_wrt_append by simp
  have "e1 \<in> set zs \<or> e1 = l" using e1(1) f by auto
  then have le: "fst e1 \<le> fst l" using asc_f less_imp_le by blast
  have "l \<in> set f" using f by simp
  then have l: "l \<in> set xs" by (simp add: f_def)
  then have lt: "fst l \<le> fst e" using asc unfolding keys_ascending_def sorted_wrt_append by (simp add: less_imp_le)
  have "starts_with (fst e1) cp" "starts_with (fst e) cp"
    using list_item_prefix(1) [OF e1(2,3)] list_item_prefix(1) [OF e(2,1)] by blast+
  from starts_with_between [OF this le lt] have "list_item d pre l = Inl cp" by (rule list_item_prefix(2) [OF e1(2)])
  with f show ?thesis unfolding list_items_def f_def [symmetric] by (simp add: last_remdups_adj)
qed

lemma incomparable_less:
  assumes "(a :: string) < b" and "starts_with a p" and "starts_with b q" and "\<not> starts_with b p" and "\<not> starts_with a q"
  shows "p < q"
proof (rule ccontr)
  assume "\<not> p < q"
  then have qp: "q \<le> p" by simp
  let ?n = "min (length p) (length q)"
  have "take ?n (take (length p) a) = take ?n p" "take ?n (take (length q) b) = take ?n q"
    using assms(2,3) by (simp_all add: starts_with_def)
  then have pa: "take ?n a = take ?n p" and qb: "take ?n b = take ?n q" by (simp_all add: min.commute)
  have "take ?n p \<le> take ?n q" using take_mono [of a b ?n] assms(1) pa qb by simp
  with take_mono [OF qp, of ?n] have eq: "take ?n p = take ?n q" by simp
  show False
  proof (cases "length p \<le> length q")
    case True
    with eq have "starts_with q p" by (simp add: starts_with_def)
    with assms(3,4) starts_with_trans show False by blast
  next
    case False
    with eq have "starts_with p q" by (simp add: starts_with_def)
    with assms(2,5) starts_with_trans show False by blast
  qed
qed

lemma new_prefix_is_greatest:
  assumes asc: "keys_ascending (xs @ [e])" and e: "starts_with (fst e) pre" "list_item d pre e = Inl cp"
    and new: "Inl cp \<notin> set (list_items d pre xs)" and p: "Inl p \<in> set (list_items d pre xs)"
  shows "p < cp"
proof -
  from p obtain e1 where e1: "e1 \<in> set xs" "starts_with (fst e1) pre" "list_item d pre e1 = Inl p"
    by (auto simp: list_items_mem)
  have lt: "fst e1 < fst e" using asc e1(1) by (auto simp: keys_ascending_def sorted_wrt_append)
  have ne: "p \<noteq> cp" using new p by auto
  show ?thesis
  proof (rule incomparable_less [OF lt])
    show "starts_with (fst e1) p" "starts_with (fst e) cp"
      using list_item_prefix(1) e1 e by blast+
    show "\<not> starts_with (fst e) p" using list_item_prefix(2) [OF e1(3), of e] e(2) ne by auto
    show "\<not> starts_with (fst e1) cp" using list_item_prefix(2) [OF e(2), of e1] e1(3) ne by auto
  qed
qed

lemma insort_greatest: "(\<And>y. y \<in> set xs \<Longrightarrow> y < x) \<Longrightarrow> insort x xs = xs @ [x :: 'a :: linorder]"
  by (induction xs) (auto simp: less_le_not_le)

section \<open>A page of the listing\<close>

definition last_prefix :: "(string + object_info) list \<Rightarrow> string option" where
  "last_prefix acc = (if lefts acc = [] then None else Some (last (lefts acc)))"

definition page_ok ::
  "string option \<Rightarrow> nat \<Rightarrow> string \<Rightarrow> (string \<times> mock_object) list \<Rightarrow> list_objects_result \<Rightarrow> bool" where
  "page_ok d max_keys pre es r \<longleftrightarrow>
     lo_objects r = rights (take max_keys (list_items d pre es)) \<and>
     lo_common_prefixes r = lefts (take max_keys (list_items d pre es)) \<and>
     (case lo_next_continuation_token r of
        None \<Rightarrow> length (list_items d pre es) \<le> max_keys
      | Some t \<Rightarrow> max_keys < length (list_items d pre es) \<and>
          (\<exists>xs e ys. es = xs @ e # ys \<and> fst e = t \<and> list_items d pre (e # ys) = drop max_keys (list_items d pre es)))"

lemma repeated_item_is_prefix:
  assumes asc: "keys_ascending (xs @ [e])" and acc: "acc = list_items d pre xs" "acc \<noteq> []" and l: "last acc = list_item d pre e"
  obtains cp where "list_item d pre e = Inl cp" and "cp \<in> set (lefts acc)"
proof (cases "list_item d pre e")
  case (Inl cp)
  then have "Inl cp \<in> set acc" using l acc(2) last_in_set [of acc] by simp
  with Inl that show thesis by (simp add: set_lefts)
next
  case (Inr oi)
  have "last acc \<in> set acc" using acc(2) by simp
  then obtain e1 where "e1 \<in> set xs" "list_item d pre e1 = list_item d pre e"
    using acc(1) l by (auto simp: list_items_mem)
  then show thesis
    using list_item_inj [of d pre e1 e oi] Inr asc by (auto simp: keys_ascending_def sorted_wrt_append)
qed

lemma continue_iff:
  assumes asc: "keys_ascending (xs @ [e])" and e: "starts_with (fst e) pre"
    and acc: "acc = list_items d pre xs" "acc \<noteq> []"
  shows "(last_prefix acc \<noteq> None \<and> starts_with (fst e) (the (last_prefix acc))) \<longleftrightarrow> last acc = list_item d pre e"
proof
  assume a: "last_prefix acc \<noteq> None \<and> starts_with (fst e) (the (last_prefix acc))"
  then have ne: "lefts acc \<noteq> []" and sw: "starts_with (fst e) (last (lefts acc))"
    by (auto simp: last_prefix_def split: if_splits)
  have "Inl (last (lefts acc)) \<in> set acc" using ne set_lefts last_in_set by metis
  moreover then obtain e1 where "list_item d pre e1 = Inl (last (lefts acc))" using acc(1) by (auto simp: list_items_mem)
  then have "list_item d pre e = Inl (last (lefts acc))" using list_item_prefix(2) sw by blast
  ultimately show "last acc = list_item d pre e"
    using seen_prefix_is_last [OF asc e] acc(1) by metis
next
  assume l: "last acc = list_item d pre e"
  obtain cp where Inl: "list_item d pre e = Inl cp" by (rule repeated_item_is_prefix [OF asc acc l])
  then have "acc = butlast acc @ [Inl cp]" using l acc(2) append_butlast_last_id [of acc] by simp
  then have "lefts acc = lefts (butlast acc) @ [cp]" by (metis lefts.simps(1,2) lefts_append)
  with list_item_prefix(1) [OF Inl e]
  show "last_prefix acc \<noteq> None \<and> starts_with (fst e) (the (last_prefix acc))" by (simp add: last_prefix_def)
qed

lemma key_prefix_take: "(if length key \<ge> length pre then take (length pre) key else key) = take (length pre) key"
  by simp

lemma list_loop_ok:
  assumes "keys_ascending (xs @ es)" and "0 < max_keys" and "acc = list_items d pre xs" and "length acc \<le> max_keys"
  shows "page_ok d max_keys pre (xs @ es) (list_loop d max_keys pre es (lefts acc) (rights acc) (last_prefix acc))"
  using assms
proof (induction es arbitrary: xs acc)
  case Nil
  then show ?case by (simp add: page_ok_def)
next
  case (Cons e rest)
  obtain key ob where e: "e = (key, ob)" by (cases e)
  have asc: "keys_ascending (xs @ [e])" using Cons.prems(1) by (auto simp: keys_ascending_def sorted_wrt_append)
  have step: "page_ok d max_keys pre (xs @ e # rest) (list_loop d max_keys pre rest (lefts acc') (rights acc') (last_prefix acc'))"
    if "acc' = list_items d pre (xs @ [e])" "length acc' \<le> max_keys" for acc'
    using Cons.IH [of "xs @ [e]" acc'] Cons.prems that by simp
  have count: "length (lefts acc) + length (rights acc) = length acc" by (rule length_lefts_rights)
  consider (beyond) "take (length pre) key > pre" | (skip) "\<not> take (length pre) key > pre" "\<not> starts_with key pre"
    | (match) "starts_with key pre" by blast
  then show ?case
  proof cases
    case beyond
    have "\<not> starts_with (fst e') pre" if "e' \<in> set (e # rest)" for e'
    proof -
      have "key \<le> fst e'" using that Cons.prems(1) e by (auto simp: keys_ascending_def sorted_wrt_append)
      with take_mono [of key "fst e'" "length pre"] beyond show ?thesis by (auto simp: starts_with_def)
    qed
    then have "filter (\<lambda>e. starts_with (fst e) pre) (e # rest) = []" by (auto simp: filter_empty_conv)
    then have "list_items d pre (xs @ e # rest) = acc" by (simp only: list_items_def filter_append append_Nil2 Cons.prems(3))
    with Cons.prems(4) beyond show ?thesis by (simp add: e key_prefix_take page_ok_def)
  next
    case skip
    with step [of acc] Cons.prems(3,4) show ?thesis by (simp add: e key_prefix_take list_items_skip)
  next
    case match
    then have notbeyond: "\<not> take (length pre) key > pre" by (simp add: starts_with_def)
    have ematch: "starts_with (fst e) pre" using match e by simp
    show ?thesis
    proof (cases "acc \<noteq> [] \<and> last acc = list_item d pre e")
      case rep: True
      have same: "list_items d pre (xs @ [e]) = acc"
        using list_items_repeat [of d pre xs e] rep Cons.prems(3) ematch by simp
      have lp: "last_prefix acc \<noteq> None \<and> starts_with key (the (last_prefix acc))"
        using continue_iff [OF asc ematch Cons.prems(3)] rep e by simp
      obtain cp where "list_item d pre e = Inl cp" "cp \<in> set (lefts acc)"
        using repeated_item_is_prefix [OF asc Cons.prems(3)] rep by blast
      then show ?thesis
        using step [of acc] same Cons.prems(4) lp match notbeyond count
        by (auto simp: e key_prefix_take list_item_def Let_def split: option.splits)
    next
      case new: False
      have split: "list_items d pre (xs @ e # rest) = acc @ list_items d pre (e # rest)"
        using list_items_split [of d pre xs e rest] new Cons.prems(3) ematch by auto
      have one: "list_items d pre [e] = [list_item d pre e]" using ematch by (simp add: list_items_def)
      have snoc: "list_items d pre (xs @ [e]) = acc @ [list_item d pre e]"
        using list_items_split [of d pre xs e "[]"] new Cons.prems(3) ematch one by auto
      have ne: "list_items d pre (e # rest) \<noteq> []" using ematch by (simp add: list_items_Nil_iff)
      show ?thesis
      proof (cases "length acc = max_keys")
        case True
        then have "acc \<noteq> []" using Cons.prems(2) by auto
        with continue_iff [OF asc ematch Cons.prems(3)] new e
        have "\<not> (last_prefix acc \<noteq> None \<and> starts_with key (the (last_prefix acc)))" by simp
        with True match notbeyond count split ne show ?thesis
          by (auto simp: e key_prefix_take page_ok_def Let_def)
      next
        case False
        then have lt: "length acc < max_keys" using Cons.prems(4) by simp
        show ?thesis
        proof (cases "list_item d pre e")
          case (Inl cp)
          have fresh: "Inl cp \<notin> set acc"
            using seen_prefix_is_last [OF asc ematch Inl] new Inl Cons.prems(3) by auto
          have ins: "insort cp (lefts acc) = lefts acc @ [cp]"
            using new_prefix_is_greatest [OF asc ematch Inl] fresh Cons.prems(3)
            by (intro insort_greatest) (auto simp: set_lefts)
          have "cp \<notin> set (lefts acc)" using fresh by (simp add: set_lefts)
          with step [of "acc @ [Inl cp]"] snoc Inl lt match notbeyond count ins show ?thesis
            by (auto simp: e key_prefix_take list_item_def last_prefix_def Let_def split: option.splits if_splits)
        next
          case (Inr oi)
          with step [of "acc @ [Inr oi]"] snoc lt match notbeyond count show ?thesis
            by (auto simp: e key_prefix_take list_item_def last_prefix_def Let_def split: option.splits)
        qed
      qed
    qed
  qed
qed

section \<open>Paging through a bucket\<close>

lemma entries_ascending: "keys_ascending (RBT.entries (mc_objects c))"
proof -
  have "sorted_wrt (<) (map fst (RBT.entries (mc_objects c)))"
    using RBT.sorted_entries RBT.distinct_entries strict_sorted_iff by blast
  then show ?thesis by (simp add: keys_ascending_def sorted_wrt_map)
qed

lemma entries_from_split:
  assumes "entries_from c token = xs @ e # ys"
  shows "entries_from c (fst e) = e # ys"
proof -
  have asc: "keys_ascending (xs @ e # ys)"
    using entries_ascending [of c] assms [symmetric] by (simp add: entries_from_def keys_ascending_def sorted_wrt_filter)
  have "e \<in> set (entries_from c token)" using assms by simp
  then have "token \<le> fst e" by (simp add: entries_from_def)
  then have "entries_from c (fst e) = filter (\<lambda>x. fst e \<le> fst x) (entries_from c token)"
    by (auto simp: entries_from_def intro!: filter_cong)
  also have "\<dots> = filter (\<lambda>x. fst e \<le> fst x) (e # ys)"
    unfolding assms using asc by (auto simp: keys_ascending_def sorted_wrt_append filter_empty_conv)
  also have "\<dots> = e # ys"
    using asc by (auto simp: keys_ascending_def sorted_wrt_append filter_id_conv)
  finally show ?thesis .
qed

lemma list_page_ok:
  assumes "0 < max_keys"
  shows "page_ok (delimiter_option d) max_keys pre (entries_from c (case token of None \<Rightarrow> [] | Some t \<Rightarrow> t))
    (list_objects_ordered c token d max_keys pre)"
  using list_loop_ok [of "[]" "entries_from c (case token of None \<Rightarrow> [] | Some t \<Rightarrow> t)" max_keys "[]" "delimiter_option d" pre]
    assms entries_ascending [of c]
  by (simp add: list_objects_ordered_def last_prefix_def entries_from_def keys_ascending_def sorted_wrt_filter)

text \<open>A caller that follows the continuation tokens, as the directory listing does.\<close>

fun list_all_pages ::
  "nat \<Rightarrow> mock_client \<Rightarrow> string option \<Rightarrow> string \<Rightarrow> nat \<Rightarrow> string \<Rightarrow> (object_info list \<times> string list) option" where
  "list_all_pages 0 c token d max_keys pre = None"
| "list_all_pages (Suc n) c token d max_keys pre =
     (let r = list_objects_ordered c token d max_keys pre
      in case lo_next_continuation_token r of
           None \<Rightarrow> Some (lo_objects r, lo_common_prefixes r)
         | Some t \<Rightarrow> map_option (\<lambda>(os, ps). (lo_objects r @ os, lo_common_prefixes r @ ps))
             (list_all_pages n c (Some t) d max_keys pre))"

lemma list_all_pages_ok:
  assumes "0 < max_keys" and "length (list_items (delimiter_option d) pre (entries_from c (case token of None \<Rightarrow> [] | Some t \<Rightarrow> t))) < n"
  shows "list_all_pages n c token d max_keys pre =
    Some (rights (list_items (delimiter_option d) pre (entries_from c (case token of None \<Rightarrow> [] | Some t \<Rightarrow> t))),
          lefts (list_items (delimiter_option d) pre (entries_from c (case token of None \<Rightarrow> [] | Some t \<Rightarrow> t))))"
  using assms(2)
proof (induction n arbitrary: token)
  case (Suc n)
  let ?I = "list_items (delimiter_option d) pre (entries_from c (case token of None \<Rightarrow> [] | Some t \<Rightarrow> t))"
  let ?r = "list_objects_ordered c token d max_keys pre"
  note page = list_page_ok [OF assms(1), of d pre c token]
  show ?case
  proof (cases "lo_next_continuation_token ?r")
    case None
    with page show ?thesis by (simp add: page_ok_def Let_def)
  next
    case (Some t)
    with page obtain xs e ys where es: "entries_from c (case token of None \<Rightarrow> [] | Some t \<Rightarrow> t) = xs @ e # ys" "fst e = t"
      "list_items (delimiter_option d) pre (e # ys) = drop max_keys ?I" "max_keys < length ?I"
      by (auto simp: page_ok_def)
    have rest: "list_items (delimiter_option d) pre (entries_from c t) = drop max_keys ?I"
      using entries_from_split [OF es(1)] es(2,3) by simp
    then have "length (list_items (delimiter_option d) pre (entries_from c t)) < n"
      using Suc.prems assms(1) es(4) by simp
    then have "list_all_pages n c (Some t) d max_keys pre = Some (rights (drop max_keys ?I), lefts (drop max_keys ?I))"
      using Suc.IH [of "Some t"] rest by simp
    moreover have "rights (take max_keys ?I) @ rights (drop max_keys ?I) = rights ?I"
      "lefts (take max_keys ?I) @ lefts (drop max_keys ?I) = lefts ?I"
      by (metis append_take_drop_id rights_append lefts_append)+
    ultimately show ?thesis using Some page by (simp add: page_ok_def Let_def)
  qed
qed simp

definition is_plain :: "string option \<Rightarrow> string \<Rightarrow> string \<times> mock_object \<Rightarrow> bool" where
  "is_plain d pre e \<longleftrightarrow> starts_with (fst e) pre \<and> split_delimiter d (drop (length pre) (fst e)) = None"

lemma list_items_contents:
  assumes "keys_ascending es"
  shows "rights (list_items d pre es) = map object_info_of (filter (is_plain d pre) es) \<and>
    sorted_wrt (<) (lefts (list_items d pre es))"
  using assms
proof (induction es rule: rev_induct)
  case (snoc e xs)
  have asc: "keys_ascending xs" using snoc.prems by (simp add: keys_ascending_def sorted_wrt_append)
  note IH = snoc.IH [OF asc]
  let ?acc = "list_items d pre xs"
  consider (skip) "\<not> starts_with (fst e) pre" | (rep) "starts_with (fst e) pre" "?acc \<noteq> []" "last ?acc = list_item d pre e"
    | (new) "starts_with (fst e) pre" "?acc = [] \<or> last ?acc \<noteq> list_item d pre e" by blast
  then show ?case
  proof cases
    case skip
    with IH show ?thesis by (simp add: list_items_skip is_plain_def)
  next
    case rep
    obtain cp where "list_item d pre e = Inl cp" by (rule repeated_item_is_prefix [OF snoc.prems refl rep(2,3)])
    with IH rep show ?thesis
      by (auto simp: list_items_repeat is_plain_def list_item_def split: option.splits)
  next
    case new
    have e: "list_items d pre (xs @ [e]) = ?acc @ [list_item d pre e]"
      using list_items_split [OF new(2,1), of "[]"] new(1) by (simp add: list_items_def)
    show ?thesis
    proof (cases "list_item d pre e")
      case (Inl cp)
      have "Inl cp \<notin> set ?acc" using seen_prefix_is_last [OF snoc.prems new(1) Inl] new(2) Inl by auto
      then have "\<forall>p \<in> set (lefts ?acc). p < cp"
        using new_prefix_is_greatest [OF snoc.prems new(1) Inl] by (auto simp: set_lefts)
      with IH Inl e new(1) show ?thesis
        by (auto simp: is_plain_def list_item_def sorted_wrt_append split: option.splits)
    next
      case (Inr oi)
      with IH e new(1) show ?thesis by (auto simp: is_plain_def list_item_def split: option.splits)
    qed
  qed
qed simp

lemma list_items_length: "length (list_items d pre es) \<le> length es"
proof -
  have "length (list_items d pre es) \<le> length (map (list_item d pre) (filter (\<lambda>e. starts_with (fst e) pre) es))"
    unfolding list_items_def by (rule remdups_adj_length)
  also have "\<dots> \<le> length es" by simp
  finally show ?thesis .
qed

lemma set_lefts_items:
  "set (lefts (list_items d pre es)) = {pre @ s | s k. k \<in> set (map fst es) \<and> starts_with k pre \<and>
    split_delimiter d (drop (length pre) k) = Some s}"
proof -
  have "x \<in> set (lefts (list_items d pre es)) \<longleftrightarrow> (\<exists>e \<in> set es. starts_with (fst e) pre \<and>
      (\<exists>s. split_delimiter d (drop (length pre) (fst e)) = Some s \<and> x = pre @ s))" for x
    by (auto simp: set_lefts list_items_mem list_item_def split: option.splits)
  then show ?thesis by (auto simp: image_iff) (metis fst_conv)
qed

text \<open>C18: Paging through a listing is complete and never repeats itself. For every page size of at least one, every prefix and every
  delimiter, following the continuation tokens from the start ends after at most as many pages as there are objects, with
  every object under the prefix that has no further delimiter, once and in key order, and every common prefix of
  the others, once and in order, also when a common prefix spans a page boundary. No page exceeds the page size.\<close>

theorem pagination_complete:
  assumes "0 < max_keys"
  shows "(\<exists>objs cps. list_all_pages (Suc (object_count c)) c None d max_keys pre = Some (objs, cps) \<and>
      objs = map object_info_of (filter (is_plain (delimiter_option d) pre) (RBT.entries (mc_objects c))) \<and>
      sorted_wrt (<) cps \<and>
      set cps = {pre @ s | s k. k \<in> set (RBT.keys (mc_objects c)) \<and> starts_with k pre \<and>
        split_delimiter (delimiter_option d) (drop (length pre) k) = Some s}) \<and>
    (\<forall>token. length (lo_objects (list_objects_ordered c token d max_keys pre)) +
      length (lo_common_prefixes (list_objects_ordered c token d max_keys pre)) \<le> max_keys)"
proof
  let ?es = "RBT.entries (mc_objects c)" and ?d = "delimiter_option d"
  have es: "entries_from c [] = ?es" by (simp add: entries_from_def)
  have "length (list_items ?d pre ?es) \<le> length ?es" by (rule list_items_length)
  then have "length (list_items ?d pre ?es) < Suc (object_count c)" by (simp add: object_count_def)
  with list_all_pages_ok [OF assms, where token = None and c = c] es
  have "list_all_pages (Suc (object_count c)) c None d max_keys pre =
      Some (rights (list_items ?d pre ?es), lefts (list_items ?d pre ?es))" by (simp del: list_all_pages.simps)
  moreover have "set (lefts (list_items ?d pre ?es)) = {pre @ s | s k. k \<in> set (RBT.keys (mc_objects c)) \<and> starts_with k pre \<and>
        split_delimiter ?d (drop (length pre) k) = Some s}"
    by (simp add: set_lefts_items RBT.keys_def_alt)
  ultimately show "\<exists>objs cps. list_all_pages (Suc (object_count c)) c None d max_keys pre = Some (objs, cps) \<and>
      objs = map object_info_of (filter (is_plain ?d pre) ?es) \<and> sorted_wrt (<) cps \<and>
      set cps = {pre @ s | s k. k \<in> set (RBT.keys (mc_objects c)) \<and> starts_with k pre \<and>
        split_delimiter ?d (drop (length pre) k) = Some s}"
    using list_items_contents [OF entries_ascending] by (simp del: list_all_pages.simps)
next
  show "\<forall>token. length (lo_objects (list_objects_ordered c token d max_keys pre)) +
      length (lo_common_prefixes (list_objects_ordered c token d max_keys pre)) \<le> max_keys"
  proof
    fix token
    let ?I = "list_items (delimiter_option d) pre (entries_from c (case token of None \<Rightarrow> [] | Some t \<Rightarrow> t))"
    show "length (lo_objects (list_objects_ordered c token d max_keys pre)) +
      length (lo_common_prefixes (list_objects_ordered c token d max_keys pre)) \<le> max_keys"
      using list_page_ok [OF assms, of d pre c token] length_lefts_rights [of "take max_keys ?I"]
      by (simp add: page_ok_def)
  qed
qed

definition witness_bucket :: mock_client where
  "witness_bucket = foldr (\<lambda>k c. add_object c k (from_bytes 0 [] ''e'')) [''a/x'', ''a/y'', ''b''] (mock_client_new witness_mock_config)"

lemma witness_bucket_keys: "set (RBT.keys (mc_objects witness_bucket)) = {''a/x'', ''a/y'', ''b''}"
  unfolding RBT.lookup_keys [symmetric] by (auto simp: witness_bucket_def mock_client_new_def)

theorem pagination_complete_witness:
  "\<exists>objs cps. list_all_pages (Suc (object_count witness_bucket)) witness_bucket None ''/'' 1 [] = Some (objs, cps) \<and> set cps = {''a/''}"
proof -
  have "{[] @ s | s k. k \<in> set (RBT.keys (mc_objects witness_bucket)) \<and> starts_with k [] \<and>
      split_delimiter (delimiter_option ''/'') (drop (length []) k) = Some s} = {''a/''}"
    unfolding witness_bucket_keys
    by (auto simp: split_delimiter_def delimiter_option_def starts_with_def)
  then show ?thesis
    using pagination_complete [of 1 witness_bucket "''/''" "[]"] by (metis zero_less_one)
qed

section \<open>The shuffled listing\<close>

lemma unordered_loop_ok:
  assumes "set ks \<subseteq> set (RBT.keys (mc_objects c))"
  shows "\<exists>cps'. unordered_loop c d pre ks cps objs = Done (cps', objs @ map (\<lambda>k. object_info_of (k, the (RBT.lookup (mc_objects c) k)))
    (filter (\<lambda>k. split_delimiter d (drop (length pre) k) = None) ks))"
  using assms
proof (induction ks arbitrary: cps objs)
  case (Cons k ks)
  then have "RBT.lookup (mc_objects c) k \<noteq> None" using RBT.lookup_keys [of "mc_objects c"] by auto
  then obtain ob where ob: "RBT.lookup (mc_objects c) k = Some ob" by auto
  show ?case
  proof (cases "split_delimiter d (drop (length pre) k)")
    case None
    with Cons.IH [of cps "objs @ [object_info_of (k, ob)]"] Cons.prems ob show ?thesis by simp
  next
    case (Some s)
    with Cons.IH [of "if pre @ s \<in> set cps then cps else cps @ [pre @ s]" objs] Cons.prems ob show ?thesis
      by (simp add: Let_def)
  qed
qed simp

fun list_all_unordered ::
  "nat \<Rightarrow> (nat \<Rightarrow> string list \<Rightarrow> string list) \<Rightarrow> mock_client \<Rightarrow> string option \<Rightarrow> string \<Rightarrow> nat \<Rightarrow> string \<Rightarrow> nat \<Rightarrow>
     object_info list run option" where
  "list_all_unordered 0 shuffle c token d max_keys pre seed = None"
| "list_all_unordered (Suc n) shuffle c token d max_keys pre seed =
     (case list_objects_unordered shuffle c token d max_keys pre seed of
        Done r \<Rightarrow> (case lo_next_continuation_token r of
            None \<Rightarrow> Some (Done (lo_objects r))
          | Some t \<Rightarrow> map_option (\<lambda>rest. and_then rest (\<lambda>os. Done (lo_objects r @ os)))
              (list_all_unordered n shuffle c (Some t) d max_keys pre seed))
      | Panic \<Rightarrow> Some Panic | Pending \<Rightarrow> Some Pending)"

lemma list_all_unordered_ok:
  assumes "0 < max_keys" and keys: "set (shuffle seed (filter (\<lambda>k. starts_with k pre) (RBT.keys (mc_objects c)))) \<subseteq> set (RBT.keys (mc_objects c))"
    and small: "length (shuffle seed (filter (\<lambda>k. starts_with k pre) (RBT.keys (mc_objects c)))) \<le> u64_max"
    and idx: "i \<le> length (shuffle seed (filter (\<lambda>k. starts_with k pre) (RBT.keys (mc_objects c))))"
      "length (shuffle seed (filter (\<lambda>k. starts_with k pre) (RBT.keys (mc_objects c)))) - i < n"
    and tok: "token = None \<and> i = 0 \<or> token = Some (nat_to_string i)"
  shows "list_all_unordered n shuffle c token d max_keys pre seed =
    Some (Done (map (\<lambda>k. object_info_of (k, the (RBT.lookup (mc_objects c) k)))
      (filter (\<lambda>k. split_delimiter (delimiter_option d) (drop (length pre) k) = None)
        (drop i (shuffle seed (filter (\<lambda>k. starts_with k pre) (RBT.keys (mc_objects c))))))))"
  using idx tok
proof (induction n arbitrary: i token)
  case (Suc n)
  let ?ks = "shuffle seed (filter (\<lambda>k. starts_with k pre) (RBT.keys (mc_objects c)))"
  let ?plain = "\<lambda>ks. map (\<lambda>k. object_info_of (k, the (RBT.lookup (mc_objects c) k)))
      (filter (\<lambda>k. split_delimiter (delimiter_option d) (drop (length pre) k) = None) ks)"
  let ?page = "take max_keys (drop i ?ks)"
  have "set ?page \<subseteq> set (RBT.keys (mc_objects c))" using keys by (meson in_set_dropD in_set_takeD subset_iff)
  from unordered_loop_ok [OF this, of "delimiter_option d" pre "[]" "[]"] obtain cps where
    loop: "unordered_loop c (delimiter_option d) pre ?page [] [] = Done (cps, ?plain ?page)" by auto
  have start: "(case token of None \<Rightarrow> Done 0 | Some ct \<Rightarrow> (case parse_usize ct of Some n \<Rightarrow> Done n | None \<Rightarrow> Panic)) = Done i"
    using Suc.prems small by (auto simp: parse_usize_print)
  show ?case
  proof (cases "i + max_keys \<le> length ?ks")
    case True
    then have len: "length ?page = max_keys" by simp
    have "?plain ?page @ ?plain (drop (i + max_keys) ?ks) = ?plain (?page @ drop max_keys (drop i ?ks))"
      by (simp add: add.commute)
    also have "\<dots> = ?plain (drop i ?ks)" by (simp only: append_take_drop_id)
    finally have app: "?plain ?page @ ?plain (drop (i + max_keys) ?ks) = ?plain (drop i ?ks)" .
    have "length ?ks - (i + max_keys) < n" using True Suc.prems(2) assms(1) by simp
    from Suc.IH [OF True this, of "Some (nat_to_string (i + max_keys))"] app show ?thesis
      using loop start len by (simp add: list_objects_unordered_def Let_def)
  next
    case False
    then have "?page = drop i ?ks" "length ?page \<noteq> max_keys" using Suc.prems(1) by simp_all
    with loop start show ?thesis by (simp add: list_objects_unordered_def Let_def)
  qed
qed simp

text \<open>C22: The listing in random order returns the same objects. For any shuffle that permutes the keys it is given, following
  the tokens through the shuffled pages ends, without a panic, with every object under the prefix that has no further delimiter,
  each exactly once: a permutation of the keys that the ordered listing returns.\<close>

theorem unordered_listing_complete:
  assumes "0 < max_keys" and "\<forall>ks. mset (shuffle seed ks) = mset ks" and "object_count c \<le> u64_max"
  shows "\<exists>objs. list_all_unordered (object_count c + 1) shuffle c None d max_keys pre seed = Some (Done objs) \<and>
    mset (map oi_key objs) = mset (map fst (filter (is_plain (delimiter_option d) pre) (RBT.entries (mc_objects c))))"
proof -
  let ?ks = "filter (\<lambda>k. starts_with k pre) (RBT.keys (mc_objects c))"
  have set_eq: "set (shuffle seed ?ks) = set ?ks" using assms(2) by (metis mset_eq_setD)
  have len: "length (shuffle seed ?ks) \<le> object_count c"
    using assms(2) length_filter_le [of "\<lambda>k. starts_with k pre" "RBT.keys (mc_objects c)"]
    by (metis RBT.keys_def_alt length_map object_count_def size_mset)
  have "list_all_unordered (object_count c + 1) shuffle c None d max_keys pre seed =
    Some (Done (map (\<lambda>k. object_info_of (k, the (RBT.lookup (mc_objects c) k)))
      (filter (\<lambda>k. split_delimiter (delimiter_option d) (drop (length pre) k) = None) (drop 0 (shuffle seed ?ks)))))"
    by (rule list_all_unordered_ok) (use assms set_eq len in auto)
  moreover have "map oi_key (map (\<lambda>k. object_info_of (k, the (RBT.lookup (mc_objects c) k))) ks) = ks" for ks
    by (induction ks) (simp_all add: object_info_of_def)
  moreover have "mset (filter (\<lambda>k. split_delimiter (delimiter_option d) (drop (length pre) k) = None) (shuffle seed ?ks)) =
      mset (map fst (filter (is_plain (delimiter_option d) pre) (RBT.entries (mc_objects c))))"
  proof -
    have "filter (\<lambda>k. split_delimiter (delimiter_option d) (drop (length pre) k) = None) ?ks =
        map fst (filter (is_plain (delimiter_option d) pre) (RBT.entries (mc_objects c)))"
      by (simp add: RBT.keys_def_alt filter_map comp_def is_plain_def [abs_def] conj_commute)
    then show ?thesis using assms(2) by (metis mset_filter)
  qed
  ultimately show ?thesis unfolding drop_0 by (intro exI conjI) (assumption, simp only:)
qed

theorem unordered_listing_complete_witness:
  "\<exists>objs. list_all_unordered (object_count witness_bucket + 1) (\<lambda>_. rev) witness_bucket None ''/'' 2 [] 5 = Some (Done objs) \<and>
     mset (map oi_key objs) = mset (map fst (filter (is_plain (Some ''/'') []) (RBT.entries (mc_objects witness_bucket))))"
proof -
  have "length (RBT.keys (mc_objects witness_bucket)) = card (set (RBT.keys (mc_objects witness_bucket)))"
    by (rule distinct_card [symmetric]) (rule RBT.distinct_keys)
  then have "object_count witness_bucket = 3"
    by (simp only: witness_bucket_keys) (simp add: object_count_def RBT.keys_def_alt)
  then have "object_count witness_bucket \<le> u64_max" by (simp add: u64_max_def)
  from unordered_listing_complete [of 2 "\<lambda>_. rev" 5 witness_bucket "''/''" "[]", OF _ _ this]
  show ?thesis by (simp add: delimiter_option_def del: list_all_unordered.simps)
qed

end
