(* ===== verification/Inodes.thy ===== *)
theory Inodes
  imports Effects Handles_Map Negative_Cache Mock_List
begin

text \<open>
  Inodes and the state of the superblock (\<open>superblock/inode.rs\<close> and the data structures of \<open>superblock.rs\<close>).

  An \<open>Inode\<close> is a shared pointer to an immutable header and a locked state: here an address into an arena of
  cells, so that two names for the same inode share its state and a renamed inode is a new cell with the same
  number. Cells are never freed; that only keeps unreachable ones. The inode map takes
  numbers to addresses with their lookup counts. The S3 client is a state with operations on it
  (\<open>object_client\<close>), so that a concrete client can be plugged in.
\<close>

section \<open>Inodes\<close>

datatype write_status = LocalUnopened | LocalOpenForWriting | Remote | PendingRename

text \<open>\<open>DirectoryData children writing_children deleted\<close>; children are addresses of cells.\<close>

datatype kind_data = FileData | DirectoryData "string \<rightharpoonup> nat" "nat set" bool

text \<open>A pending upload hook is a shared pointer too; it is named by a number.\<close>

record inode_state =
  is_stat :: inode_stat
  is_write_status :: write_status
  is_kind_data :: kind_data
  is_pending_upload_hook :: "nat option"

record inode =
  in_ino :: nat
  in_parent :: nat
  in_key :: valid_key
  in_checksum :: u32
  in_sync :: inode_state

definition ROOT_INODE_NO :: nat where
  "ROOT_INODE_NO = 1"

definition kind_data_default :: "inode_kind \<Rightarrow> kind_data" where
  "kind_data_default kind = (case kind of File \<Rightarrow> FileData | Directory \<Rightarrow> DirectoryData Map.empty {} False)"

definition inode_state_new :: "inode_stat \<Rightarrow> inode_kind \<Rightarrow> write_status \<Rightarrow> inode_state" where
  "inode_state_new st kind ws =
     \<lparr>is_stat = st, is_write_status = ws, is_kind_data = kind_data_default kind, is_pending_upload_hook = None\<rparr>"

definition string_bytes :: "string \<Rightarrow> bytes" where
  "string_bytes s = map of_char s"

definition to_be_bytes :: "nat \<Rightarrow> bytes" where
  "to_be_bytes n = map (\<lambda>i. of_nat (n div 256 ^ (7 - i))) [0..<8]"

text \<open>The checksum is CRC32C of the crate \<open>crc32c\<close>, the parameter \<open>hash\<close>.\<close>

definition inode_checksum :: "(bytes \<Rightarrow> u32) \<Rightarrow> nat \<Rightarrow> prefix \<Rightarrow> string \<Rightarrow> u32" where
  "inode_checksum hash ino p key = hash (to_be_bytes ino @ string_bytes (pf_path p) @ string_bytes key)"

definition inode_new :: "(bytes \<Rightarrow> u32) \<Rightarrow> nat \<Rightarrow> nat \<Rightarrow> valid_key \<Rightarrow> prefix \<Rightarrow> inode_state \<Rightarrow> inode" where
  "inode_new hash ino parent key p st =
     \<lparr>in_ino = ino, in_parent = parent, in_key = key, in_checksum = inode_checksum hash ino p (vk_key key), in_sync = st\<rparr>"

definition inode_new_root :: "(bytes \<Rightarrow> u32) \<Rightarrow> clock \<Rightarrow> prefix \<Rightarrow> nat \<Rightarrow> inode" where
  "inode_new_root hash clk p mount_time =
     inode_new hash ROOT_INODE_NO ROOT_INODE_NO vk_root p
       \<lparr>is_stat = stat_for_directory clk mount_time NEVER_EXPIRE_TTL, is_write_status = Remote,
        is_kind_data = kind_data_default Directory, is_pending_upload_hook = None\<rparr>"

definition in_kind :: "inode \<Rightarrow> inode_kind" where
  "in_kind n = vk_kind (in_key n)"

definition inode_err :: "inode \<Rightarrow> inode_error_info" where
  "inode_err n = \<lparr>ei_ino = in_ino n, ei_key = vk_key (in_key n), ei_bucket = None\<rparr>"

definition is_deleted :: "inode \<Rightarrow> bool" where
  "is_deleted n = (case is_kind_data (in_sync n) of DirectoryData _ _ deleted \<Rightarrow> deleted | FileData \<Rightarrow> False)"

definition verify_inode :: "(bytes \<Rightarrow> u32) \<Rightarrow> prefix \<Rightarrow> nat \<Rightarrow> inode \<Rightarrow> inode_error + unit" where
  "verify_inode hash p expected_ino n =
     (if inode_checksum hash (in_ino n) p (vk_key (in_key n)) = in_checksum n \<and> in_ino n = expected_ino
      then Inr () else Inl (CorruptedMetadata (inode_err n)))"

definition has_local_state :: "inode_state \<Rightarrow> bool" where
  "has_local_state st \<longleftrightarrow> is_write_status st \<noteq> Remote \<or> is_pending_upload_hook st \<noteq> None"

section \<open>The S3 client as the superblock sees it\<close>

datatype 'e client_error = ServiceError 'e | OtherClientError

record 'c object_client =
  oc_head_object :: "'c \<Rightarrow> string \<Rightarrow> string \<Rightarrow> ('c \<times> (head_object_error client_error + head_object_result)) run"
  oc_list_objects ::
    "'c \<Rightarrow> string \<Rightarrow> string option \<Rightarrow> string \<Rightarrow> nat \<Rightarrow> string \<Rightarrow>
       ('c \<times> (list_objects_error client_error + list_objects_result)) run"
  oc_rename_object ::
    "'c \<Rightarrow> string \<Rightarrow> string \<Rightarrow> string \<Rightarrow> rename_object_params \<Rightarrow> ('c \<times> (rename_object_error client_error + unit)) run"
  oc_delete_object :: "'c \<Rightarrow> string \<Rightarrow> string \<Rightarrow> ('c \<times> (delete_object_error client_error + unit)) run"

section \<open>The superblock\<close>

record superblock_config =
  sc_cache_config :: cache_config
  sc_list_ordered :: bool

record ('m, 'c) superblock =
  sb_s3_path :: s3_path
  sb_arena :: "nat \<rightharpoonup> inode"
  sb_next_address :: nat
  sb_inodes :: "nat \<rightharpoonup> nat \<times> nat"
  sb_open_handles :: inode_handle_map
  sb_negative_cache :: "'m negative_cache"
  sb_rename_supported :: "bool option"
  sb_next_ino :: nat
  sb_mount_time :: nat
  sb_config :: superblock_config
  sb_client :: 'c

text \<open>What the superblock's code uses of other crates.\<close>

record ('m, 'c) sb_env =
  env_crc :: "bytes \<Rightarrow> u32"
  env_lhm :: "'m linked_hash_map"
  env_utf8 :: "string \<Rightarrow> bool"
  env_client :: "'c object_client"

type_synonym ('m, 'c, 'a) sb_op = "(('m, 'c) superblock, inode_error, 'a) eff"

definition superblock_new :: "('m, 'c) sb_env \<Rightarrow> clock \<Rightarrow> nat \<Rightarrow> 'c \<Rightarrow> s3_path \<Rightarrow> superblock_config \<Rightarrow> ('m, 'c) superblock" where
  "superblock_new env clk mount_time client sp config =
     (let root = inode_new_root (env_crc env) clk (sp_prefix sp) mount_time in
      \<lparr>sb_s3_path = sp, sb_arena = [0 \<mapsto> root], sb_next_address = 1, sb_inodes = [ROOT_INODE_NO \<mapsto> (0, 1)],
       sb_open_handles = Map.empty,
       sb_negative_cache = nc_new (env_lhm env) (cc_negative_cache_size (sc_cache_config config))
         (cc_negative_cache_ttl (sc_cache_config config)),
       sb_rename_supported = None, sb_next_ino = 2, sb_mount_time = mount_time, sb_config = config,
       sb_client = client\<rparr>)"

text \<open>The cached support of renames: set once.\<close>

definition should_try_rename :: "('m, 'c) superblock \<Rightarrow> bool" where
  "should_try_rename sb = (case sb_rename_supported sb of None \<Rightarrow> True | Some cached \<Rightarrow> cached)"

definition cache_rename :: "bool \<Rightarrow> ('m, 'c) superblock \<Rightarrow> ('m, 'c) superblock" where
  "cache_rename outcome sb =
     (case sb_rename_supported sb of None \<Rightarrow> sb\<lparr>sb_rename_supported := Some outcome\<rparr> | Some _ \<Rightarrow> sb)"

section \<open>Access to inodes\<close>

text \<open>A dangling address cannot exist in the code; here it would be a panic.\<close>

definition sb_node :: "nat \<Rightarrow> ('m, 'c, inode) sb_op" where
  "sb_node a = (\<lambda>sb. case sb_arena sb a of None \<Rightarrow> Panic | Some n \<Rightarrow> Done (sb, Inr n))"

text \<open>\<open>get_inode_state\<close> and \<open>get_mut_inode_state\<close>: lock the state unless the directory is deleted.\<close>

definition get_inode_state :: "nat \<Rightarrow> ('m, 'c, inode) sb_op" where
  "get_inode_state a = eff_bind (sb_node a) (\<lambda>n.
     if is_deleted n then eff_error (InodeDoesNotExist (in_ino n)) else eff_return n)"

definition put_state :: "nat \<Rightarrow> inode_state \<Rightarrow> ('m, 'c) superblock \<Rightarrow> ('m, 'c) superblock" where
  "put_state a st sb = sb\<lparr>sb_arena := (sb_arena sb)(a := map_option (in_sync_update (\<lambda>_. st)) (sb_arena sb a))\<rparr>"

definition set_state :: "nat \<Rightarrow> inode_state \<Rightarrow> ('m, 'c, unit) sb_op" where
  "set_state a st = eff_modify (put_state a st)"

definition alloc_inode :: "inode \<Rightarrow> ('m, 'c, nat) sb_op" where
  "alloc_inode n = (\<lambda>sb. Done (sb\<lparr>sb_arena := (sb_arena sb)(sb_next_address sb \<mapsto> n),
     sb_next_address := Suc (sb_next_address sb)\<rparr>, Inr (sb_next_address sb)))"

definition sb_prefix :: "('m, 'c) superblock \<Rightarrow> prefix" where
  "sb_prefix sb = sp_prefix (sb_s3_path sb)"

definition sb_get :: "('m, 'c) sb_env \<Rightarrow> nat \<Rightarrow> ('m, 'c, nat) sb_op" where
  "sb_get env ino = eff_bind (eff_gets (\<lambda>sb. sb_inodes sb ino)) (\<lambda>e. case e of
     None \<Rightarrow> eff_error (InodeDoesNotExist ino)
   | Some (a, _) \<Rightarrow>
       eff_bind (sb_node a) (\<lambda>n. eff_bind (eff_gets sb_prefix) (\<lambda>p.
       eff_bind (eff_lift (verify_inode (env_crc env) p ino n)) (\<lambda>_. eff_return a))))"

definition full_key_for_inode :: "('m, 'c) superblock \<Rightarrow> inode \<Rightarrow> valid_key" where
  "full_key_for_inode sb n = full_key (sb_prefix sb) (in_key n)"

definition verify_child :: "('m, 'c) sb_env \<Rightarrow> nat \<Rightarrow> string \<Rightarrow> nat \<Rightarrow> ('m, 'c, unit) sb_op" where
  "verify_child env expected_parent expected_name a =
     eff_bind (sb_node a) (\<lambda>n. eff_bind (eff_gets sb_prefix) (\<lambda>p.
       if inode_checksum (env_crc env) (in_ino n) p (vk_key (in_key n)) = in_checksum n \<and> in_parent n = expected_parent
       then eff_bind (eff_run (vk_name (in_key n))) (\<lambda>name.
         if name = expected_name then eff_return () else eff_error (CorruptedMetadata (inode_err n)))
       else eff_error (CorruptedMetadata (inode_err n))))"

section \<open>The inode map\<close>

definition increase_lookup_count :: "nat \<Rightarrow> inode \<Rightarrow> ('m, 'c) superblock \<Rightarrow> ('m, 'c) superblock" where
  "increase_lookup_count a n sb =
     sb\<lparr>sb_inodes := (sb_inodes sb)(in_ino n \<mapsto> (case sb_inodes sb (in_ino n) of
       Some (b, cnt) \<Rightarrow> (b, cnt + 1) | None \<Rightarrow> (a, 1)))\<rparr>"

definition replace_or_insert :: "nat \<Rightarrow> nat \<Rightarrow> ('m, 'c) superblock \<Rightarrow> ('m, 'c) superblock" where
  "replace_or_insert ino a sb =
     sb\<lparr>sb_inodes := (sb_inodes sb)(ino \<mapsto> (case sb_inodes sb ino of Some (_, cnt) \<Rightarrow> (a, cnt) | None \<Rightarrow> (a, 1)))\<rparr>"

text \<open>\<open>None\<close>: the number is unknown; \<open>Some None\<close>: still referenced; \<open>Some (Some a)\<close>: removed.\<close>

definition decrease_lookup_count :: "nat \<Rightarrow> nat \<Rightarrow> ('m, 'c) superblock \<Rightarrow> ('m, 'c) superblock \<times> nat option option" where
  "decrease_lookup_count ino n sb = (case sb_inodes sb ino of
     None \<Rightarrow> (sb, None)
   | Some (a, cnt) \<Rightarrow>
       if cnt - n = 0 then (sb\<lparr>sb_inodes := (sb_inodes sb)(ino := None)\<rparr>, Some (Some a))
       else (sb\<lparr>sb_inodes := (sb_inodes sb)(ino \<mapsto> (a, cnt - n))\<rparr>, Some None))"

definition remember :: "nat \<Rightarrow> ('m, 'c, unit) sb_op" where
  "remember a = eff_bind (sb_node a) (\<lambda>n. eff_modify (increase_lookup_count a n))"

section \<open>Looked-up inodes\<close>

record looked_up_inode =
  li_inode :: nat
  li_stat :: inode_stat
  li_path :: s3_path
  li_write_status :: write_status

record remote_lookup =
  rl_kind :: inode_kind
  rl_stat :: inode_stat

definition looked_up :: "('m, 'c) superblock \<Rightarrow> nat \<Rightarrow> inode_stat \<Rightarrow> write_status \<Rightarrow> looked_up_inode" where
  "looked_up sb a st ws = \<lparr>li_inode = a, li_stat = st, li_path = sb_s3_path sb, li_write_status = ws\<rparr>"

definition lookup_of_inode :: "('m, 'c) superblock \<Rightarrow> inode \<Rightarrow> inode_stat \<Rightarrow> lookup" where
  "lookup_of_inode sb n st =
     lookup_new (in_ino n) st (in_kind n) (Some \<lparr>sl_path = sb_s3_path sb, sl_partial_key = in_key n\<rparr>)"

definition into_lookup :: "looked_up_inode \<Rightarrow> ('m, 'c, lookup) sb_op" where
  "into_lookup l = eff_bind (sb_node (li_inode l)) (\<lambda>n.
     eff_return (lookup_new (in_ino n) (li_stat l) (in_kind n)
       (Some \<lparr>sl_path = li_path l, sl_partial_key = in_key n\<rparr>)))"

end
