(* ===== verification/Superblock.thy ===== *)
theory Superblock
  imports Inodes
begin

text \<open>
  The operations of the superblock (\<open>superblock.rs\<close>): lookups against the local state and the remote
  bucket, attributes, creation, opening and closing of handles, completion of uploads, removal and rename.

  Each function of the source is one definition. A section under the lock of an inode is one
  atomic update; the operations are compositions of such sections, and the invariants are shown for each
  section, so that they hold whatever other operations run between two sections. \<open>clk\<close> is the clock reading of
  a section.
\<close>

section \<open>Helpers\<close>

definition name_parsed :: "name_error + string \<Rightarrow> inode_error + string" where
  "name_parsed r = (case r of Inl (InvalidFileName n) \<Rightarrow> Inl (InvalidName n) | Inr n \<Rightarrow> Inr n)"

definition parse_name :: "('m, 'c) sb_env \<Rightarrow> string \<Rightarrow> ('m, 'c, string) sb_op" where
  "parse_name env name = eff_lift (name_parsed (parse_os_str (env_utf8 env) name))"

definition validity_of :: "('m, 'c) superblock \<Rightarrow> inode_kind \<Rightarrow> nat" where
  "validity_of sb kind = (case kind of
     File \<Rightarrow> cc_file_ttl (sc_cache_config (sb_config sb)) | Directory \<Rightarrow> cc_dir_ttl (sc_cache_config (sb_config sb)))"

definition client_call :: "('c \<Rightarrow> ('c \<times> 'r) run) \<Rightarrow> ('m, 'c, 'r) sb_op" where
  "client_call f = (\<lambda>sb. and_then (f (sb_client sb)) (\<lambda>(c, r). Done (sb\<lparr>sb_client := c\<rparr>, Inr r)))"

text \<open>The error that wraps a failed request, with the bucket and key it is about.\<close>

definition client_error_of :: "('m, 'c) superblock \<Rightarrow> string \<Rightarrow> string \<Rightarrow> inode_error" where
  "client_error_of sb context_text key = ClientError context_text (sp_bucket (sb_s3_path sb)) key"

section \<open>Lookup in the cache\<close>

definition do_cache_lookup ::
  "('m, 'c) sb_env \<Rightarrow> clock \<Rightarrow> nat \<Rightarrow> string \<Rightarrow> ('m, 'c, (inode_error + looked_up_inode) option) sb_op" where
  "do_cache_lookup env clk parent name =
     eff_bind (eff_try (get_inode_state parent)) (\<lambda>r. case r of
       Inl _ \<Rightarrow> eff_return None
     | Inr p \<Rightarrow>
         let negative = eff_gets (\<lambda>sb.
               if nc_contains (env_lhm env) (sb_negative_cache sb) (ck_now clk) (in_ino p) name
               then Some (Inl (FileDoesNotExist name (inode_err p))) else None)
         in case is_kind_data (in_sync p) of
           FileData \<Rightarrow> eff_panic
         | DirectoryData children _ _ \<Rightarrow> (case children name of
             None \<Rightarrow> negative
           | Some a \<Rightarrow> eff_bind (eff_try (get_inode_state a)) (\<lambda>r. case r of
               Inl _ \<Rightarrow> eff_return None
             | Inr n \<Rightarrow>
                 if stat_is_valid (is_stat (in_sync n)) (ck_now clk)
                 then eff_gets (\<lambda>sb. Some (Inr (looked_up sb a (is_stat (in_sync n)) (is_write_status (in_sync n)))))
                 else negative)))"

definition cache_lookup ::
  "('m, 'c) sb_env \<Rightarrow> clock \<Rightarrow> nat \<Rightarrow> string \<Rightarrow> ('m, 'c, (inode_error + looked_up_inode) option) sb_op" where
  "cache_lookup env clk parent_ino name =
     eff_bind (eff_try (sb_get env parent_ino)) (\<lambda>r. case r of
       Inl _ \<Rightarrow> eff_return None | Inr p \<Rightarrow> do_cache_lookup env clk p name)"

section \<open>Lookup in the bucket\<close>

definition found_directory :: "list_objects_result \<Rightarrow> string \<Rightarrow> bool" where
  "found_directory r directory_prefix =
     (if (case lo_common_prefixes r of [] \<Rightarrow> False | p # _ \<Rightarrow> starts_with p directory_prefix) then True
      else case lo_objects r of [] \<Rightarrow> False | ob # _ \<Rightarrow> starts_with (oi_key ob) directory_prefix)"

definition remote_file_lookup :: "('m, 'c) sb_env \<Rightarrow> clock \<Rightarrow> string \<Rightarrow> ('m, 'c, inode_stat option) sb_op" where
  "remote_file_lookup env clk object_key =
     eff_bind (eff_gets (\<lambda>sb. sp_bucket (sb_s3_path sb))) (\<lambda>bucket.
     eff_bind (client_call (\<lambda>c. oc_head_object (env_client env) c bucket object_key)) (\<lambda>r. case r of
       Inr h \<Rightarrow> eff_gets (\<lambda>sb. Some (stat_for_file clk (hr_size h) (hr_last_modified h) (Some (hr_etag h))
         (hr_storage_class h) (hr_restore_status h) (validity_of sb File)))
     | Inl (ServiceError HeadNotFound) \<Rightarrow> eff_return None
     | Inl OtherClientError \<Rightarrow>
         eff_bind (eff_gets (\<lambda>sb. client_error_of sb ''HeadObject failed'' object_key)) eff_error))"

definition remote_dir_lookup :: "('m, 'c) sb_env \<Rightarrow> string \<Rightarrow> string \<Rightarrow> ('m, 'c, bool) sb_op" where
  "remote_dir_lookup env object_key directory_prefix =
     eff_bind (eff_gets (\<lambda>sb. sp_bucket (sb_s3_path sb))) (\<lambda>bucket.
     eff_bind (client_call (\<lambda>c. oc_list_objects (env_client env) c bucket None ''/'' 1 directory_prefix)) (\<lambda>r. case r of
       Inr res \<Rightarrow> eff_return (found_directory res directory_prefix)
     | Inl _ \<Rightarrow> eff_bind (eff_gets (\<lambda>sb. client_error_of sb ''ListObjectsV2 failed'' object_key)) eff_error))"

definition remote_directory :: "clock \<Rightarrow> ('m, 'c, remote_lookup option) sb_op" where
  "remote_directory clk = eff_gets (\<lambda>sb.
     Some \<lparr>rl_kind = Directory, rl_stat = stat_for_directory clk (sb_mount_time sb) (validity_of sb Directory)\<rparr>)"

definition remote_file :: "clock \<Rightarrow> inode_stat option \<Rightarrow> ('m, 'c, remote_lookup option) sb_op" where
  "remote_file clk file_state = eff_gets (\<lambda>sb. map_option (\<lambda>st.
     \<lparr>rl_kind = File, rl_stat = update_validity (ck_now clk) (validity_of sb File) st\<rparr>) file_state)"

text \<open>The two requests race; \<open>head_first\<close> tells which one completes first.\<close>

definition sb_remote_lookup ::
  "('m, 'c) sb_env \<Rightarrow> clock \<Rightarrow> bool \<Rightarrow> nat \<Rightarrow> string \<Rightarrow> ('m, 'c, remote_lookup option) sb_op" where
  "sb_remote_lookup env clk head_first parent_ino name =
     eff_bind (sb_get env parent_ino) (\<lambda>a. eff_bind (sb_node a) (\<lambda>parent.
     eff_bind (eff_gets (\<lambda>sb. new_child (full_key_for_inode sb parent) name Directory)) (\<lambda>r. case r of
       Inl _ \<Rightarrow> eff_error (NotADirectory (inode_err parent))
     | Inr k \<Rightarrow>
         let full_path = vk_key k; object_key = butlast full_path in
         if head_first then
           eff_bind (remote_file_lookup env clk object_key) (\<lambda>file_state.
           eff_bind (remote_dir_lookup env object_key full_path) (\<lambda>found.
             if found then remote_directory clk else remote_file clk file_state))
         else
           eff_bind (remote_dir_lookup env object_key full_path) (\<lambda>found.
             if found then remote_directory clk
             else eff_bind (remote_file_lookup env clk object_key) (remote_file clk)))))"

section \<open>Updating the local state\<close>

definition create_inode_locked ::
  "('m, 'c) sb_env \<Rightarrow> nat \<Rightarrow> string \<Rightarrow> inode_kind \<Rightarrow> inode_state \<Rightarrow> bool \<Rightarrow> ('m, 'c, nat) sb_op" where
  "create_inode_locked env parent name kind st is_new_file =
     eff_bind (sb_node parent) (\<lambda>p. case new_child (in_key p) name kind of
       Inl _ \<Rightarrow> eff_error (NotADirectory (inode_err p))
     | Inr key \<Rightarrow>
         eff_bind (eff_gets sb_next_ino) (\<lambda>next_ino.
         eff_bind (eff_modify (\<lambda>sb. sb\<lparr>sb_next_ino := Suc (sb_next_ino sb)\<rparr>)) (\<lambda>_.
         eff_bind (eff_gets (\<lambda>sb. inode_new (env_crc env) next_ino (in_ino p) key (sb_prefix sb) st)) (\<lambda>n.
         eff_bind (alloc_inode n) (\<lambda>a.
         case is_kind_data (in_sync p) of
           FileData \<Rightarrow> eff_error (NotADirectory (inode_err p))
         | DirectoryData children writing_children deleted \<Rightarrow>
             eff_bind (case children name of
                 None \<Rightarrow> eff_return None
               | Some b \<Rightarrow> eff_bind (sb_node b) (\<lambda>existing. eff_return (Some (in_ino existing)))) (\<lambda>existing.
               let writing_children = (if is_new_file then insert next_ino writing_children else writing_children);
                   writing_children = (case existing of None \<Rightarrow> writing_children | Some i \<Rightarrow> writing_children - {i})
               in eff_bind (set_state parent ((in_sync p)\<lparr>is_kind_data :=
                      DirectoryData (children(name \<mapsto> a)) writing_children deleted\<rparr>)) (\<lambda>_. eff_return a)))))))"

definition try_update_fast_path ::
  "nat \<Rightarrow> string \<Rightarrow> remote_lookup option \<Rightarrow> ('m, 'c, looked_up_inode option) sb_op" where
  "try_update_fast_path parent name remote =
     eff_bind (get_inode_state parent) (\<lambda>p. case is_kind_data (in_sync p) of
       FileData \<Rightarrow> eff_panic
     | DirectoryData children _ _ \<Rightarrow> (case (remote, children name) of
         (None, None) \<Rightarrow> eff_error (FileDoesNotExist name (inode_err p))
       | (Some remote, Some existing) \<Rightarrow>
           eff_bind (get_inode_state existing) (\<lambda>n.
             let st = in_sync n in
             if rl_kind remote = in_kind n \<and> \<not> has_local_state st \<and> st_etag (is_stat st) = st_etag (rl_stat remote)
             then eff_bind (set_state existing (st\<lparr>is_stat := rl_stat remote\<rparr>)) (\<lambda>_.
               eff_gets (\<lambda>sb. Some (looked_up sb existing (rl_stat remote) (is_write_status st))))
             else eff_return None)
       | _ \<Rightarrow> eff_return None))"

definition create_remote ::
  "('m, 'c) sb_env \<Rightarrow> nat \<Rightarrow> string \<Rightarrow> remote_lookup \<Rightarrow> ('m, 'c, looked_up_inode) sb_op" where
  "create_remote env parent name remote =
     eff_bind (create_inode_locked env parent name (rl_kind remote)
       (inode_state_new (rl_stat remote) (rl_kind remote) Remote) False) (\<lambda>a.
       eff_gets (\<lambda>sb. looked_up sb a (rl_stat remote) Remote))"

definition remove_writing_child :: "nat \<Rightarrow> nat \<Rightarrow> ('m, 'c, unit) sb_op" where
  "remove_writing_child dir ino = eff_bind (sb_node dir) (\<lambda>p. case is_kind_data (in_sync p) of
     FileData \<Rightarrow> eff_panic
   | DirectoryData children writing_children deleted \<Rightarrow>
       set_state dir ((in_sync p)\<lparr>is_kind_data := DirectoryData children (writing_children - {ino}) deleted\<rparr>))"

definition update_slow_path ::
  "('m, 'c) sb_env \<Rightarrow> clock \<Rightarrow> nat \<Rightarrow> string \<Rightarrow> remote_lookup option \<Rightarrow> ('m, 'c, looked_up_inode) sb_op" where
  "update_slow_path env clk parent name remote =
     eff_bind (get_inode_state parent) (\<lambda>p. case is_kind_data (in_sync p) of
       FileData \<Rightarrow> eff_panic
     | DirectoryData children writing_children deleted \<Rightarrow> (case (remote, children name) of
         (None, None) \<Rightarrow> eff_error (FileDoesNotExist name (inode_err p))
       | (None, Some existing) \<Rightarrow>
           eff_bind (sb_node existing) (\<lambda>n.
             if in_ino n \<in> writing_children then
               eff_bind (get_inode_state existing) (\<lambda>n.
               eff_bind (eff_gets (\<lambda>sb. update_validity (ck_now clk) (validity_of sb (in_kind n)) (is_stat (in_sync n)))) (\<lambda>st.
               eff_bind (set_state existing ((in_sync n)\<lparr>is_stat := st\<rparr>)) (\<lambda>_.
                 eff_gets (\<lambda>sb. looked_up sb existing st (is_write_status (in_sync n))))))
             else
               eff_bind (set_state parent ((in_sync p)\<lparr>is_kind_data :=
                   DirectoryData (children(name := None)) writing_children deleted\<rparr>)) (\<lambda>_.
                 eff_error (FileDoesNotExist name (inode_err p))))
       | (Some remote, None) \<Rightarrow> create_remote env parent name remote
       | (Some remote, Some existing) \<Rightarrow>
           eff_bind (get_inode_state existing) (\<lambda>n.
             let st = in_sync n;
                 same_kind = (rl_kind remote = in_kind n);
                 same_etag = (st_etag (is_stat st) = st_etag (rl_stat remote))
             in if rl_kind remote = File \<and> has_local_state st then
                  eff_gets (\<lambda>sb. looked_up sb existing (is_stat st) (is_write_status st))
                else if same_kind \<and> same_etag \<and> (\<not> has_local_state st \<or> rl_kind remote = Directory) then
                  let becomes_remote = (rl_kind remote = Directory \<and> has_local_state st);
                      ws = (if becomes_remote then Remote else is_write_status st)
                  in eff_bind (set_state existing (st\<lparr>is_stat := rl_stat remote, is_write_status := ws\<rparr>)) (\<lambda>_.
                     eff_bind (if becomes_remote then remove_writing_child parent (in_ino n) else eff_return ()) (\<lambda>_.
                       eff_gets (\<lambda>sb. looked_up sb existing (rl_stat remote) ws)))
                else create_remote env parent name remote)))"

definition update_negative_cache ::
  "('m, 'c) sb_env \<Rightarrow> clock \<Rightarrow> nat \<Rightarrow> string \<Rightarrow> remote_lookup option \<Rightarrow> ('m, 'c) superblock \<Rightarrow> ('m, 'c) superblock" where
  "update_negative_cache env clk parent_ino name remote sb =
     (if cc_use_negative_cache (sc_cache_config (sb_config sb)) then
        sb\<lparr>sb_negative_cache := (case remote of
          Some _ \<Rightarrow> nc_remove (env_lhm env) (sb_negative_cache sb) parent_ino name
        | None \<Rightarrow> nc_insert (env_lhm env) (sb_negative_cache sb) (\<lambda>_. ck_now clk) parent_ino name)\<rparr>
      else sb)"

definition update_from_remote ::
  "('m, 'c) sb_env \<Rightarrow> clock \<Rightarrow> nat \<Rightarrow> string \<Rightarrow> remote_lookup option \<Rightarrow> ('m, 'c, looked_up_inode) sb_op" where
  "update_from_remote env clk parent_ino name remote =
     eff_bind (sb_get env parent_ino) (\<lambda>a. eff_bind (sb_node a) (\<lambda>p.
       if in_kind p \<noteq> Directory then eff_error (NotADirectory (inode_err p))
       else
         eff_bind (eff_modify (update_negative_cache env clk parent_ino name remote)) (\<lambda>_.
         eff_bind (try_update_fast_path a name remote) (\<lambda>r. case r of
           Some l \<Rightarrow> eff_return l
         | None \<Rightarrow> update_slow_path env clk a name remote))))"

definition lookup_by_name ::
  "('m, 'c) sb_env \<Rightarrow> clock \<Rightarrow> bool \<Rightarrow> nat \<Rightarrow> string \<Rightarrow> bool \<Rightarrow> ('m, 'c, looked_up_inode) sb_op" where
  "lookup_by_name env clk head_first parent_ino name allow_cache =
     eff_bind (parse_name env name) (\<lambda>name.
     eff_bind (if allow_cache then cache_lookup env clk parent_ino name else eff_return None) (\<lambda>cached.
     eff_bind (case cached of
         Some r \<Rightarrow> eff_lift r
       | None \<Rightarrow> eff_bind (sb_remote_lookup env clk head_first parent_ino name)
           (update_from_remote env clk parent_ino name)) (\<lambda>l.
     eff_bind (verify_child env parent_ino name (li_inode l)) (\<lambda>_. eff_return l))))"

end
