(* ===== verification/Superblock_Ops.thy ===== *)
theory Superblock_Ops
  imports Superblock
begin

text \<open>
  The operations of the \<open>Metablock\<close> interface as the superblock implements them (\<open>superblock.rs\<close>), in the order of
  the source. The future of a pending upload belongs to the file handle that created it: waiting for it is
  the parameter \<open>await_hook\<close>. Log output and metrics are left out.
\<close>

section \<open>Attributes\<close>

definition serve_from_cache :: "('m, 'c) superblock \<Rightarrow> bool" where
  "serve_from_cache sb = cc_serve_lookup_from_cache (sc_cache_config (sb_config sb))"

definition getattr_with_inode ::
  "('m, 'c) sb_env \<Rightarrow> clock \<Rightarrow> bool \<Rightarrow> nat \<Rightarrow> bool \<Rightarrow> ('m, 'c, looked_up_inode) sb_op" where
  "getattr_with_inode env clk head_first ino force_revalidate_if_remote =
     eff_bind (sb_get env ino) (\<lambda>a. eff_bind (get_inode_state a) (\<lambda>n.
     eff_bind (if has_local_state (in_sync n) \<or> \<not> force_revalidate_if_remote then
         eff_bind (eff_gets (\<lambda>sb. if has_local_state (in_sync n)
             then update_validity (ck_now clk) (validity_of sb (in_kind n)) (is_stat (in_sync n)) else is_stat (in_sync n))) (\<lambda>st.
         eff_bind (set_state a ((in_sync n)\<lparr>is_stat := st\<rparr>)) (\<lambda>_.
         if stat_is_valid st (ck_now clk)
         then eff_gets (\<lambda>sb. Some (looked_up sb a st (is_write_status (in_sync n)))) else eff_return None))
       else eff_return None) (\<lambda>local_lookup. case local_lookup of
       Some l \<Rightarrow> eff_return l
     | None \<Rightarrow>
         eff_bind (eff_run (vk_name (in_key n))) (\<lambda>name.
         eff_bind (lookup_by_name env clk head_first (in_parent n) name False) (\<lambda>l.
         eff_bind (sb_node (li_inode l)) (\<lambda>m.
           if in_ino m \<noteq> ino then
             eff_bind (eff_gets (\<lambda>sb. StaleInode (vk_key (full_key_for_inode sb m)) (inode_err n) (inode_err m))) eff_error
           else eff_return l))))))"

definition sb_lookup :: "('m, 'c) sb_env \<Rightarrow> clock \<Rightarrow> bool \<Rightarrow> nat \<Rightarrow> string \<Rightarrow> ('m, 'c, lookup) sb_op" where
  "sb_lookup env clk head_first parent_ino name =
     eff_bind (eff_gets serve_from_cache) (\<lambda>cached.
     eff_bind (lookup_by_name env clk head_first parent_ino name cached) (\<lambda>l.
     eff_bind (remember (li_inode l)) (\<lambda>_. into_lookup l)))"

definition sb_getattr :: "('m, 'c) sb_env \<Rightarrow> clock \<Rightarrow> bool \<Rightarrow> nat \<Rightarrow> bool \<Rightarrow> ('m, 'c, lookup) sb_op" where
  "sb_getattr env clk head_first ino force =
     eff_bind (getattr_with_inode env clk head_first ino force) into_lookup"

definition sb_setattr :: "('m, 'c) sb_env \<Rightarrow> clock \<Rightarrow> nat \<Rightarrow> nat option \<Rightarrow> nat option \<Rightarrow> ('m, 'c, lookup) sb_op" where
  "sb_setattr env clk ino atime mtime =
     eff_bind (sb_get env ino) (\<lambda>a. eff_bind (get_inode_state a) (\<lambda>n.
       if is_write_status (in_sync n) = Remote then eff_error (SetAttrNotPermittedOnRemoteInode (inode_err n))
       else
         eff_bind (eff_gets (\<lambda>sb. update_validity (ck_now clk) (validity_of sb (in_kind n)) (is_stat (in_sync n)))) (\<lambda>st.
         let st = (case atime of Some t \<Rightarrow> st\<lparr>st_atime := t\<rparr> | None \<Rightarrow> st);
             st = (case mtime of Some t \<Rightarrow> st\<lparr>st_mtime := t\<rparr> | None \<Rightarrow> st)
         in eff_bind (set_state a ((in_sync n)\<lparr>is_stat := st\<rparr>)) (\<lambda>_. eff_gets (\<lambda>sb. lookup_of_inode sb n st)))))"

section \<open>Opening handles\<close>

definition start_reading :: "nat \<Rightarrow> nat \<Rightarrow> ('m, 'c, nat option) sb_op" where
  "start_reading a fh = eff_bind (get_inode_state a) (\<lambda>n.
     if is_write_status (in_sync n) = LocalUnopened then eff_error (InodeNotReadableWhileWriting (inode_err n))
     else
       eff_bind (eff_gets (\<lambda>sb. try_add_reader (sb_open_handles sb) (in_ino n) fh)) (\<lambda>(handles, added).
       eff_bind (eff_modify (\<lambda>sb. sb\<lparr>sb_open_handles := handles\<rparr>)) (\<lambda>_.
         if \<not> added then eff_error (InodeNotReadableWhileWriting (inode_err n))
         else
           eff_bind (if is_write_status (in_sync n) = LocalOpenForWriting
             then set_state a ((in_sync n)\<lparr>is_write_status := Remote\<rparr>) else eff_return ()) (\<lambda>_.
             eff_return (is_pending_upload_hook (in_sync n))))))"

definition setup_inode_for_writing :: "nat \<Rightarrow> inode \<Rightarrow> nat \<Rightarrow> ('m, 'c, unit) sb_op" where
  "setup_inode_for_writing a n fh =
     eff_bind (eff_gets (\<lambda>sb. set_writer (sb_open_handles sb) (in_ino n) fh)) (\<lambda>(handles, r).
     eff_bind (eff_modify (\<lambda>sb. sb\<lparr>sb_open_handles := handles\<rparr>)) (\<lambda>_. case r of
       Inl ActiveWriter \<Rightarrow> eff_error (InodeAlreadyWriting (inode_err n))
     | Inl ActiveReaders \<Rightarrow> eff_error (InodeNotWritableWhileReading (inode_err n))
     | Inr _ \<Rightarrow> set_state a ((in_sync n)\<lparr>is_write_status := LocalOpenForWriting\<rparr>)))"

definition truncate_stat :: "nat \<Rightarrow> ('m, 'c, unit) sb_op" where
  "truncate_stat a = eff_bind (sb_node a) (\<lambda>n.
     set_state a ((in_sync n)\<lparr>is_stat := (is_stat (in_sync n))\<lparr>st_size := 0\<rparr>\<rparr>))"

definition start_writing :: "nat \<Rightarrow> write_mode \<Rightarrow> bool \<Rightarrow> nat \<Rightarrow> ('m, 'c, nat option) sb_op" where
  "start_writing a mode is_truncate fh = eff_bind (get_inode_state a) (\<lambda>n.
     case is_write_status (in_sync n) of
       LocalUnopened \<Rightarrow>
         eff_bind (setup_inode_for_writing a n fh) (\<lambda>_. eff_bind (truncate_stat a) (\<lambda>_. eff_return None))
     | PendingRename \<Rightarrow> eff_error (InodeAlreadyWriting (inode_err n))
     | _ \<Rightarrow>
         if \<not> is_inode_writable mode is_truncate then eff_error (InodeNotWritable (inode_err n))
         else
           eff_bind (setup_inode_for_writing a n fh) (\<lambda>_.
           eff_bind (if is_truncate then truncate_stat a else eff_return ()) (\<lambda>_.
             eff_return (is_pending_upload_hook (in_sync n)))))"

datatype open_flag = O_WRONLY | O_RDWR | O_APPEND | O_SYNC | O_TRUNC | O_DSYNC | O_NONBLOCK | O_NOCTTY | O_CREAT | O_DIRECT

definition open_mode :: "write_mode \<Rightarrow> open_flag set \<Rightarrow> write_status \<Rightarrow> read_write_mode" where
  "open_mode mode flags ws =
     (if O_RDWR \<in> flags then
        (if ws = LocalUnopened \<or> (wm_allow_overwrite mode \<and> O_TRUNC \<in> flags) \<or>
            (wm_incremental_upload mode \<and> O_APPEND \<in> flags)
         then ModeWrite else ModeRead)
      else if O_WRONLY \<in> flags then ModeWrite else ModeRead)"

definition open_handle ::
  "('m, 'c) sb_env \<Rightarrow> clock \<Rightarrow> bool \<Rightarrow> (nat \<Rightarrow> ('m, 'c, lookup option) sb_op) \<Rightarrow> nat \<Rightarrow> nat \<Rightarrow> write_mode \<Rightarrow>
     open_flag set \<Rightarrow> ('m, 'c, new_handle) sb_op" where
  "open_handle env clk head_first await_hook ino fh mode flags =
     eff_bind (eff_gets (\<lambda>sb. \<not> serve_from_cache sb \<or> O_DIRECT \<in> flags)) (\<lambda>force.
     eff_bind (getattr_with_inode env clk head_first ino force) (\<lambda>l.
     let a = li_inode l in
     eff_bind (sb_node a) (\<lambda>n.
     if in_kind n = Directory then eff_error (IsDirectory (inode_err n))
     else
       let rw = open_mode mode flags (li_write_status l) in
       if rw = ModeRead \<and> \<not> st_is_readable (li_stat l) then
         eff_error (FlexibleRetrievalObjectNotAccessible (inode_err n))
       else
         eff_bind (case rw of
             ModeRead \<Rightarrow> start_reading a fh
           | ModeWrite \<Rightarrow> start_writing a mode (O_TRUNC \<in> flags) fh) (\<lambda>pending.
         eff_bind (sb_node a) (\<lambda>locked.
         eff_bind (eff_gets (\<lambda>sb. lookup_of_inode sb n (is_stat (in_sync locked)))) (\<lambda>inode_lookup.
         eff_bind (case pending of
             None \<Rightarrow> eff_return inode_lookup
           | Some hook \<Rightarrow> eff_bind (await_hook hook) (\<lambda>r. case r of
               Some lookup_after_upload \<Rightarrow> eff_return lookup_after_upload
             | None \<Rightarrow> eff_bind (get_inode_state a) (\<lambda>m.
                 eff_gets (\<lambda>sb. lookup_of_inode sb n (is_stat (in_sync m)))))) (\<lambda>lk.
           eff_return \<lparr>nh_lookup = lk, nh_mode = rw\<rparr>)))))))"

section \<open>Writing\<close>

definition inc_file_size :: "('m, 'c) sb_env \<Rightarrow> nat \<Rightarrow> nat \<Rightarrow> ('m, 'c, nat) sb_op" where
  "inc_file_size env ino len =
     eff_bind (sb_get env ino) (\<lambda>a. eff_bind (get_inode_state a) (\<lambda>n.
       if is_write_status (in_sync n) \<noteq> LocalOpenForWriting then eff_error (InodeInvalidWriteStatus (inode_err n))
       else
         let sz = st_size (is_stat (in_sync n)) + len in
         eff_bind (set_state a ((in_sync n)\<lparr>is_stat := (is_stat (in_sync n))\<lparr>st_size := sz\<rparr>\<rparr>)) (\<lambda>_. eff_return sz)))"

text \<open>
  The ancestors from the parent to the first remote one. The loop asserts that it meets no number
  twice; without fuel it would not return.
\<close>

fun collect_ancestors :: "('m, 'c) sb_env \<Rightarrow> nat \<Rightarrow> nat list \<Rightarrow> nat \<Rightarrow> ('m, 'c, nat list) sb_op" where
  "collect_ancestors env 0 visited ino = (\<lambda>_. Pending)"
| "collect_ancestors env (Suc fuel) visited ino =
     (if ino \<in> set visited then eff_panic
      else
        eff_bind (sb_get env ino) (\<lambda>a. eff_bind (sb_node a) (\<lambda>n.
          if in_ino n = ROOT_INODE_NO then eff_return [a]
          else eff_bind (get_inode_state a) (\<lambda>n.
            if is_write_status (in_sync n) = Remote then eff_return [a]
            else eff_bind (collect_ancestors env fuel (ino # visited) (in_parent n)) (\<lambda>rest. eff_return (a # rest))))))"

fun lock_all :: "nat list \<Rightarrow> ('m, 'c, unit) sb_op" where
  "lock_all [] = eff_return ()"
| "lock_all (a # as) = eff_bind (get_inode_state a) (\<lambda>_. lock_all as)"

fun finish_ancestors :: "nat list \<Rightarrow> nat \<Rightarrow> ('m, 'c, unit) sb_op" where
  "finish_ancestors [] child_ino = eff_return ()"
| "finish_ancestors (a # as) child_ino = eff_bind (sb_node a) (\<lambda>n. case is_kind_data (in_sync n) of
     FileData \<Rightarrow> eff_panic
   | DirectoryData children writing_children deleted \<Rightarrow>
       eff_bind (set_state a ((in_sync n)\<lparr>is_kind_data := DirectoryData children (writing_children - {child_ino}) deleted,
           is_write_status := Remote\<rparr>)) (\<lambda>_.
         finish_ancestors as (in_ino n)))"

definition finish_inode :: "clock \<Rightarrow> nat \<Rightarrow> inode \<Rightarrow> nat \<Rightarrow> string option \<Rightarrow> nat \<Rightarrow> ('m, 'c, unit) sb_op" where
  "finish_inode clk a n ino etag fh =
     (case etag of
        Some etag \<Rightarrow>
          eff_bind (eff_gets (\<lambda>sb. try_remove_writer (sb_open_handles sb) (in_ino n) fh)) (\<lambda>(handles, removed).
          eff_bind (eff_modify (\<lambda>sb. sb\<lparr>sb_open_handles := handles\<rparr>)) (\<lambda>_.
          eff_bind (eff_gets (\<lambda>sb. validity_of sb File)) (\<lambda>ttl.
            set_state a ((in_sync n)\<lparr>is_pending_upload_hook := None,
              is_write_status := (if removed then Remote else is_write_status (in_sync n)),
              is_stat := update_validity (ck_now clk) ttl ((is_stat (in_sync n))\<lparr>st_etag := Some etag\<rparr>)\<rparr>))))
      | None \<Rightarrow>
          eff_bind (eff_modify (\<lambda>sb. sb\<lparr>sb_open_handles := fst (remove_inode (sb_open_handles sb) ino)\<rparr>)) (\<lambda>_.
            set_state a ((in_sync n)\<lparr>is_pending_upload_hook := None, is_write_status := Remote,
              is_stat := update_validity (ck_now clk) 0 (is_stat (in_sync n))\<rparr>)))"

definition finish_writing ::
  "('m, 'c) sb_env \<Rightarrow> clock \<Rightarrow> nat \<Rightarrow> string option \<Rightarrow> nat \<Rightarrow> ('m, 'c, lookup) sb_op" where
  "finish_writing env clk ino etag fh =
     eff_bind (sb_get env ino) (\<lambda>a. eff_bind (sb_node a) (\<lambda>n.
     eff_bind (eff_gets sb_next_ino) (\<lambda>fuel.
     eff_bind (collect_ancestors env fuel [] (in_parent n)) (\<lambda>ancestors.
     eff_bind (lock_all (rev ancestors)) (\<lambda>_.
     eff_bind (get_inode_state a) (\<lambda>n.
       if is_write_status (in_sync n) \<in> {LocalOpenForWriting, Remote} then
         eff_bind (finish_inode clk a n ino etag fh) (\<lambda>_.
         eff_bind (finish_ancestors ancestors (in_ino n)) (\<lambda>_.
         eff_bind (sb_node a) (\<lambda>m. eff_gets (\<lambda>sb. lookup_of_inode sb m (is_stat (in_sync m))))))
       else eff_error (InodeInvalidWriteStatus (inode_err n))))))))"

section \<open>Flushing and closing\<close>

definition flush_reader :: "('m, 'c) sb_env \<Rightarrow> nat \<Rightarrow> nat \<Rightarrow> ('m, 'c, unit) sb_op" where
  "flush_reader env ino fh =
     eff_bind (sb_get env ino) (\<lambda>a. eff_bind (get_inode_state a) (\<lambda>n.
       eff_modify (\<lambda>sb. sb\<lparr>sb_open_handles := deactivate_reader (sb_open_handles sb) (in_ino n) fh\<rparr>)))"

definition flush_writer :: "('m, 'c) sb_env \<Rightarrow> nat \<Rightarrow> nat \<Rightarrow> nat \<Rightarrow> ('m, 'c, nat option) sb_op" where
  "flush_writer env ino fh hook =
     eff_bind (sb_get env ino) (\<lambda>a. eff_bind (get_inode_state a) (\<lambda>n.
       if is_write_status (in_sync n) = LocalOpenForWriting then
         eff_bind (eff_gets (\<lambda>sb. try_deactivate_writer (sb_open_handles sb) (in_ino n) fh)) (\<lambda>(handles, deactivated).
         eff_bind (eff_modify (\<lambda>sb. sb\<lparr>sb_open_handles := handles\<rparr>)) (\<lambda>_.
           if deactivated then
             let h = (case is_pending_upload_hook (in_sync n) of Some h \<Rightarrow> h | None \<Rightarrow> hook) in
             eff_bind (set_state a ((in_sync n)\<lparr>is_pending_upload_hook := Some h\<rparr>)) (\<lambda>_. eff_return (Some h))
           else eff_return None))
       else eff_return None))"

definition finish_reading :: "('m, 'c) sb_env \<Rightarrow> nat \<Rightarrow> nat \<Rightarrow> ('m, 'c, unit) sb_op" where
  "finish_reading env ino fh =
     eff_bind (sb_get env ino) (\<lambda>a. eff_bind (get_inode_state a) (\<lambda>n.
       eff_modify (\<lambda>sb. sb\<lparr>sb_open_handles := remove_reader (sb_open_handles sb) (in_ino n) fh\<rparr>)))"

definition release_writer ::
  "('m, 'c) sb_env \<Rightarrow> (nat \<Rightarrow> ('m, 'c, lookup option) sb_op) \<Rightarrow> nat \<Rightarrow> nat \<Rightarrow> nat \<Rightarrow> ('m, 'c, unit) sb_op" where
  "release_writer env await_hook ino fh hook =
     eff_bind (eff_try (flush_writer env ino fh hook)) (\<lambda>r. case r of
       Inr (Some h) \<Rightarrow> eff_bind (await_hook h) (\<lambda>_. eff_return ())
     | _ \<Rightarrow> eff_return ())"

definition try_reactivate_handle ::
  "('m, 'c) sb_env \<Rightarrow> nat \<Rightarrow> nat \<Rightarrow> read_write_mode \<Rightarrow> ('m, 'c, bool) sb_op" where
  "try_reactivate_handle env ino fh mode =
     eff_bind (sb_get env ino) (\<lambda>a. eff_bind (get_inode_state a) (\<lambda>n.
     eff_bind (eff_gets (\<lambda>sb. (case mode of ModeRead \<Rightarrow> try_activate_reader | ModeWrite \<Rightarrow> try_activate_writer)
         (sb_open_handles sb) (in_ino n) fh)) (\<lambda>(handles, activated).
     eff_bind (eff_modify (\<lambda>sb. sb\<lparr>sb_open_handles := handles\<rparr>)) (\<lambda>_.
       if activated \<and> mode = ModeWrite then
         eff_bind (set_state a ((in_sync n)\<lparr>is_pending_upload_hook := None\<rparr>)) (\<lambda>_. eff_return True)
       else eff_return activated))))"

section \<open>Creating and forgetting\<close>

definition sb_create :: "('m, 'c) sb_env \<Rightarrow> clock \<Rightarrow> bool \<Rightarrow> nat \<Rightarrow> string \<Rightarrow> inode_kind \<Rightarrow> ('m, 'c, lookup) sb_op" where
  "sb_create env clk head_first dir name kind =
     eff_bind (eff_gets serve_from_cache) (\<lambda>cached.
     eff_bind (eff_try (lookup_by_name env clk head_first dir name cached)) (\<lambda>existing. case existing of
       Inr l \<Rightarrow> eff_bind (sb_node (li_inode l)) (\<lambda>n. eff_error (FileAlreadyExists (inode_err n)))
     | Inl (FileDoesNotExist _ _) \<Rightarrow>
         eff_bind (parse_name env name) (\<lambda>name.
         eff_bind (sb_get env dir) (\<lambda>parent. eff_bind (get_inode_state parent) (\<lambda>p.
         case is_kind_data (in_sync p) of
           FileData \<Rightarrow> eff_error (NotADirectory (inode_err p))
         | DirectoryData children _ _ \<Rightarrow> (case children name of
             Some b \<Rightarrow> eff_bind (sb_node b) (\<lambda>n. eff_error (FileAlreadyExists (inode_err n)))
           | None \<Rightarrow>
               eff_bind (eff_gets (\<lambda>sb. case kind of
                   File \<Rightarrow> stat_for_file clk 0 (ck_system clk) None None None (validity_of sb File)
                 | Directory \<Rightarrow> stat_for_directory clk (sb_mount_time sb) (validity_of sb Directory))) (\<lambda>st.
               eff_bind (create_inode_locked env parent name kind (inode_state_new st kind LocalUnopened) True) (\<lambda>a.
               eff_bind (sb_node a) (\<lambda>n.
               eff_bind (eff_gets (\<lambda>sb. lookup_of_inode sb n st)) (\<lambda>lk.
               eff_bind (remember a) (\<lambda>_. eff_return lk)))))))))
     | Inl e \<Rightarrow> eff_error e))"

text \<open>An unknown number is only reported.\<close>

definition unlink_from_parent :: "inode \<Rightarrow> nat \<Rightarrow> ('m, 'c, unit) sb_op" where
  "unlink_from_parent removed ino =
     eff_bind (eff_gets (\<lambda>sb. sb_inodes sb (in_parent removed))) (\<lambda>e. case e of
       None \<Rightarrow> eff_return ()
     | Some (parent, _) \<Rightarrow>
         eff_bind (sb_node parent) (\<lambda>p. case is_kind_data (in_sync p) of
           FileData \<Rightarrow> eff_panic
         | DirectoryData children writing_children deleted \<Rightarrow>
             eff_bind (eff_run (vk_name (in_key removed))) (\<lambda>name.
             eff_bind (case children name of
                 None \<Rightarrow> eff_return children
               | Some b \<Rightarrow> eff_bind (sb_node b) (\<lambda>child.
                   eff_return (if in_ino child = ino then children(name := None) else children))) (\<lambda>children.
               set_state parent ((in_sync p)\<lparr>is_kind_data :=
                 DirectoryData children (writing_children - {ino}) deleted\<rparr>)))))"

definition sb_forget :: "nat \<Rightarrow> nat \<Rightarrow> ('m, 'c, unit) sb_op" where
  "sb_forget ino n =
     eff_bind (eff_gets (\<lambda>sb. decrease_lookup_count ino n sb)) (\<lambda>(sb', outcome).
     eff_bind (eff_modify (\<lambda>_. sb')) (\<lambda>_. case outcome of
       Some (Some a) \<Rightarrow>
         eff_bind (sb_node a) (\<lambda>removed.
         eff_bind (unlink_from_parent removed ino) (\<lambda>_.
           eff_modify (\<lambda>sb. sb\<lparr>sb_open_handles := fst (remove_inode (sb_open_handles sb) ino)\<rparr>)))
     | _ \<Rightarrow> eff_return ()))"

section \<open>Removing\<close>

definition sb_rmdir :: "('m, 'c) sb_env \<Rightarrow> clock \<Rightarrow> bool \<Rightarrow> nat \<Rightarrow> string \<Rightarrow> ('m, 'c, unit) sb_op" where
  "sb_rmdir env clk head_first parent_ino name =
     eff_bind (eff_gets serve_from_cache) (\<lambda>cached.
     eff_bind (lookup_by_name env clk head_first parent_ino name cached) (\<lambda>l.
     let a = li_inode l in
     eff_bind (sb_node a) (\<lambda>n.
     if in_kind n = File then eff_error (NotADirectory (inode_err n))
     else
       eff_bind (sb_get env parent_ino) (\<lambda>parent. eff_bind (get_inode_state parent) (\<lambda>_.
       eff_bind (get_inode_state a) (\<lambda>n.
       eff_bind (case is_write_status (in_sync n) of
           LocalOpenForWriting \<Rightarrow> eff_panic
         | Remote \<Rightarrow> eff_error (CannotRemoveRemoteDirectory (inode_err n))
         | PendingRename \<Rightarrow> eff_panic
         | LocalUnopened \<Rightarrow> (case is_kind_data (in_sync n) of
             FileData \<Rightarrow> eff_panic
           | DirectoryData children writing_children deleted \<Rightarrow>
               if writing_children \<noteq> {} then eff_error (DirectoryNotEmpty (inode_err n))
               else set_state a ((in_sync n)\<lparr>is_kind_data := DirectoryData children writing_children True\<rparr>))) (\<lambda>_.
       eff_bind (sb_node parent) (\<lambda>p. case is_kind_data (in_sync p) of
         FileData \<Rightarrow> eff_error (NotADirectory (inode_err p))
       | DirectoryData children writing_children deleted \<Rightarrow>
           eff_bind (eff_run (vk_name (in_key n))) (\<lambda>name.
             set_state parent ((in_sync p)\<lparr>is_kind_data :=
               DirectoryData (children(name := None)) (writing_children - {in_ino n}) deleted\<rparr>)))))))))) "

definition forget_unlinked :: "clock \<Rightarrow> nat \<Rightarrow> nat \<Rightarrow> ('m, 'c, unit) sb_op" where
  "forget_unlinked clk parent a =
     eff_bind (get_inode_state parent) (\<lambda>p. eff_bind (sb_node a) (\<lambda>n. case is_kind_data (in_sync p) of
       FileData \<Rightarrow> eff_error (NotADirectory (inode_err p))
     | DirectoryData children writing_children deleted \<Rightarrow>
         eff_bind (eff_run (vk_name (in_key n))) (\<lambda>name. case children name of
           None \<Rightarrow> eff_return ()
         | Some b \<Rightarrow> eff_bind (sb_node b) (\<lambda>existing.
             if in_ino existing = in_ino n then
               set_state parent ((in_sync p)\<lparr>is_kind_data :=
                 DirectoryData (children(name := None)) writing_children deleted\<rparr>)
             else
               set_state b ((in_sync existing)\<lparr>is_stat := update_validity (ck_now clk) 0 (is_stat (in_sync existing))\<rparr>)))))"

definition sb_unlink :: "('m, 'c) sb_env \<Rightarrow> clock \<Rightarrow> bool \<Rightarrow> nat \<Rightarrow> string \<Rightarrow> ('m, 'c, unit) sb_op" where
  "sb_unlink env clk head_first parent_ino name =
     eff_bind (sb_get env parent_ino) (\<lambda>parent.
     eff_bind (eff_gets serve_from_cache) (\<lambda>cached.
     eff_bind (lookup_by_name env clk head_first parent_ino name cached) (\<lambda>l.
     let a = li_inode l in
     eff_bind (sb_node a) (\<lambda>n.
     if in_kind n = Directory then eff_error (IsDirectory (inode_err n))
     else
       eff_bind (get_inode_state a) (\<lambda>n.
       if is_write_status (in_sync n) \<noteq> Remote then eff_error (UnlinkNotPermittedWhileWriting (inode_err n))
       else
         eff_bind (eff_gets (\<lambda>sb. (sp_bucket (sb_s3_path sb), vk_key (full_key_for_inode sb n)))) (\<lambda>(bucket, s3_key).
         eff_bind (client_call (\<lambda>c. oc_delete_object (env_client env) c bucket s3_key)) (\<lambda>r. case r of
           Inl _ \<Rightarrow> eff_bind (eff_gets (\<lambda>sb. client_error_of sb ''DeleteObject failed'' s3_key)) eff_error
         | Inr _ \<Rightarrow> forget_unlinked clk parent a)))))))"

end
