(* ===== verification/Superblock_Rename.thy ===== *)
theory Superblock_Rename
  imports Superblock_Ops
begin

text \<open>
  Renaming a file in the superblock (\<open>superblock.rs\<close>): the guards that mark source and destination as pending and
  restore them when the rename fails, the order in which the two directories are locked, the remote request and
  the move in the local state.
\<close>

section \<open>Guards\<close>

definition try_transition :: "nat \<Rightarrow> ('m, 'c, unit) sb_op" where
  "try_transition a = eff_bind (get_inode_state a) (\<lambda>n.
     if is_write_status (in_sync n) = Remote
     then set_state a ((in_sync n)\<lparr>is_write_status := PendingRename\<rparr>)
     else eff_error (RenameNotPermittedWhileWriting (inode_err n)))"

definition drop_rename_guard :: "nat \<Rightarrow> ('m, 'c, unit) sb_op" where
  "drop_rename_guard a = eff_bind (eff_try (get_inode_state a)) (\<lambda>r. case r of
     Inl _ \<Rightarrow> eff_panic
   | Inr n \<Rightarrow> if is_write_status (in_sync n) = PendingRename
       then set_state a ((in_sync n)\<lparr>is_write_status := Remote\<rparr>) else eff_return ())"

text \<open>An early return with an error drops the guard; success confirms it.\<close>

definition with_rename_guard :: "nat \<Rightarrow> ('m, 'c, 'a) sb_op \<Rightarrow> ('m, 'c, 'a) sb_op" where
  "with_rename_guard a m = eff_bind (eff_try m) (\<lambda>r. case r of
     Inr x \<Rightarrow> eff_return x
   | Inl e \<Rightarrow> eff_bind (drop_rename_guard a) (\<lambda>_. eff_error e))"

section \<open>Locking the directories\<close>

text \<open>The walk from the source directory up to the root; without fuel it would not return.\<close>

fun dst_is_ancestor :: "nat \<Rightarrow> ('m, 'c) superblock \<Rightarrow> inode \<Rightarrow> nat \<Rightarrow> bool run" where
  "dst_is_ancestor 0 sb current dst = Pending"
| "dst_is_ancestor (Suc fuel) sb current dst =
     (if in_ino current = ROOT_INODE_NO then Done False
      else if in_ino current = dst then Done True
      else case sb_inodes sb (in_parent current) of
        None \<Rightarrow> Done False
      | Some (a, _) \<Rightarrow> (case sb_arena sb a of None \<Rightarrow> Panic | Some n \<Rightarrow> dst_is_ancestor fuel sb n dst))"

definition rename_lock_order :: "('m, 'c) superblock \<Rightarrow> nat \<Rightarrow> inode \<Rightarrow> nat \<Rightarrow> inode \<Rightarrow> nat list run" where
  "rename_lock_order sb src_parent src dst_parent dst =
     (if in_ino src = in_ino dst then Done [src_parent]
      else and_then (dst_is_ancestor (Suc (sb_next_ino sb)) sb src (in_ino dst)) (\<lambda>ancestor_check.
        Done (if ancestor_check \<or> in_ino src > in_ino dst then [dst_parent, src_parent] else [src_parent, dst_parent])))"

definition rename_lock :: "nat \<Rightarrow> nat \<Rightarrow> ('m, 'c, unit) sb_op" where
  "rename_lock src_parent dst_parent =
     eff_bind (sb_node src_parent) (\<lambda>src. eff_bind (sb_node dst_parent) (\<lambda>dst.
     eff_bind (eff_gets (\<lambda>sb. rename_lock_order sb src_parent src dst_parent dst)) (\<lambda>order.
     eff_bind (eff_run order) lock_all)))"

section \<open>The move\<close>

definition try_clone_with_new_key ::
  "('m, 'c) sb_env \<Rightarrow> clock \<Rightarrow> nat \<Rightarrow> valid_key \<Rightarrow> nat \<Rightarrow> nat \<Rightarrow> ('m, 'c, nat) sb_op" where
  "try_clone_with_new_key env clk a new_key new_validity new_parent =
     eff_bind (sb_node a) (\<lambda>n.
     if in_kind n \<noteq> File then eff_error (IsDirectory (inode_err n))
     else
       eff_bind (get_inode_state a) (\<lambda>n.
       let old = is_stat (in_sync n);
           st = \<lparr>is_stat = stat_for_file clk (st_size old) (st_atime old) (st_etag old) None None new_validity,
                 is_write_status = Remote, is_kind_data = kind_data_default File, is_pending_upload_hook = None\<rparr>
       in eff_bind (eff_gets (\<lambda>sb. inode_new (env_crc env) (in_ino n) new_parent new_key (sb_prefix sb) st)) alloc_inode))"

definition rename_in_source :: "nat \<Rightarrow> nat \<Rightarrow> ('m, 'c, unit) sb_op" where
  "rename_in_source src_parent src =
     eff_bind (sb_node src_parent) (\<lambda>p. eff_bind (sb_node src) (\<lambda>n. case is_kind_data (in_sync p) of
       FileData \<Rightarrow> eff_error (NotADirectory (inode_err p))
     | DirectoryData children writing_children deleted \<Rightarrow>
         eff_bind (eff_run (vk_name (in_key n))) (\<lambda>name.
           set_state src_parent ((in_sync p)\<lparr>is_kind_data :=
             DirectoryData (children(name := None)) writing_children deleted\<rparr>))))"

definition rename_in_destination ::
  "('m, 'c) sb_env \<Rightarrow> clock \<Rightarrow> nat \<Rightarrow> nat \<Rightarrow> nat \<Rightarrow> nat \<Rightarrow> string \<Rightarrow> valid_key \<Rightarrow> ('m, 'c, unit) sb_op" where
  "rename_in_destination env clk src_parent dst_parent src dst_parent_ino dest_name dest_key =
     eff_bind (sb_node src_parent) (\<lambda>sp. eff_bind (sb_node dst_parent) (\<lambda>p. case is_kind_data (in_sync p) of
       FileData \<Rightarrow> eff_error (NotADirectory (inode_err sp))
     | DirectoryData children writing_children deleted \<Rightarrow>
         eff_bind (eff_gets (\<lambda>sb. validity_of sb File)) (\<lambda>ttl.
         eff_bind (try_clone_with_new_key env clk src dest_key ttl dst_parent_ino) (\<lambda>a.
         eff_bind (set_state dst_parent ((in_sync p)\<lparr>is_kind_data :=
             DirectoryData (children(dest_name \<mapsto> a)) writing_children deleted\<rparr>)) (\<lambda>_.
         eff_bind (sb_node a) (\<lambda>n. eff_modify (replace_or_insert (in_ino n) a)))))))"

definition rename_error :: "('m, 'c) superblock \<Rightarrow> inode \<Rightarrow> string \<Rightarrow> string \<Rightarrow> rename_object_error client_error \<Rightarrow> inode_error" where
  "rename_error sb src src_key dest_key e = (case e of
     ServiceError (PreConditionFailed IfNoneMatch) \<Rightarrow> RenameDestinationExists dest_key (inode_err src)
   | ServiceError KeyNotFound \<Rightarrow> InodeDoesNotExist (in_ino src)
   | ServiceError KeyTooLong \<Rightarrow> NameTooLong dest_key
   | ServiceError NotImplementedError \<Rightarrow> RenameNotSupported
   | _ \<Rightarrow> client_error_of sb ''RenameObject failed'' src_key)"

definition rename_remote ::
  "('m, 'c) sb_env \<Rightarrow> clock \<Rightarrow> nat \<Rightarrow> nat \<Rightarrow> nat \<Rightarrow> nat \<Rightarrow> string \<Rightarrow> bool \<Rightarrow> ('m, 'c, unit) sb_op" where
  "rename_remote env clk src_parent dst_parent src dst_parent_ino dst_name allow_overwrite =
     eff_bind (sb_node src) (\<lambda>n. eff_bind (sb_node dst_parent) (\<lambda>dp.
     eff_bind (parse_name env dst_name) (\<lambda>dest_name. case new_child (in_key dp) dest_name File of
       Inl _ \<Rightarrow> eff_error (NotADirectory (inode_err dp))
     | Inr key \<Rightarrow>
         eff_bind (eff_gets (\<lambda>sb. (sp_bucket (sb_s3_path sb), vk_key (full_key_for_inode sb n),
             pf_path (sb_prefix sb) @ vk_key key))) (\<lambda>(bucket, src_key, dest_key).
         let params = \<lparr>rp_if_none_match = (if allow_overwrite then None else Some ''*''), rp_if_match = None,
               rp_if_source_match = None\<rparr> in
         eff_bind (client_call (\<lambda>c. oc_rename_object (env_client env) c bucket src_key dest_key params)) (\<lambda>r. case r of
           Inl e \<Rightarrow>
             eff_bind (if e = ServiceError NotImplementedError then eff_modify (cache_rename False) else eff_return ()) (\<lambda>_.
             eff_bind (eff_gets (\<lambda>sb. rename_error sb n src_key dest_key e)) eff_error)
         | Inr _ \<Rightarrow>
             eff_bind (eff_modify (cache_rename True)) (\<lambda>_.
             eff_bind (eff_modify (\<lambda>sb. sb\<lparr>sb_negative_cache :=
                 nc_remove (env_lhm env) (sb_negative_cache sb) (in_ino dp) dst_name\<rparr>)) (\<lambda>_.
             eff_bind (rename_lock src_parent dst_parent) (\<lambda>_.
             eff_bind (rename_in_source src_parent src) (\<lambda>_.
               rename_in_destination env clk src_parent dst_parent src dst_parent_ino dest_name key))))))))) "

definition sb_rename ::
  "('m, 'c) sb_env \<Rightarrow> clock \<Rightarrow> bool \<Rightarrow> bool \<Rightarrow> nat \<Rightarrow> string \<Rightarrow> nat \<Rightarrow> string \<Rightarrow> bool \<Rightarrow> ('m, 'c, unit) sb_op" where
  "sb_rename env clk head_first head_first' src_parent_ino src_name dst_parent_ino dst_name allow_overwrite =
     eff_bind (eff_gets should_try_rename) (\<lambda>try. if \<not> try then eff_error RenameNotSupported
     else
       eff_bind (sb_get env src_parent_ino) (\<lambda>src_parent. eff_bind (sb_get env dst_parent_ino) (\<lambda>dst_parent.
       eff_bind (eff_gets serve_from_cache) (\<lambda>cached.
       eff_bind (lookup_by_name env clk head_first src_parent_ino src_name cached) (\<lambda>l.
       let src = li_inode l in
       eff_bind (sb_node src) (\<lambda>n.
       if in_kind n = Directory then eff_error (CannotRenameDirectory (inode_err n))
       else
         eff_bind (try_transition src) (\<lambda>_. with_rename_guard src (
         eff_bind (eff_try (lookup_by_name env clk head_first' dst_parent_ino dst_name cached)) (\<lambda>dest. case dest of
           Inl _ \<Rightarrow> rename_remote env clk src_parent dst_parent src dst_parent_ino dst_name allow_overwrite
         | Inr l \<Rightarrow>
             let d = li_inode l in
             eff_bind (sb_node d) (\<lambda>dn.
             if \<not> allow_overwrite then
               eff_bind (eff_gets (\<lambda>sb. RenameDestinationExists (vk_key (full_key_for_inode sb dn)) (inode_err n))) eff_error
             else
               eff_bind (try_transition d) (\<lambda>_. with_rename_guard d
                 (rename_remote env clk src_parent dst_parent src dst_parent_ino dst_name allow_overwrite))))))))))))"

end
