(* ===== verification/Superblock_Inv.thy ===== *)
theory Superblock_Inv
  imports Superblock_Rename
begin

text \<open>
  The structural invariant of the superblock and its preservation by every operation.

  \<open>sb_ok\<close>: every inode has a valid key, an intact checksum, a number that was handed out and a parent that is a
  directory with a smaller number (for directories); the entries of a directory are inodes whose parent it is and
  whose key is its key extended by the entry's name; the inode map knows inodes by their number.
  \<open>sb_inv env D K\<close> adds facts that no operation can destroy: the numbers in \<open>D\<close> belong to
  directories only, and each \<open>(a, n)\<close> in \<open>K\<close> is a snapshot \<open>n\<close> of the cell \<open>a\<close> taken at some time. Because these facts
  are stable, the proofs hold for each locked section on its own: what other operations do between two sections
  of an operation does not matter.
\<close>

section \<open>Invariant\<close>

definition hdr :: "inode \<Rightarrow> nat \<times> nat \<times> valid_key \<times> u32" where
  "hdr n = (in_ino n, in_parent n, in_key n, in_checksum n)"

definition vfs_dir :: "nat \<Rightarrow> ('m, 'c) superblock \<Rightarrow> bool" where
  "vfs_dir i sb \<longleftrightarrow> i < sb_next_ino sb \<and> (\<forall>a n. sb_arena sb a = Some n \<and> in_ino n = i \<longrightarrow> in_kind n = Directory)"

definition child_ok :: "('m, 'c) superblock \<Rightarrow> inode \<Rightarrow> string \<Rightarrow> nat \<Rightarrow> bool" where
  "child_ok sb n name b \<longleftrightarrow> valid_name name \<and>
     (\<exists>m. sb_arena sb b = Some m \<and> in_parent m = in_ino n \<and> new_child (in_key n) name (in_kind m) = Inr (in_key m))"

definition kind_data_ok :: "('m, 'c) superblock \<Rightarrow> inode \<Rightarrow> kind_data \<Rightarrow> bool" where
  "kind_data_ok sb n kd = (case kd of
     FileData \<Rightarrow> in_kind n = File
   | DirectoryData children _ _ \<Rightarrow> in_kind n = Directory \<and> (\<forall>name b. children name = Some b \<longrightarrow> child_ok sb n name b))"

definition header_ok :: "('m, 'c) sb_env \<Rightarrow> ('m, 'c) superblock \<Rightarrow> inode \<Rightarrow> bool" where
  "header_ok env sb n \<longleftrightarrow>
     in_checksum n = inode_checksum (env_crc env) (in_ino n) (sb_prefix sb) (vk_key (in_key n)) \<and>
     (\<exists>ns. key_path ns (in_key n)) \<and> in_ino n < sb_next_ino sb \<and> vfs_dir (in_parent n) sb \<and>
     (in_kind n = Directory \<longrightarrow> vfs_dir (in_ino n) sb \<and> (in_ino n = ROOT_INODE_NO \<or> in_parent n < in_ino n))"

definition sb_ok :: "('m, 'c) sb_env \<Rightarrow> ('m, 'c) superblock \<Rightarrow> bool" where
  "sb_ok env sb \<longleftrightarrow>
     (\<forall>a n. sb_arena sb a = Some n \<longrightarrow>
        a < sb_next_address sb \<and> header_ok env sb n \<and> kind_data_ok sb n (is_kind_data (in_sync n))) \<and>
     (\<forall>i a c. sb_inodes sb i = Some (a, c) \<longrightarrow> 0 < c \<and> (\<exists>n. sb_arena sb a = Some n \<and> in_ino n = i)) \<and>
     table_ok (sb_open_handles sb)"

definition snapshot :: "('m, 'c) superblock \<Rightarrow> nat \<Rightarrow> inode \<Rightarrow> bool" where
  "snapshot sb a n \<longleftrightarrow> (\<exists>m. sb_arena sb a = Some m \<and> hdr m = hdr n) \<and> kind_data_ok sb n (is_kind_data (in_sync n))"

definition sb_inv :: "('m, 'c) sb_env \<Rightarrow> nat set \<Rightarrow> (nat \<times> inode) set \<Rightarrow> ('m, 'c) superblock \<Rightarrow> bool" where
  "sb_inv env D K sb \<longleftrightarrow> sb_ok env sb \<and> (\<forall>i \<in> D. vfs_dir i sb) \<and> (\<forall>(a, n) \<in> K. snapshot sb a n)"

lemma hdr_eqD: "hdr m = hdr n \<Longrightarrow>
  in_ino m = in_ino n \<and> in_parent m = in_parent n \<and> in_key m = in_key n \<and> in_checksum m = in_checksum n \<and> in_kind m = in_kind n"
  by (simp add: hdr_def in_kind_def)

lemma hdr_sync [simp]: "hdr (n\<lparr>in_sync := st\<rparr>) = hdr n"
  by (simp add: hdr_def)

lemma hdr_sync_update [simp]: "hdr (in_sync_update f n) = hdr n"
  by (simp add: hdr_def)

lemma sb_invD:
  assumes "sb_inv env D K sb"
  shows "sb_ok env sb" "i \<in> D \<Longrightarrow> vfs_dir i sb" "(a, n) \<in> K \<Longrightarrow> snapshot sb a n"
  using assms by (auto simp: sb_inv_def)

lemma sb_okD:
  assumes "sb_ok env sb"
  shows "sb_arena sb a = Some n \<Longrightarrow> a < sb_next_address sb"
    "sb_arena sb a = Some n \<Longrightarrow> header_ok env sb n"
    "sb_arena sb a = Some n \<Longrightarrow> kind_data_ok sb n (is_kind_data (in_sync n))"
    "sb_inodes sb i = Some (a, c) \<Longrightarrow> 0 < c"
    "sb_inodes sb i = Some (a, c) \<Longrightarrow> \<exists>n. sb_arena sb a = Some n \<and> in_ino n = i"
    "table_ok (sb_open_handles sb)"
  using assms by (auto simp: sb_ok_def)

lemma sb_inv_weaken: "sb_inv env D' K' sb \<Longrightarrow> D \<subseteq> D' \<Longrightarrow> K \<subseteq> K' \<Longrightarrow> sb_inv env D K sb"
  by (auto simp: sb_inv_def)

text \<open>The predicates only look at headers, which persist.\<close>

definition arena_ext :: "('m, 'c) superblock \<Rightarrow> ('m, 'c) superblock \<Rightarrow> bool" where
  "arena_ext sb sb' \<longleftrightarrow> sb_prefix sb' = sb_prefix sb \<and> sb_next_ino sb \<le> sb_next_ino sb' \<and>
     (\<forall>a n. sb_arena sb a = Some n \<longrightarrow> (\<exists>n'. sb_arena sb' a = Some n' \<and> hdr n' = hdr n)) \<and>
     (\<forall>i. vfs_dir i sb \<longrightarrow> vfs_dir i sb')"

lemma arena_ext_child: "arena_ext sb sb' \<Longrightarrow> child_ok sb n name b \<Longrightarrow> child_ok sb' n name b"
proof -
  assume ext: "arena_ext sb sb'" and "child_ok sb n name b"
  then obtain m where "valid_name name" and m: "sb_arena sb b = Some m" "in_parent m = in_ino n"
    "new_child (in_key n) name (in_kind m) = Inr (in_key m)" by (auto simp: child_ok_def)
  moreover from ext m(1) obtain m' where "sb_arena sb' b = Some m'" "hdr m' = hdr m" unfolding arena_ext_def by blast
  ultimately show "child_ok sb' n name b" by (auto simp: child_ok_def dest: hdr_eqD)
qed

lemma arena_ext_kind_data: "arena_ext sb sb' \<Longrightarrow> kind_data_ok sb n kd \<Longrightarrow> kind_data_ok sb' n kd"
  using arena_ext_child [of sb sb' n] by (auto simp: kind_data_ok_def split: kind_data.splits)

lemma arena_ext_header: "arena_ext sb sb' \<Longrightarrow> header_ok env sb n \<Longrightarrow> header_ok env sb' n"
  by (auto simp: arena_ext_def header_ok_def)

lemma arena_ext_snapshot: "arena_ext sb sb' \<Longrightarrow> snapshot sb a n \<Longrightarrow> snapshot sb' a n"
proof -
  assume ext: "arena_ext sb sb'" and snap: "snapshot sb a n"
  then obtain m where m: "sb_arena sb a = Some m" "hdr m = hdr n" and kd: "kind_data_ok sb n (is_kind_data (in_sync n))"
    by (auto simp: snapshot_def)
  from ext m(1) obtain m' where "sb_arena sb' a = Some m'" "hdr m' = hdr m" unfolding arena_ext_def by blast
  with m(2) arena_ext_kind_data [OF ext kd] show "snapshot sb' a n" by (auto simp: snapshot_def)
qed

lemma kind_data_ok_hdr: "hdr m = hdr n \<Longrightarrow> kind_data_ok sb m kd = kind_data_ok sb n kd"
  by (drule hdr_eqD) (simp add: kind_data_ok_def child_ok_def split: kind_data.split)

lemma header_ok_hdr: "hdr m = hdr n \<Longrightarrow> header_ok env sb m = header_ok env sb n"
  by (drule hdr_eqD) (simp add: header_ok_def)

section \<open>Primitive updates\<close>

text \<open>Updates that leave the arena alone.\<close>

lemma sb_inv_same_arena:
  assumes "sb_inv env D K sb"
    and "sb_arena sb' = sb_arena sb" "sb_next_address sb' = sb_next_address sb" "sb_s3_path sb' = sb_s3_path sb"
    "sb_next_ino sb' = sb_next_ino sb"
    and "\<forall>i a c. sb_inodes sb' i = Some (a, c) \<longrightarrow> 0 < c \<and> (\<exists>n. sb_arena sb a = Some n \<and> in_ino n = i)"
    and "table_ok (sb_open_handles sb')"
  shows "sb_inv env D K sb'"
proof -
  have vfs: "vfs_dir i sb' = vfs_dir i sb" for i using assms(2,5) by (simp add: vfs_dir_def)
  have "arena_ext sb sb'"
    using assms(2-5) vfs by (auto simp: arena_ext_def sb_prefix_def)
  note ext = arena_ext_header [OF this] arena_ext_kind_data [OF this] arena_ext_snapshot [OF this]
  have "sb_ok env sb'"
    unfolding sb_ok_def using assms(2,3,6,7) ext sb_okD(1-3) [OF sb_invD(1) [OF assms(1)]] by auto
  then show ?thesis using assms(1) ext(3) vfs by (auto simp: sb_inv_def)
qed

text \<open>A new state for an existing cell.\<close>

lemma put_state_inv:
  assumes inv: "sb_inv env D K sb" and K: "(a, n) \<in> K" and kd: "kind_data_ok sb n (is_kind_data st)"
  shows "sb_inv env D (insert (a, n\<lparr>in_sync := st\<rparr>) K) (put_state a st sb)"
proof -
  let ?sb = "put_state a st sb"
  note ok = sb_okD [OF sb_invD(1) [OF inv]]
  obtain m where m: "sb_arena sb a = Some m" "hdr m = hdr n"
    using sb_invD(3) [OF inv K] by (auto simp: snapshot_def)
  have arena: "sb_arena ?sb = (sb_arena sb)(a \<mapsto> m\<lparr>in_sync := st\<rparr>)" using m by (simp add: put_state_def)
  have hdrs: "\<exists>n. sb_arena sb b = Some n \<and> hdr n' = hdr n" if "sb_arena ?sb b = Some n'" for b n'
    using that arena m by (auto split: if_splits)
  have vfs: "vfs_dir i ?sb" if "vfs_dir i sb" for i
    unfolding vfs_dir_def
  proof (intro conjI allI impI)
    show "i < sb_next_ino ?sb" using that by (simp add: vfs_dir_def put_state_def)
    fix b n' assume b: "sb_arena ?sb b = Some n' \<and> in_ino n' = i"
    then obtain n0 where "sb_arena sb b = Some n0" "hdr n' = hdr n0" using hdrs by blast
    with that b show "in_kind n' = Directory" by (auto simp: vfs_dir_def dest: hdr_eqD)
  qed
  have ext: "arena_ext sb ?sb"
    unfolding arena_ext_def
  proof (intro conjI allI impI)
    fix b n' assume "sb_arena sb b = Some n'"
    with arena m show "\<exists>n''. sb_arena ?sb b = Some n'' \<and> hdr n'' = hdr n'" by auto
  qed (use vfs in \<open>auto simp: put_state_def sb_prefix_def\<close>)
  have st: "kind_data_ok ?sb (m\<lparr>in_sync := st\<rparr>) (is_kind_data st)"
    using arena_ext_kind_data [OF ext kd] m(2) kind_data_ok_hdr [of "m\<lparr>in_sync := st\<rparr>" n ?sb "is_kind_data st"]
    by (simp del: fun_upd_apply)
  have "b < sb_next_address ?sb \<and> header_ok env ?sb n' \<and> kind_data_ok ?sb n' (is_kind_data (in_sync n'))"
    if b: "sb_arena ?sb b = Some n'" for b n'
  proof -
    obtain n0 where n0: "sb_arena sb b = Some n0" "hdr n' = hdr n0" using hdrs [OF b] by blast
    have "header_ok env ?sb n'"
      using arena_ext_header [OF ext ok(2) [OF n0(1)]] header_ok_hdr [OF n0(2)] by blast
    moreover have "kind_data_ok ?sb n' (is_kind_data (in_sync n'))"
    proof (cases "b = a")
      case True
      with b arena have "n' = m\<lparr>in_sync := st\<rparr>" by simp
      with st show ?thesis by simp
    next
      case False
      with b arena have "sb_arena sb b = Some n'" by simp
      from arena_ext_kind_data [OF ext ok(3) [OF this]] show ?thesis .
    qed
    ultimately show ?thesis using ok(1) [OF n0(1)] by (simp add: put_state_def)
  qed
  moreover have "0 < c \<and> (\<exists>n. sb_arena ?sb b = Some n \<and> in_ino n = i)" if "sb_inodes ?sb i = Some (b, c)" for i b c
  proof -
    from that have "sb_inodes sb i = Some (b, c)" by (simp add: put_state_def)
    with ok(4,5) obtain n0 where "0 < c" "sb_arena sb b = Some n0" "in_ino n0 = i" by blast
    moreover from ext this(2) obtain n1 where "sb_arena ?sb b = Some n1" "hdr n1 = hdr n0"
      unfolding arena_ext_def by blast
    ultimately show ?thesis by (auto dest: hdr_eqD)
  qed
  moreover have "table_ok (sb_open_handles ?sb)" using ok(6) by (simp add: put_state_def)
  ultimately have "sb_ok env ?sb" unfolding sb_ok_def by blast
  moreover have "snapshot ?sb a (n\<lparr>in_sync := st\<rparr>)"
    using arena m(2) arena_ext_kind_data [OF ext kd] kind_data_ok_hdr [of "n\<lparr>in_sync := st\<rparr>" n ?sb "is_kind_data st"]
    by (simp add: snapshot_def)
  ultimately show ?thesis
    using inv vfs arena_ext_snapshot [OF ext] by (auto simp: sb_inv_def)
qed

text \<open>A new cell, with a number that is new or belongs to a file whose clone it is.\<close>

definition place_inode :: "nat \<Rightarrow> inode \<Rightarrow> ('m, 'c) superblock \<Rightarrow> ('m, 'c) superblock" where
  "place_inode next n sb = sb\<lparr>sb_next_ino := next, sb_arena := (sb_arena sb)(sb_next_address sb \<mapsto> n),
     sb_next_address := Suc (sb_next_address sb)\<rparr>"

lemma place_inode_inv:
  assumes inv: "sb_inv env D K sb" and "sb_next_ino sb \<le> next"
    and "in_checksum n = inode_checksum (env_crc env) (in_ino n) (sb_prefix sb) (vk_key (in_key n))"
    and "key_path ns (in_key n)" and "in_ino n < next" and "vfs_dir (in_parent n) sb"
    and dir: "in_kind n = Directory \<Longrightarrow> in_parent n < in_ino n"
    and new: "in_ino n = sb_next_ino sb \<or> in_kind n = File \<and> \<not> vfs_dir (in_ino n) sb"
    and kd: "is_kind_data (in_sync n) = kind_data_default (in_kind n)"
  shows "sb_inv env D (insert (sb_next_address sb, n) K) (place_inode next n sb)"
proof -
  let ?sb = "place_inode next n sb" and ?a = "sb_next_address sb"
  note ok = sb_okD [OF sb_invD(1) [OF inv]]
  have free: "sb_arena sb ?a = None" using ok(1) by (cases "sb_arena sb ?a") auto
  have arena: "sb_arena ?sb = (sb_arena sb)(?a \<mapsto> n)" by (simp add: place_inode_def)
  have vfs: "vfs_dir i ?sb" if i: "vfs_dir i sb" for i
  proof -
    have "in_ino n \<noteq> i" using i new by (auto simp: vfs_dir_def)
    then show ?thesis using i assms(2) arena by (auto simp: vfs_dir_def place_inode_def)
  qed
  have ext: "arena_ext sb ?sb"
    using assms(2) vfs free by (auto simp: arena_ext_def place_inode_def sb_prefix_def)
  have "vfs_dir (in_ino n) ?sb" if "in_kind n = Directory"
    unfolding vfs_dir_def
  proof (intro conjI allI impI)
    show "in_ino n < sb_next_ino ?sb" using assms(5) by (simp add: place_inode_def)
    fix b m assume b: "sb_arena ?sb b = Some m \<and> in_ino m = in_ino n"
    show "in_kind m = Directory"
    proof (cases "b = ?a")
      case True
      with b that arena show ?thesis by simp
    next
      case False
      with b arena have "sb_arena sb b = Some m" by simp
      with ok(2) [of b m] have "in_ino m < sb_next_ino sb" by (simp add: header_ok_def)
      with b that new show ?thesis by auto
    qed
  qed
  moreover have "sb_prefix ?sb = sb_prefix sb" "sb_next_ino ?sb = next" by (simp_all add: place_inode_def sb_prefix_def)
  ultimately have hn: "header_ok env ?sb n"
    using assms(3-6) vfs [of "in_parent n"] dir by (auto simp: header_ok_def)
  have kn: "kind_data_ok ?sb n (is_kind_data (in_sync n))"
    unfolding kd by (cases "in_kind n") (simp_all add: kind_data_ok_def kind_data_default_def)
  have "sb_ok env ?sb"
    unfolding sb_ok_def
  proof (intro conjI allI impI)
    fix b m assume b: "sb_arena ?sb b = Some m"
    have cs: "b = ?a \<and> m = n \<or> sb_arena sb b = Some m" using b arena by (auto split: if_splits)
    from cs show "b < sb_next_address ?sb"
      using ok(1) [of b m] by (auto simp: place_inode_def)
    from cs show "header_ok env ?sb m"
      using hn arena_ext_header [OF ext ok(2) [of b m]] by blast
    from cs show "kind_data_ok ?sb m (is_kind_data (in_sync m))"
      using kn arena_ext_kind_data [OF ext ok(3) [of b m]] by blast
  next
    fix i b c assume "sb_inodes ?sb i = Some (b, c)"
    then have *: "sb_inodes sb i = Some (b, c)" by (simp add: place_inode_def)
    then show "0 < c" using ok(4) by blast
    from ok(5) [OF *] obtain n0 where "sb_arena sb b = Some n0" "in_ino n0 = i" by blast
    with free show "\<exists>n. sb_arena ?sb b = Some n \<and> in_ino n = i" by (auto simp: arena)
  next
    show "table_ok (sb_open_handles ?sb)" using ok(6) by (simp add: place_inode_def)
  qed
  moreover have "snapshot ?sb ?a n" using kn by (simp add: snapshot_def arena)
  ultimately show ?thesis
    using inv vfs arena_ext_snapshot [OF ext] by (auto simp: sb_inv_def)
qed

end
