(* ===== verification/Superblock_Keeps.thy ===== *)
theory Superblock_Keeps
  imports Superblock_Inv
begin

text \<open>
  Every operation of the superblock keeps the structural invariant, on success and on error, and does not panic.
  The rules below follow the sequence of locked sections of an operation; the facts that a section learns about a
  cell are added to the snapshots of the invariant.
\<close>

section \<open>Rules for the sections\<close>

definition node_facts :: "inode \<Rightarrow> bool" where
  "node_facts n \<longleftrightarrow> (\<exists>ns. key_path ns (in_key n)) \<and> (is_kind_data (in_sync n) = FileData \<longleftrightarrow> in_kind n = File)"

lemma eff_ok_case_option [eff_intros]:
  "(x = None \<Longrightarrow> eff_ok P m Q R) \<Longrightarrow> (\<And>y. x = Some y \<Longrightarrow> eff_ok P (f y) Q R) \<Longrightarrow>
     eff_ok P (case x of None \<Rightarrow> m | Some y \<Rightarrow> f y) Q R"
  by (cases x) simp_all

lemma eff_ok_case_sum [eff_intros]:
  "(\<And>e. x = Inl e \<Longrightarrow> eff_ok P (g e) Q R) \<Longrightarrow> (\<And>y. x = Inr y \<Longrightarrow> eff_ok P (f y) Q R) \<Longrightarrow>
     eff_ok P (case x of Inl e \<Rightarrow> g e | Inr y \<Rightarrow> f y) Q R"
  by (cases x) simp_all

lemma eff_ok_case_prod [eff_intros]:
  "(\<And>y z. x = (y, z) \<Longrightarrow> eff_ok P (f y z) Q R) \<Longrightarrow> eff_ok P (case x of (y, z) \<Rightarrow> f y z) Q R"
  by (cases x) simp_all

lemma eff_ok_case_kind [eff_intros]:
  "(x = FileData \<Longrightarrow> eff_ok P m Q R) \<Longrightarrow> (\<And>ch w d. x = DirectoryData ch w d \<Longrightarrow> eff_ok P (f ch w d) Q R) \<Longrightarrow>
     eff_ok P (case x of FileData \<Rightarrow> m | DirectoryData ch w d \<Rightarrow> f ch w d) Q R"
  by (cases x) simp_all

lemma eff_ok_pure_if [eff_intros]:
  "(b \<Longrightarrow> eff_ok P m Q R) \<Longrightarrow> (\<not> b \<Longrightarrow> eff_ok P m' Q R) \<Longrightarrow> eff_ok P (if b then m else m') Q R"
  by simp

lemma eff_ok_assume: "(\<And>s. P s \<Longrightarrow> b) \<Longrightarrow> (b \<Longrightarrow> eff_ok P m Q R) \<Longrightarrow> eff_ok P m Q R"
  by (auto simp: eff_ok_def)

lemma eff_ok_ex: "(\<And>x. eff_ok (P x) m Q R) \<Longrightarrow> eff_ok (\<lambda>s. \<exists>x. P x s) m Q R"
  by (auto simp: eff_ok_def)

lemma eff_ok_and: "(b \<Longrightarrow> eff_ok P m Q R) \<Longrightarrow> eff_ok (\<lambda>s. b \<and> P s) m Q R"
  by (auto simp: eff_ok_def)

lemma snapshot_self: "sb_ok env sb \<Longrightarrow> sb_arena sb a = Some n \<Longrightarrow> snapshot sb a n"
  using sb_okD(3) [of env sb a n] by (simp add: snapshot_def)

lemma sb_inv_node:
  assumes "sb_inv env D K sb" and "sb_arena sb a = Some n"
  shows "sb_inv env D (insert (a, n) K) sb"
  using assms snapshot_self [of env sb a n] by (auto simp: sb_inv_def)

lemma sb_inv_facts:
  assumes "sb_inv env D K sb" and "(a, n) \<in> K"
  shows "node_facts n"
proof -
  obtain m where m: "sb_arena sb a = Some m" "hdr m = hdr n" and kd: "kind_data_ok sb n (is_kind_data (in_sync n))"
    using sb_invD(3) [OF assms] by (auto simp: snapshot_def)
  have "\<exists>ns. key_path ns (in_key m)" using sb_okD(2) [OF sb_invD(1) [OF assms(1)] m(1)] by (simp add: header_ok_def)
  then have "\<exists>ns. key_path ns (in_key n)" using hdr_eqD [OF m(2)] by simp
  with kd show ?thesis
    by (simp add: node_facts_def kind_data_ok_def split: kind_data.splits)
qed

lemma sb_inv_hdr: "sb_inv env D K sb \<Longrightarrow> (a, n) \<in> K \<Longrightarrow> (a, m) \<in> K \<Longrightarrow> hdr n = hdr m"
  using sb_invD(3) [of env D K sb a n] sb_invD(3) [of env D K sb a m] by (auto simp: snapshot_def)

lemma sb_inv_header:
  assumes "sb_inv env D K sb" and "(a, n) \<in> K"
  shows "header_ok env sb n"
proof -
  obtain m where m: "sb_arena sb a = Some m" "hdr m = hdr n"
    using sb_invD(3) [OF assms] by (auto simp: snapshot_def)
  with sb_okD(2) [OF sb_invD(1) [OF assms(1)] m(1)] show ?thesis using header_ok_hdr [OF m(2)] by blast
qed

lemma sb_inv_parent: "sb_inv env D K sb \<Longrightarrow> (a, n) \<in> K \<Longrightarrow> sb_inv env (insert (in_parent n) D) K sb"
  using sb_inv_header [of env D K sb a n] by (auto simp: sb_inv_def header_ok_def)

text \<open>Children known from a directory's snapshot.\<close>

lemma sb_inv_child:
  assumes "sb_inv env D K sb" and "(a, n) \<in> K" and "is_kind_data (in_sync n) = DirectoryData ch w d" and "ch name = Some b"
  obtains m where "sb_inv env D (insert (b, m) K) sb" "in_parent m = in_ino n" "valid_name name"
    "new_child (in_key n) name (in_kind m) = Inr (in_key m)"
proof -
  have "kind_data_ok sb n (is_kind_data (in_sync n))" using sb_invD(3) [OF assms(1,2)] by (simp add: snapshot_def)
  with assms(3,4) have "child_ok sb n name b" by (simp add: kind_data_ok_def)
  then obtain m where "sb_arena sb b = Some m" "in_parent m = in_ino n" "valid_name name"
    "new_child (in_key n) name (in_kind m) = Inr (in_key m)" by (auto simp: child_ok_def)
  with sb_inv_node [OF assms(1)] that show thesis by blast
qed

subsection \<open>Reading\<close>

text \<open>
  Error results keep the invariant with the facts known at the start, and corrupted metadata is never reported.
\<close>

definition sane :: "inode_error \<Rightarrow> bool" where
  "sane e = (case e of CorruptedMetadata _ \<Rightarrow> False | _ \<Rightarrow> True)"

lemma sane_simps [simp]:
  "sane (ClientError x y z)" "sane (FileDoesNotExist y1 i)" "sane (InodeDoesNotExist k)" "sane (InvalidName y1)"
  "sane (NotADirectory i)" "sane (IsDirectory i)" "sane (FileAlreadyExists i)" "sane (InodeNotWritable i)"
  "sane (InodeInvalidWriteStatus i)" "sane (InodeAlreadyWriting i)" "sane (InodeNotReadableWhileWriting i)"
  "sane (InodeNotWritableWhileReading i)" "sane (CannotRemoveRemoteDirectory i)" "sane (DirectoryNotEmpty i)"
  "sane (UnlinkNotPermittedWhileWriting i)" "sane (CannotRenameDirectory i)" "sane (RenameNotPermittedWhileWriting i)"
  "sane (RenameDestinationExists y1 i)" "sane RenameNotSupported" "sane (NameTooLong y1)"
  "sane (SetAttrNotPermittedOnRemoteInode i)" "sane (StaleInode y1 i j)" "sane (FlexibleRetrievalObjectNotAccessible i)"
  by (simp_all add: sane_def)

abbreviation keeps_err :: "('m, 'c) sb_env \<Rightarrow> nat set \<Rightarrow> (nat \<times> inode) set \<Rightarrow> inode_error \<Rightarrow> ('m, 'c) superblock \<Rightarrow> bool" where
  "keeps_err env D K \<equiv> \<lambda>e s. sane e \<and> sb_inv env D K s"

lemma bind_node:
  assumes "(a, no) \<in> K"
    and "\<And>n. hdr n = hdr no \<Longrightarrow> in_ino n = in_ino no \<Longrightarrow> in_parent n = in_parent no \<Longrightarrow> in_key n = in_key no \<Longrightarrow>
      in_kind n = in_kind no \<Longrightarrow> node_facts n \<Longrightarrow> eff_ok (sb_inv env D (insert (a, n) K)) (f n) Q R"
  shows "eff_ok (sb_inv env D K) (eff_bind (sb_node a) f) Q R"
proof (rule eff_okI)
  fix s assume inv: "sb_inv env D K s"
  then obtain n where n: "sb_arena s a = Some n" "hdr n = hdr no"
    using sb_invD(3) [OF inv assms(1)] by (auto simp: snapshot_def)
  have inv': "sb_inv env D (insert (a, n) K) s" using sb_inv_node [OF inv n(1)] .
  have "eff_bind (sb_node a) f s = f n s" using n(1) by (simp add: eff_bind_def sb_node_def)
  with hdr_eqD [OF n(2)] eff_okD [OF assms(2) [OF n(2) _ _ _ _ sb_inv_facts [OF inv' insertI1]] inv']
  show "\<exists>s' r. eff_bind (sb_node a) f s = Done (s', r) \<and> (case r of Inl e \<Rightarrow> R e s' | Inr x \<Rightarrow> Q x s')"
    by simp
qed

lemma bind_get_state:
  assumes "(a, no) \<in> K" and "Ds \<subseteq> D" "Ks \<subseteq> K"
    and "\<And>n. hdr n = hdr no \<Longrightarrow> in_ino n = in_ino no \<Longrightarrow> in_parent n = in_parent no \<Longrightarrow> in_key n = in_key no \<Longrightarrow>
      in_kind n = in_kind no \<Longrightarrow> node_facts n \<Longrightarrow> \<not> is_deleted n \<Longrightarrow>
      eff_ok (sb_inv env D (insert (a, n) K)) (f n) Q (keeps_err env Ds Ks)"
  shows "eff_ok (sb_inv env D K) (eff_bind (get_inode_state a) f) Q (keeps_err env Ds Ks)"
proof (rule eff_okI)
  fix s assume inv: "sb_inv env D K s"
  then obtain n where n: "sb_arena s a = Some n" "hdr n = hdr no"
    using sb_invD(3) [OF inv assms(1)] by (auto simp: snapshot_def)
  have inv': "sb_inv env D (insert (a, n) K) s" using sb_inv_node [OF inv n(1)] .
  show "\<exists>s' r. eff_bind (get_inode_state a) f s = Done (s', r) \<and>
    (case r of Inl e \<Rightarrow> sane e \<and> sb_inv env Ds Ks s' | Inr x \<Rightarrow> Q x s')"
  proof (cases "is_deleted n")
    case True
    with n(1) sb_inv_weaken [OF inv assms(2,3)] show ?thesis
      by (simp add: get_inode_state_def eff_bind_def sb_node_def)
  next
    case False
    then have "eff_bind (get_inode_state a) f s = f n s"
      using n(1) by (simp add: get_inode_state_def eff_bind_def sb_node_def)
    with hdr_eqD [OF n(2)] eff_okD [OF assms(4) [OF n(2) _ _ _ _ sb_inv_facts [OF inv' insertI1] False] inv'] show ?thesis by simp
  qed
qed

lemma bind_sb_get:
  assumes "Ds \<subseteq> D" "Ks \<subseteq> K"
    and "\<And>a n. in_ino n = ino \<Longrightarrow> node_facts n \<Longrightarrow>
      eff_ok (sb_inv env D (insert (a, n) K)) (f a) Q (keeps_err env Ds Ks)"
  shows "eff_ok (sb_inv env D K) (eff_bind (sb_get env ino) f) Q (keeps_err env Ds Ks)"
proof (rule eff_okI)
  fix s assume inv: "sb_inv env D K s"
  show "\<exists>s' r. eff_bind (sb_get env ino) f s = Done (s', r) \<and>
    (case r of Inl e \<Rightarrow> sane e \<and> sb_inv env Ds Ks s' | Inr x \<Rightarrow> Q x s')"
  proof (cases "sb_inodes s ino")
    case None
    with sb_inv_weaken [OF inv assms(1,2)] show ?thesis by (simp add: sb_get_def eff_bind_def)
  next
    case (Some e)
    obtain a c where e: "e = (a, c)" by (cases e)
    with Some obtain n where n: "sb_arena s a = Some n" "in_ino n = ino"
      using sb_okD(5) [OF sb_invD(1) [OF inv]] by blast
    have inv': "sb_inv env D (insert (a, n) K) s" using sb_inv_node [OF inv n(1)] .
    have "verify_inode (env_crc env) (sb_prefix s) ino n = Inr ()"
      using sb_okD(2) [OF sb_invD(1) [OF inv] n(1)] n(2) by (simp add: verify_inode_def header_ok_def)
    with Some e n(1) have "eff_bind (sb_get env ino) f s = f a s"
      by (simp add: sb_get_def eff_bind_def sb_node_def)
    with eff_okD [OF assms(3) [OF n(2) sb_inv_facts [OF inv' insertI1]] inv'] show ?thesis by simp
  qed
qed

lemma bind_gets: "(\<And>x. eff_ok (sb_inv env D K) (f x) Q R) \<Longrightarrow> eff_ok (sb_inv env D K) (eff_bind (eff_gets g) f) Q R"
  by (auto simp: eff_ok_def eff_bind_def)

lemma bind_modify:
  assumes "\<And>s. sb_inv env D K s \<Longrightarrow> sb_inv env D K (g s)" and "eff_ok (sb_inv env D K) (f ()) Q R"
  shows "eff_ok (sb_inv env D K) (eff_bind (eff_modify g) f) Q R"
  using assms by (auto simp: eff_ok_def eff_bind_def)

lemma bind_return: "eff_ok P (f x) Q R \<Longrightarrow> eff_ok P (eff_bind (eff_return x) f) Q R"
  by (simp add: eff_ok_def eff_bind_def)

lemma bind_error: "eff_ok P (eff_error e) Q R \<Longrightarrow> eff_ok P (eff_bind (eff_error e) f) Q R"
  by (simp add: eff_ok_def eff_bind_def)

lemma node_name: "node_facts n \<Longrightarrow> \<exists>name. vk_name (in_key n) = Done name"
  by (auto simp: node_facts_def key_path_iff path_key_name)

lemma bind_name:
  assumes "node_facts n" and "\<And>name. vk_name (in_key n) = Done name \<Longrightarrow> eff_ok P (f name) Q R"
  shows "eff_ok P (eff_bind (eff_run (vk_name (in_key n))) f) Q R"
proof -
  obtain name where "vk_name (in_key n) = Done name" using node_name [OF assms(1)] ..
  with assms(2) show ?thesis by (simp add: eff_ok_def eff_bind_def)
qed

text \<open>Calls of the client return; what they return is arbitrary.\<close>

definition client_total :: "('m, 'c) sb_env \<Rightarrow> bool" where
  "client_total env \<longleftrightarrow> (\<forall>c b k dl mx d ps.
     (\<exists>x. oc_head_object (env_client env) c b k = Done x) \<and>
     (\<exists>x. oc_list_objects (env_client env) c b None dl mx k = Done x) \<and>
     (\<exists>x. oc_rename_object (env_client env) c b k d ps = Done x) \<and>
     (\<exists>x. oc_delete_object (env_client env) c b k = Done x))"

lemma sb_inv_client: "sb_inv env D K s \<Longrightarrow> sb_inv env D K (s\<lparr>sb_client := c\<rparr>)"
  by (rule sb_inv_same_arena, assumption) (use sb_okD(4-6) [OF sb_invD(1), of env D K s] in auto)

lemma bind_client_call:
  assumes "\<And>c. \<exists>x. g c = Done x" and "\<And>r. eff_ok (sb_inv env D K) (f r) Q R"
  shows "eff_ok (sb_inv env D K) (eff_bind (client_call g) f) Q R"
proof (rule eff_okI)
  fix s assume inv: "sb_inv env D K s"
  obtain c r where g: "g (sb_client s) = Done (c, r)" using assms(1) [of "sb_client s"] by auto
  have "eff_bind (client_call g) f s = f r (s\<lparr>sb_client := c\<rparr>)" by (simp add: eff_bind_def client_call_def g)
  with eff_okD [OF assms(2) [of r] sb_inv_client [OF inv]]
  show "\<exists>s' r. eff_bind (client_call g) f s = Done (s', r) \<and> (case r of Inl e \<Rightarrow> R e s' | Inr x \<Rightarrow> Q x s')"
    by simp
qed

subsection \<open>Writing\<close>

lemma set_state_keeps:
  assumes "(a, n) \<in> K"
    and "\<And>s. sb_inv env D K s \<Longrightarrow> kind_data_ok s n (is_kind_data (in_sync n)) \<Longrightarrow> kind_data_ok s n (is_kind_data st)"
    and "Ds \<subseteq> D" "Ks \<subseteq> K"
  shows "eff_ok (sb_inv env D K) (set_state a st) (\<lambda>_. sb_inv env Ds Ks) R"
proof (rule eff_okI)
  fix s assume inv: "sb_inv env D K s"
  then have "kind_data_ok s n (is_kind_data (in_sync n))" using sb_invD(3) [OF inv assms(1)] by (simp add: snapshot_def)
  from put_state_inv [OF inv assms(1) assms(2) [OF inv this]]
  have "sb_inv env Ds Ks (put_state a st s)" by (rule sb_inv_weaken) (use assms(3,4) in auto)
  then show "\<exists>s' r. set_state a st s = Done (s', r) \<and> (case r of Inl e \<Rightarrow> R e s' | Inr x \<Rightarrow> sb_inv env Ds Ks s')"
    by (simp add: set_state_def)
qed

lemma set_state_same:
  assumes "(a, n) \<in> K" "is_kind_data st = is_kind_data (in_sync n)" "Ds \<subseteq> D" "Ks \<subseteq> K"
  shows "eff_ok (sb_inv env D K) (set_state a st) (\<lambda>_. sb_inv env Ds Ks) R"
  by (rule set_state_keeps [OF assms(1)]) (use assms in auto)

lemma set_state_sub:
  assumes "(a, n) \<in> K" "is_kind_data (in_sync n) = DirectoryData ch w d" "is_kind_data st = DirectoryData ch' w' d'"
    "ch' \<subseteq>\<^sub>m ch" "Ds \<subseteq> D" "Ks \<subseteq> K"
  shows "eff_ok (sb_inv env D K) (set_state a st) (\<lambda>_. sb_inv env Ds Ks) R"
  by (rule set_state_keeps [OF assms(1)]) (use assms in \<open>auto simp: kind_data_ok_def map_le_def dom_def\<close>)

lemma set_state_child:
  assumes "(a, n) \<in> K" "is_kind_data (in_sync n) = DirectoryData ch w d"
    "is_kind_data st = DirectoryData (ch(name \<mapsto> b)) w' d'" "(b, m) \<in> K"
    "in_parent m = in_ino n" "valid_name name" "new_child (in_key n) name (in_kind m) = Inr (in_key m)"
    "Ds \<subseteq> D" "Ks \<subseteq> K"
  shows "eff_ok (sb_inv env D K) (set_state a st) (\<lambda>_. sb_inv env Ds Ks) R"
proof (rule set_state_keeps [OF assms(1)])
  fix s assume inv: "sb_inv env D K s" and kd: "kind_data_ok s n (is_kind_data (in_sync n))"
  obtain m' where "sb_arena s b = Some m'" "hdr m' = hdr m"
    using sb_invD(3) [OF inv assms(4)] by (auto simp: snapshot_def)
  with assms(5-7) have "child_ok s n name b" by (auto simp: child_ok_def dest: hdr_eqD)
  with kd show "kind_data_ok s n (is_kind_data st)"
    by (auto simp: kind_data_ok_def assms(2,3))
qed (use assms in auto)

lemma bind_keeps:
  assumes "eff_ok (sb_inv env D K) m (\<lambda>_. sb_inv env D K) R" and "\<And>x. eff_ok (sb_inv env D K) (f x) Q R"
  shows "eff_ok (sb_inv env D K) (eff_bind m f) Q R"
  using assms by (rule eff_ok_bind)

lemma bind_keeps':
  assumes "eff_ok (sb_inv env D K) m (\<lambda>_. sb_inv env D K) R" and "eff_ok (sb_inv env D K) n Q R"
  shows "eff_ok (sb_inv env D K) (eff_bind m (\<lambda>_. n)) Q R"
  using assms by (rule eff_ok_bind)

lemma error_keeps: "sane e \<Longrightarrow> Ds \<subseteq> D \<Longrightarrow> Ks \<subseteq> K \<Longrightarrow> eff_ok (sb_inv env D K) (eff_error e) Q (keeps_err env Ds Ks)"
  by (rule eff_ok_error) (auto elim: sb_inv_weaken)

lemma know_child:
  assumes "(a, n) \<in> K" and "is_kind_data (in_sync n) = DirectoryData ch w d" and "ch name = Some b"
    and "\<And>m. in_parent m = in_ino n \<Longrightarrow> valid_name name \<Longrightarrow> new_child (in_key n) name (in_kind m) = Inr (in_key m) \<Longrightarrow>
      eff_ok (sb_inv env D (insert (b, m) K)) M Q R"
  shows "eff_ok (sb_inv env D K) M Q R"
proof (rule eff_okI)
  fix s assume inv: "sb_inv env D K s"
  obtain m where m: "sb_inv env D (insert (b, m) K) s" "in_parent m = in_ino n" "valid_name name"
    "new_child (in_key n) name (in_kind m) = Inr (in_key m)"
    using sb_inv_child [OF inv assms(1-3)] .
  from eff_okD [OF assms(4) [OF m(2-4)] m(1)]
  show "\<exists>s' r. M s = Done (s', r) \<and> (case r of Inl e \<Rightarrow> R e s' | Inr x \<Rightarrow> Q x s')" .
qed

lemma know_weaken: "eff_ok (sb_inv env Ds Ks) M Q R \<Longrightarrow> Ds \<subseteq> D \<Longrightarrow> Ks \<subseteq> K \<Longrightarrow> eff_ok (sb_inv env D K) M Q R"
  by (erule eff_ok_weaken) (auto elim: sb_inv_weaken)

text \<open>A name is the last component of a child's key.\<close>

lemma new_child_name:
  assumes "\<exists>ns. key_path ns p" and "valid_name name" and "new_child p name kind = Inr k"
  shows "vk_name k = Done name" "vk_kind k = kind" "\<exists>ns. key_path ns k"
proof -
  from assms obtain ns where "key_path (ns @ [name]) k" using key_path.child by blast
  then obtain kd where k: "list_all valid_name (ns @ [name])" "k = path_key (ns @ [name]) kd"
    by (auto simp: key_path_iff simp del: path_key_snoc)
  show "vk_name k = Done name" using path_key_name [OF k(1), of kd] k(2) by simp
  show "vk_kind k = kind" using new_child_kind [OF assms(2,3)] .
  show "\<exists>ns. key_path ns k" using \<open>key_path (ns @ [name]) k\<close> by blast
qed

section \<open>Creating an inode\<close>

lemma bind_fresh:
  assumes "(p, pn) \<in> K" and "node_facts pn" and key: "new_child (in_key pn) name kind = Inr key" and "valid_name name"
    and st: "is_kind_data st = kind_data_default kind"
    and ok: "\<And>i n a. in_ino n = i \<Longrightarrow> in_parent n = in_ino pn \<Longrightarrow> in_key n = key \<Longrightarrow> in_kind n = kind \<Longrightarrow> in_sync n = st \<Longrightarrow>
      eff_ok (sb_inv env D (insert (a, n) K)) (f i n a) Q R"
  shows "eff_ok (sb_inv env D K) (eff_bind (eff_gets sb_next_ino) (\<lambda>i.
    eff_bind (eff_modify (\<lambda>sb. sb\<lparr>sb_next_ino := Suc (sb_next_ino sb)\<rparr>)) (\<lambda>_.
    eff_bind (eff_gets (\<lambda>sb. inode_new (env_crc env) i (in_ino pn) key (sb_prefix sb) st)) (\<lambda>n.
    eff_bind (alloc_inode n) (\<lambda>a. f i n a))))) Q R" (is "eff_ok _ ?m _ _")
proof (rule eff_okI)
  fix s assume inv: "sb_inv env D K s"
  let ?i = "sb_next_ino s" and ?a = "sb_next_address s"
  let ?n = "inode_new (env_crc env) ?i (in_ino pn) key (sb_prefix s) st"
  have dir: "in_kind pn = Directory" using key by (simp add: new_child_Inr_iff in_kind_def)
  have ks: "\<exists>ns. key_path ns (in_key pn)" using assms(2) by (simp add: node_facts_def)
  note child = new_child_name [OF ks assms(4) key]
  have hdr: "header_ok env s pn" using sb_inv_header [OF inv assms(1)] .
  have n: "in_ino ?n = ?i" "in_parent ?n = in_ino pn" "in_key ?n = key" "in_kind ?n = kind" "in_sync ?n = st"
    "in_checksum ?n = inode_checksum (env_crc env) ?i (sb_prefix s) (vk_key key)"
    using child(2) by (simp_all add: inode_new_def in_kind_def)
  obtain ns where ns: "key_path ns key" using child(3) ..
  have "sb_inv env D (insert (?a, ?n) K) (place_inode (Suc ?i) ?n s)"
    by (rule place_inode_inv [OF inv]) (use hdr dir n ns st in \<open>auto simp: header_ok_def\<close>)
  from eff_okD [OF ok [OF n(1-5)] this]
  show "\<exists>s' r. ?m s = Done (s', r) \<and> (case r of Inl e \<Rightarrow> R e s' | Inr x \<Rightarrow> Q x s')"
    by (simp add: eff_bind_def alloc_inode_def place_inode_def sb_prefix_def)
qed

definition created_ok ::
  "('m, 'c) sb_env \<Rightarrow> nat set \<Rightarrow> (nat \<times> inode) set \<Rightarrow> inode \<Rightarrow> string \<Rightarrow> inode_kind \<Rightarrow> nat \<Rightarrow> ('m, 'c) superblock \<Rightarrow> bool" where
  "created_ok env D K pn name kind a s \<longleftrightarrow>
     (\<exists>n. sb_inv env D (insert (a, n) K) s \<and> in_parent n = in_ino pn \<and> vk_name (in_key n) = Done name \<and> in_kind n = kind)"

lemma created_okI:
  assumes "sb_inv env D K' s" and "(a, n) \<in> K'" "K \<subseteq> K'" and "in_parent n = in_ino pn" "vk_name (in_key n) = Done name" "in_kind n = kind"
  shows "created_ok env D K pn name kind a s"
  using sb_inv_weaken [OF assms(1), of D "insert (a, n) K"] assms(2-) by (auto simp: created_ok_def)

text \<open>Entering the new cell into its directory.\<close>

lemma enter_child_keeps:
  assumes "(p, p') \<in> K'" "(a, n) \<in> K'" "K \<subseteq> K'" and kd: "is_kind_data (in_sync p') = DirectoryData ch w d"
    and "hdr p' = hdr pn" "node_facts p'" "in_parent n = in_ino p'" "valid_name name"
    and key: "new_child (in_key p') name kind = Inr (in_key n)" and "in_kind n = kind"
  shows "eff_ok (sb_inv env D K')
    (eff_bind (set_state p ((in_sync p')\<lparr>is_kind_data := DirectoryData (ch(name \<mapsto> a)) w' d\<rparr>)) (\<lambda>_. eff_return a))
    (created_ok env D K pn name kind) (keeps_err env D K)"
proof (rule eff_ok_bind)
  show "eff_ok (sb_inv env D K') (set_state p ((in_sync p')\<lparr>is_kind_data := DirectoryData (ch(name \<mapsto> a)) w' d\<rparr>))
    (\<lambda>_. sb_inv env D K') (keeps_err env D K)"
    by (rule set_state_child [OF assms(1) kd]) (use assms in auto)
  have "vk_name (in_key n) = Done name"
    using new_child_name(1) [OF _ assms(8) key] assms(6) by (simp add: node_facts_def)
  then show "eff_ok (sb_inv env D K') (eff_return a) (created_ok env D K pn name kind) (keeps_err env D K)"
    using assms hdr_eqD [OF assms(5)] by (intro eff_ok_return created_okI) auto
qed

lemma create_inode_locked_keeps:
  assumes "(p, pn) \<in> K" and "valid_name name" and "is_kind_data st = kind_data_default kind"
  shows "eff_ok (sb_inv env D K) (create_inode_locked env p name kind st is_new) (created_ok env D K pn name kind) (keeps_err env D K)"
  unfolding create_inode_locked_def
  apply (rule bind_node [OF assms(1)])
  apply (rule eff_ok_case_sum)
  subgoal by (rule error_keeps) auto
  subgoal for p' key
    apply (rule bind_fresh [OF insertI1 _ _ assms(2,3)], assumption, assumption)
    subgoal for i n a
      apply (rule eff_ok_case_kind)
      subgoal by (rule error_keeps) auto
      subgoal for ch w d
        apply (cases "ch name")
        subgoal by (simp only: option.case eff_flat Let_def, rule enter_child_keeps) (use assms(2) in auto)
        subgoal for b
          apply (rule know_child [where a = p and n = p' and b = b and name = name], blast, assumption, assumption)
          apply (simp only: option.case eff_flat Let_def)
          apply (rule bind_node [OF insertI1])
          subgoal by (rule enter_child_keeps) (use assms(2) in auto)
          done
        done
      done
    done
  done

section \<open>Lookup\<close>

definition looked_ok ::
  "('m, 'c) sb_env \<Rightarrow> nat set \<Rightarrow> (nat \<times> inode) set \<Rightarrow> nat \<Rightarrow> string \<Rightarrow> looked_up_inode \<Rightarrow> ('m, 'c) superblock \<Rightarrow> bool" where
  "looked_ok env D K i name l s \<longleftrightarrow>
     (\<exists>n. sb_inv env D (insert (li_inode l, n) K) s \<and> in_parent n = i \<and> vk_name (in_key n) = Done name)"

lemma looked_okI:
  assumes "sb_inv env D K' s" and "(li_inode l, n) \<in> K'" "K \<subseteq> K'" and "in_parent n = i" "vk_name (in_key n) = Done name"
  shows "looked_ok env D K i name l s"
  using sb_inv_weaken [OF assms(1), of D "insert (li_inode l, n) K"] assms(2-) by (auto simp: looked_ok_def)

lemma li_inode_looked_up [simp]: "li_inode (looked_up sb a st ws) = a"
  by (simp add: looked_up_def)

lemma child_name:
  assumes "node_facts pn" "valid_name name" "new_child (in_key pn) name kind = Inr k"
  shows "vk_name k = Done name"
  using new_child_name(1) [OF _ assms(2,3)] assms(1) by (simp add: node_facts_def)

lemma gets_looked:
  assumes "(a, n) \<in> K'" "K \<subseteq> K'" "in_parent n = i" "vk_name (in_key n) = Done name"
  shows "eff_ok (sb_inv env D K') (eff_gets (\<lambda>sb. looked_up sb a (st sb) (ws sb))) (looked_ok env D K i name) R"
  using assms by (intro eff_ok_gets looked_okI) auto

lemma try_get_state:
  assumes "(a, no) \<in> K"
    and "\<And>n. hdr n = hdr no \<Longrightarrow> in_ino n = in_ino no \<Longrightarrow> in_parent n = in_parent no \<Longrightarrow> in_key n = in_key no \<Longrightarrow>
      in_kind n = in_kind no \<Longrightarrow> node_facts n \<Longrightarrow> \<not> is_deleted n \<Longrightarrow> eff_ok (sb_inv env D (insert (a, n) K)) (f (Inr n)) Q R"
    and "\<And>e. sane e \<Longrightarrow> in_kind no = Directory \<Longrightarrow> eff_ok (sb_inv env D K) (f (Inl e)) Q R"
  shows "eff_ok (sb_inv env D K) (eff_bind (eff_try (get_inode_state a)) f) Q R"
proof (rule eff_okI)
  fix s assume inv: "sb_inv env D K s"
  then obtain n where n: "sb_arena s a = Some n" "hdr n = hdr no"
    using sb_invD(3) [OF inv assms(1)] by (auto simp: snapshot_def)
  have inv': "sb_inv env D (insert (a, n) K) s" using sb_inv_node [OF inv n(1)] .
  note facts = sb_inv_facts [OF inv' insertI1]
  show "\<exists>s' r. eff_bind (eff_try (get_inode_state a)) f s = Done (s', r) \<and> (case r of Inl e \<Rightarrow> R e s' | Inr x \<Rightarrow> Q x s')"
  proof (cases "is_deleted n")
    case True
    then have "in_kind no = Directory" using facts hdr_eqD [OF n(2)]
      by (cases "in_kind n") (auto simp: is_deleted_def node_facts_def split: kind_data.splits)
    with True n(1) eff_okD [OF assms(3) inv, of "InodeDoesNotExist (in_ino n)"] show ?thesis
      by (simp add: get_inode_state_def eff_bind_def eff_try_def sb_node_def)
  next
    case False
    with n(1) hdr_eqD [OF n(2)] eff_okD [OF assms(2) [OF n(2) _ _ _ _ facts False] inv'] show ?thesis
      by (simp add: get_inode_state_def eff_bind_def eff_try_def sb_node_def)
  qed
qed

definition cached_ok ::
  "('m, 'c) sb_env \<Rightarrow> nat set \<Rightarrow> (nat \<times> inode) set \<Rightarrow> nat \<Rightarrow> string \<Rightarrow> (inode_error + looked_up_inode) option \<Rightarrow>
     ('m, 'c) superblock \<Rightarrow> bool" where
  "cached_ok env D K i name r s = (case r of
     Some (Inr l) \<Rightarrow> looked_ok env D K i name l s
   | Some (Inl e) \<Rightarrow> sane e \<and> sb_inv env D K s
   | None \<Rightarrow> sb_inv env D K s)"

lemma cached_ok_simps [simp]:
  "cached_ok env D K i name None s = sb_inv env D K s"
  "cached_ok env D K i name (Some (Inl e)) s = (sane e \<and> sb_inv env D K s)"
  "cached_ok env D K i name (Some (Inr l)) s = looked_ok env D K i name l s"
  by (simp_all add: cached_ok_def)

lemma do_cache_lookup_keeps:
  assumes "(p, pn) \<in> K" and "in_kind pn = Directory"
  shows "eff_ok (sb_inv env D K) (do_cache_lookup env clk p name) (cached_ok env D K (in_ino pn) name) (keeps_err env D K)"
  unfolding do_cache_lookup_def
  apply (rule try_get_state [OF assms(1)])
  subgoal for p'
    apply (simp only: sum.case Let_def, rule eff_ok_case_kind)
    subgoal using assms(2) by (auto simp: node_facts_def)
    subgoal for ch w d
      apply (rule eff_ok_case_option)
      subgoal by (rule eff_ok_gets) (auto elim: sb_inv_weaken)
      subgoal for b
        apply (rule know_child [where a = p and n = p' and b = b and name = name], blast, assumption, assumption)
        subgoal for m
          apply (rule try_get_state [OF insertI1])
          subgoal for n
            apply (simp only: sum.case, rule eff_ok_pure_if)
            subgoal
              apply (rule eff_ok_gets)
              apply (simp only: cached_ok_simps)
              apply (rule looked_okI [where n = n], assumption)
              using child_name [of p' name] by auto
            subgoal by (rule eff_ok_gets) (auto elim: sb_inv_weaken)
            done
          subgoal by (simp only: sum.case) (rule eff_ok_return, auto elim: sb_inv_weaken)
          done
        done
      done
    done
  subgoal by (simp only: sum.case) (rule eff_ok_return, auto elim: sb_inv_weaken)
  done

lemma create_remote_keeps:
  assumes "(p, pn) \<in> K" and "valid_name name"
  shows "eff_ok (sb_inv env D K) (create_remote env p name remote) (looked_ok env D K (in_ino pn) name) (keeps_err env D K)"
  unfolding create_remote_def
  apply (rule eff_ok_bind [OF create_inode_locked_keeps [OF assms]])
  subgoal by (simp add: inode_state_new_def)
  subgoal by (rule eff_ok_gets) (auto simp: created_ok_def looked_ok_def)
  done

lemma try_update_fast_path_keeps:
  assumes "(p, pn) \<in> K" and "in_kind pn = Directory"
  shows "eff_ok (sb_inv env D K) (try_update_fast_path p name remote)
    (\<lambda>r s. case r of Some l \<Rightarrow> looked_ok env D K (in_ino pn) name l s | None \<Rightarrow> sb_inv env D K s) (keeps_err env D K)"
  unfolding try_update_fast_path_def
  apply (rule bind_get_state [OF assms(1) subset_refl subset_refl])
  apply (rule eff_ok_case_kind)
  subgoal using assms(2) by (auto simp: node_facts_def)
  subgoal for p' ch w d
    apply (cases remote; cases "ch name"; simp only: prod.case option.case)
    subgoal by (rule error_keeps) auto
    subgoal by (rule eff_ok_return) (auto elim: sb_inv_weaken)
    subgoal by (rule eff_ok_return) (auto elim: sb_inv_weaken)
    subgoal for rl b
      apply (rule know_child [where a = p and n = p' and b = b and name = name], blast, assumption, assumption)
      subgoal for m
        apply (rule bind_get_state [where Ks = K and Ds = D, OF insertI1], blast, blast)
        subgoal for n
          apply (simp only: Let_def, rule eff_ok_pure_if)
          subgoal
            apply (rule eff_ok_bind)
             apply (rule set_state_same [where n = n and Ks = "insert (b, n) K" and Ds = D], simp, simp, simp, blast)
            apply (rule eff_ok_gets)
            apply (simp only: option.case)
            apply (rule looked_okI [where n = n], assumption)
            using child_name [of p' name] by auto
          subgoal by (rule eff_ok_return) (auto elim: sb_inv_weaken)
          done
        done
      done
    done
  done

end
