(* ===== verification/Superblock_Lookups.thy ===== *)
theory Superblock_Lookups
  imports Superblock_Keeps
begin

text \<open>
  The lookup path keeps the invariant and returns an inode that is the child asked for.
\<close>

section \<open>More rules\<close>

lemma bind_gets_with:
  assumes "\<And>s. sb_inv env D K s \<Longrightarrow> F (g s)" and "\<And>x. F x \<Longrightarrow> eff_ok (sb_inv env D K) (f x) Q R"
  shows "eff_ok (sb_inv env D K) (eff_bind (eff_gets g) f) Q R"
  using assms by (auto simp: eff_ok_def eff_bind_def)

lemma modify_keeps:
  assumes "\<And>s. sb_inv env D K s \<Longrightarrow> sb_inv env D K (g s)" and "Ds \<subseteq> D" "Ks \<subseteq> K"
  shows "eff_ok (sb_inv env D K) (eff_modify g) (\<lambda>_. sb_inv env Ds Ks) R"
  using assms by (auto simp: eff_ok_def intro: sb_inv_weaken)

lemma sb_inv_same_maps:
  assumes "sb_inv env D K s" and "sb_arena s' = sb_arena s" "sb_next_address s' = sb_next_address s" "sb_s3_path s' = sb_s3_path s"
    "sb_next_ino s' = sb_next_ino s" "sb_inodes s' = sb_inodes s" "table_ok (sb_open_handles s')"
  shows "sb_inv env D K s'"
  using sb_inv_same_arena [OF assms(1-5) _ assms(7)] sb_okD(4,5) [OF sb_invD(1) [OF assms(1)]] assms(6) by metis

lemma sb_inv_table: "sb_inv env D K s \<Longrightarrow> table_ok (sb_open_handles s)"
  using sb_okD(6) [OF sb_invD(1)] .

lemma sb_inv_negative_cache: "sb_inv env D K s \<Longrightarrow> sb_inv env D K (s\<lparr>sb_negative_cache := x\<rparr>)"
  by (frule sb_inv_table, erule sb_inv_same_maps) simp_all

lemma sb_inv_handles: "sb_inv env D K s \<Longrightarrow> table_ok h \<Longrightarrow> sb_inv env D K (s\<lparr>sb_open_handles := h\<rparr>)"
  by (erule sb_inv_same_maps) simp_all

lemma sb_inv_rename_supported: "sb_inv env D K s \<Longrightarrow> sb_inv env D K (cache_rename b s)"
  by (frule sb_inv_table, erule sb_inv_same_maps) (simp_all add: cache_rename_def split: option.split)

lemma update_negative_cache_inv: "sb_inv env D K s \<Longrightarrow> sb_inv env D K (update_negative_cache env clk i name r s)"
  by (auto simp: update_negative_cache_def intro: sb_inv_negative_cache)

lemma increase_lookup_count_inv:
  assumes inv: "sb_inv env D K s" and "(a, n) \<in> K"
  shows "sb_inv env D K (increase_lookup_count a n s)"
proof (rule sb_inv_same_arena [OF inv])
  note ok = sb_okD [OF sb_invD(1) [OF inv]]
  obtain m where m: "sb_arena s a = Some m" "in_ino m = in_ino n"
    using sb_invD(3) [OF assms] by (auto simp: snapshot_def dest: hdr_eqD)
  show "\<forall>i b c. sb_inodes (increase_lookup_count a n s) i = Some (b, c) \<longrightarrow>
      0 < c \<and> (\<exists>n. sb_arena s b = Some n \<and> in_ino n = i)"
  proof (intro allI impI)
    fix i b c assume "sb_inodes (increase_lookup_count a n s) i = Some (b, c)"
    then show "0 < c \<and> (\<exists>n. sb_arena s b = Some n \<and> in_ino n = i)"
      using ok(4,5) m by (fastforce simp: increase_lookup_count_def split: if_splits option.splits)
  qed
  show "table_ok (sb_open_handles (increase_lookup_count a n s))"
    using sb_inv_table [OF inv] by (simp add: increase_lookup_count_def)
qed (simp_all add: increase_lookup_count_def)

lemma remember_keeps:
  assumes "(a, no) \<in> K"
  shows "eff_ok (sb_inv env D K) (remember a) (\<lambda>_. sb_inv env D K) R"
  unfolding remember_def
  apply (rule bind_node [OF assms])
  apply (rule modify_keeps)
    apply (rule increase_lookup_count_inv, assumption, blast)
  by auto

lemma into_lookup_keeps:
  assumes "(li_inode l, no) \<in> K"
  shows "eff_ok (sb_inv env D K) (into_lookup l) (\<lambda>_. sb_inv env D K) R"
  unfolding into_lookup_def
  by (rule bind_node [OF assms], rule eff_ok_return) (auto elim: sb_inv_weaken)

section \<open>Updating from the remote\<close>

lemma remove_writing_child_keeps:
  assumes "(p, pn) \<in> K" and "in_kind pn = Directory"
  shows "eff_ok (sb_inv env D K) (remove_writing_child p i) (\<lambda>_. sb_inv env D K) R"
  unfolding remove_writing_child_def
  apply (rule bind_node [OF assms(1)])
  apply (rule eff_ok_case_kind)
  subgoal using assms(2) by (auto simp: node_facts_def)
  subgoal for p' ch w d by (rule set_state_sub [where n = p' and ch = ch and w = w and d = d]) auto
  done

lemma update_slow_path_keeps:
  assumes "(p, pn) \<in> K" and "in_kind pn = Directory" and "valid_name name"
  shows "eff_ok (sb_inv env D K) (update_slow_path env clk p name remote) (looked_ok env D K (in_ino pn) name) (keeps_err env D K)"
  unfolding update_slow_path_def
  apply (rule bind_get_state [OF assms(1) subset_refl subset_refl])
  apply (rule eff_ok_case_kind)
  subgoal using assms(2) by (auto simp: node_facts_def)
  subgoal for p' ch w d
    apply (cases remote; cases "ch name"; simp only: prod.case option.case)
    subgoal by (rule error_keeps) auto
    subgoal for b
      apply (rule know_child [where a = p and n = p' and b = b and name = name], blast, assumption, assumption)
      subgoal for m
        apply (rule bind_node [OF insertI1])
        apply (rule eff_ok_pure_if)
        subgoal for n
          apply (rule bind_get_state [where Ks = K and Ds = D, OF insertI1], blast, blast)
          apply (rule bind_gets)
          subgoal for n' st
            apply (rule bind_keeps')
             apply (rule set_state_same [where n = n'], blast, simp, blast, blast)
            apply (rule gets_looked [where n = n'], blast, blast)
            using child_name [of p' name] by auto
          done
        subgoal for n
          apply (rule bind_keeps')
           apply (rule set_state_sub [where n = p' and ch = ch and w = w and d = d], blast, assumption, simp, simp add: map_le_def, blast, blast)
          apply (rule error_keeps) by auto
        done
      done
    subgoal for rl
      by (rule know_weaken [OF _ subset_refl], rule create_remote_keeps) (use assms in auto)
    subgoal for rl b
      apply (rule know_child [where a = p and n = p' and b = b and name = name], blast, assumption, assumption)
      subgoal for m
        apply (rule bind_get_state [where Ks = K and Ds = D, OF insertI1], blast, blast)
        subgoal for n
          apply (simp only: Let_def, rule eff_ok_pure_if)
          subgoal
            apply (rule gets_looked [where n = n], blast, blast)
            using child_name [of p' name] by auto
          apply (rule eff_ok_pure_if)
          subgoal
            apply (rule bind_keeps')
             apply (rule set_state_same [where n = n], blast, simp, blast, blast)
            apply (simp only: eff_flat)
            apply (rule eff_ok_pure_if)
            subgoal
              apply (rule bind_keeps')
               apply (rule remove_writing_child_keeps [where pn = p'], blast)
              using assms(2) apply simp
              apply (rule gets_looked [where n = n], blast, blast)
              using child_name [of p' name] by auto
            subgoal
              apply (rule gets_looked [where n = n], blast, blast)
              using child_name [of p' name] by auto
            done
          subgoal by (rule know_weaken [OF _ subset_refl], rule create_remote_keeps) (use assms in auto)
          done
        done
      done
    done
  done

section \<open>Lookup by name\<close>

text \<open>The number of a directory.\<close>

lemma sb_inv_dir:
  assumes "sb_inv env D K s" and "(a, n) \<in> K" and "in_ino n \<in> D"
  shows "in_kind n = Directory"
proof -
  obtain m where m: "sb_arena s a = Some m" "hdr m = hdr n" using sb_invD(3) [OF assms(1,2)] by (auto simp: snapshot_def)
  with sb_invD(2) [OF assms(1,3)] hdr_eqD [OF m(2)] show ?thesis by (auto simp: vfs_dir_def)
qed

lemma know_dir:
  assumes "(a, n) \<in> K" and "in_ino n \<in> D" and "in_kind n = Directory \<Longrightarrow> eff_ok (sb_inv env D K) M Q R"
  shows "eff_ok (sb_inv env D K) M Q R"
  by (rule eff_ok_assume [where b = "in_kind n = Directory"]) (use assms sb_inv_dir in blast)+

lemma eff_bind_return_right: "eff_bind m eff_return = m"
proof
  fix s
  show "eff_bind m eff_return s = m s"
    by (cases "m s") (auto simp: eff_bind_def split: sum.split)
qed

lemma sb_get_ok:
  "eff_ok (sb_inv env D K) (sb_get env i) (\<lambda>a s. \<exists>n. in_ino n = i \<and> sb_inv env D (insert (a, n) K) s) (keeps_err env D K)"
  by (subst eff_bind_return_right [symmetric], rule bind_sb_get [OF subset_refl subset_refl], rule eff_ok_return) auto

lemma cache_lookup_keeps:
  assumes "i \<in> D"
  shows "eff_ok (sb_inv env D K) (cache_lookup env clk i name) (cached_ok env D K i name) (keeps_err env D K)"
  unfolding cache_lookup_def
  apply (rule eff_ok_bind [where Q = "\<lambda>r s. case r of Inl e \<Rightarrow> sb_inv env D K s
      | Inr a \<Rightarrow> \<exists>n. in_ino n = i \<and> sb_inv env D (insert (a, n) K) s"])
   apply (rule eff_ok_try, simp)
   apply (rule eff_ok_weaken [OF sb_get_ok], assumption, blast, blast)
  subgoal for r
    apply (cases r; simp only: sum.case)
    subgoal by (rule eff_ok_return) simp
    subgoal for a
      apply (rule eff_ok_ex, rule eff_ok_and)
      subgoal for n
        apply (rule know_dir [OF insertI1])
        subgoal using assms by simp
        subgoal
          apply (rule eff_ok_weaken [OF do_cache_lookup_keeps [OF insertI1]], assumption, assumption)
           apply (auto simp: cached_ok_def looked_ok_def elim: sb_inv_weaken split: option.splits sum.splits)
          done
        done
      done
    done
  done

lemma bind_error_value:
  assumes "\<And>s. sb_inv env D K s \<Longrightarrow> sane (e s)"
  shows "eff_ok (sb_inv env D K) (eff_bind (eff_gets e) eff_error) Q (keeps_err env D K)"
  using assms by (auto simp: eff_ok_def eff_bind_def)

lemma sane_client_error [simp]: "sane (client_error_of s t k)"
  by (simp add: client_error_of_def)

lemma remote_file_lookup_keeps:
  assumes "client_total env"
  shows "eff_ok (sb_inv env D K) (remote_file_lookup env clk k) (\<lambda>_. sb_inv env D K) (keeps_err env D K)"
  unfolding remote_file_lookup_def
  apply (rule bind_gets, rule bind_client_call)
  subgoal using assms by (simp add: client_total_def)
  subgoal for b r
    by (cases r) (auto intro: eff_ok_gets eff_ok_return bind_error_value split: client_error.split head_object_error.split)
  done

lemma remote_dir_lookup_keeps:
  assumes "client_total env"
  shows "eff_ok (sb_inv env D K) (remote_dir_lookup env k d) (\<lambda>_. sb_inv env D K) (keeps_err env D K)"
  unfolding remote_dir_lookup_def
  apply (rule bind_gets, rule bind_client_call)
  subgoal using assms by (simp add: client_total_def)
  subgoal for b r
    by (cases r) (auto intro: eff_ok_gets eff_ok_return bind_error_value)
  done

lemma sb_remote_lookup_keeps:
  assumes "client_total env"
  shows "eff_ok (sb_inv env D K) (sb_remote_lookup env clk h i name) (\<lambda>_. sb_inv env D K) (keeps_err env D K)"
  unfolding sb_remote_lookup_def
  apply (rule bind_sb_get [OF subset_refl subset_refl])
  apply (rule bind_node [OF insertI1])
  apply (rule bind_gets)
  apply (rule eff_ok_case_sum)
  subgoal by (rule error_keeps) auto
  apply (rule know_weaken [of _ D K])
    apply (simp only: Let_def, rule eff_ok_pure_if)
  subgoal
    apply (rule bind_keeps [OF remote_file_lookup_keeps [OF assms]])
    apply (rule bind_keeps [OF remote_dir_lookup_keeps [OF assms]])
    by (simp add: remote_directory_def remote_file_def eff_ok_gets)
  subgoal
    apply (rule bind_keeps [OF remote_dir_lookup_keeps [OF assms]])
    apply (rule eff_ok_pure_if)
    subgoal by (simp add: remote_directory_def eff_ok_gets)
    apply (rule bind_keeps [OF remote_file_lookup_keeps [OF assms]])
    by (simp add: remote_file_def eff_ok_gets)
   apply auto
  done

lemma update_from_remote_keeps:
  assumes "valid_name name"
  shows "eff_ok (sb_inv env D K) (update_from_remote env clk i name remote) (looked_ok env D K i name) (keeps_err env D K)"
  unfolding update_from_remote_def
  apply (rule bind_sb_get [OF subset_refl subset_refl])
  apply (rule bind_node [OF insertI1])
  apply (rule eff_ok_pure_if)
  subgoal by (rule error_keeps) auto
  subgoal for a n p
    apply (rule bind_modify [OF update_negative_cache_inv], assumption)
    apply (rule know_weaken [of _ D "insert (a, p) K"])
      apply (rule eff_ok_weaken [where P = "sb_inv env D (insert (a, p) K)" and Q = "looked_ok env D (insert (a, p) K) i name"
         and R = "keeps_err env D (insert (a, p) K)"])
         apply (rule eff_ok_bind [OF try_update_fast_path_keeps [where pn = p]])
           apply blast
          apply simp
         apply (rule eff_ok_case_option)
          apply (simp only: option.case)
          apply (rule eff_ok_weaken [OF update_slow_path_keeps [where pn = p, OF insertI1 _ assms]], simp, assumption)
           apply simp
          apply blast
         apply (simp only: option.case)
         apply (rule eff_ok_return)
         apply simp
    by (auto simp: looked_ok_def elim: sb_inv_weaken)
  done

lemma verify_child_keeps:
  assumes "(a, no) \<in> K" and "in_parent no = i" and "vk_name (in_key no) = Done name"
  shows "eff_ok (sb_inv env D K) (verify_child env i name a) (\<lambda>_. sb_inv env D K) R"
proof (rule eff_okI)
  fix s assume inv: "sb_inv env D K s"
  then obtain n where n: "sb_arena s a = Some n" "hdr n = hdr no"
    using sb_invD(3) [OF inv assms(1)] by (auto simp: snapshot_def)
  have "in_checksum n = inode_checksum (env_crc env) (in_ino n) (sb_prefix s) (vk_key (in_key n))"
    using sb_okD(2) [OF sb_invD(1) [OF inv] n(1)] by (simp add: header_ok_def)
  with assms(2,3) hdr_eqD [OF n(2)] n(1) inv
  show "\<exists>s' r. verify_child env i name a s = Done (s', r) \<and> (case r of Inl e \<Rightarrow> R e s' | Inr x \<Rightarrow> sb_inv env D K s')"
    by (simp add: verify_child_def eff_bind_def sb_node_def)
qed

lemma bind_parse_name:
  assumes "\<And>n. n = name \<Longrightarrow> valid_name name \<Longrightarrow> eff_ok (sb_inv env D K) (f n) Q (keeps_err env D K)"
  shows "eff_ok (sb_inv env D K) (eff_bind (parse_name env name) f) Q (keeps_err env D K)"
  using assms unfolding parse_name_def
  by (auto simp: parse_os_str_def parse_str_eq name_parsed_def eff_ok_def eff_bind_def)

lemma know_looked:
  assumes "\<And>n. in_parent n = i \<Longrightarrow> vk_name (in_key n) = Done name \<Longrightarrow> node_facts n \<Longrightarrow>
    eff_ok (sb_inv env D (insert (li_inode l, n) K)) M Q R"
  shows "eff_ok (looked_ok env D K i name l) M Q R"
proof (rule eff_okI)
  fix s assume "looked_ok env D K i name l s"
  then obtain n where n: "sb_inv env D (insert (li_inode l, n) K) s" "in_parent n = i" "vk_name (in_key n) = Done name"
    by (auto simp: looked_ok_def)
  from eff_okD [OF assms [OF n(2,3) sb_inv_facts [OF n(1) insertI1]] n(1)]
  show "\<exists>s' r. M s = Done (s', r) \<and> (case r of Inl e \<Rightarrow> R e s' | Inr x \<Rightarrow> Q x s')" .
qed

lemma lookup_by_name_keeps:
  assumes "client_total env" and "i \<in> D"
  shows "eff_ok (sb_inv env D K) (lookup_by_name env clk h i name allow) (looked_ok env D K i name) (keeps_err env D K)"
  unfolding lookup_by_name_def
  apply (rule bind_parse_name)
  apply (rule eff_ok_bind [where Q = "cached_ok env D K i name"])
   apply (rule eff_ok_pure_if)
    apply (simp only:, rule cache_lookup_keeps [OF assms(2)])
   apply (rule eff_ok_return, simp)
  apply (rule eff_ok_bind [where Q = "looked_ok env D K i name"])
  subgoal for n r
    apply (cases r; simp only: option.case)
     apply (rule eff_ok_bind [where Q = "\<lambda>_. sb_inv env D K"])
      apply (rule eff_ok_weaken [OF sb_remote_lookup_keeps [OF assms(1)]]; simp)
     apply (rule update_from_remote_keeps, assumption)
    apply (rule eff_ok_lift; simp)
    done
  subgoal for n r l
    apply (rule know_looked)
    apply (rule bind_keeps' [OF verify_child_keeps [OF insertI1]], assumption, simp)
    by (rule eff_ok_return) (auto simp: looked_ok_def)
  done

end
