(* ===== verification/Superblock_Safe.thy ===== *)
theory Superblock_Safe
  imports Superblock_Lookups
begin

text \<open>
  The operations of the superblock on attributes, handles, writes and names keep the invariant, end without a
  panic and never report corrupted metadata.
\<close>

section \<open>Rules\<close>

text \<open>Post-condition of an operation that keeps what is known.\<close>

abbreviation keeps :: "('m, 'c) sb_env \<Rightarrow> nat set \<Rightarrow> (nat \<times> inode) set \<Rightarrow> ('m, 'c, 'a) sb_op \<Rightarrow> bool" where
  "keeps env D K m \<equiv> eff_ok (sb_inv env D K) m (\<lambda>_. sb_inv env D K) (keeps_err env D K)"

lemma keeps_more: "keeps env D' K' m \<Longrightarrow> D' \<subseteq> D \<Longrightarrow> K' \<subseteq> K \<Longrightarrow> Ds \<subseteq> D' \<Longrightarrow> Ks \<subseteq> K' \<Longrightarrow>
  eff_ok (sb_inv env D K) m (\<lambda>_. sb_inv env Ds Ks) (keeps_err env Ds Ks)"
  by (erule eff_ok_weaken) (auto elim: sb_inv_weaken)

lemma bind_more:
  assumes "keeps env D K m" and "Ds \<subseteq> D" "Ks \<subseteq> K" and "\<And>x. eff_ok (sb_inv env D K) (f x) Q (keeps_err env Ds Ks)"
  shows "eff_ok (sb_inv env D K) (eff_bind m f) Q (keeps_err env Ds Ks)"
  apply (rule eff_ok_bind [where Q = "\<lambda>_. sb_inv env D K"])
   apply (rule eff_ok_weaken [OF assms(1)], assumption, assumption)
  using assms(2-) by (auto elim: sb_inv_weaken)

lemma return_keeps: "Ds \<subseteq> D \<Longrightarrow> Ks \<subseteq> K \<Longrightarrow> eff_ok (sb_inv env D K) (eff_return x) (\<lambda>_. sb_inv env Ds Ks) R"
  by (rule eff_ok_return) (auto elim: sb_inv_weaken)

lemma gets_keeps: "Ds \<subseteq> D \<Longrightarrow> Ks \<subseteq> K \<Longrightarrow> eff_ok (sb_inv env D K) (eff_gets g) (\<lambda>_. sb_inv env Ds Ks) R"
  by (rule eff_ok_gets) (auto elim: sb_inv_weaken)

lemma error_value_keeps:
  assumes "\<And>s. sane (e s)" "Ds \<subseteq> D" "Ks \<subseteq> K"
  shows "eff_ok (sb_inv env D K) (eff_bind (eff_gets e) eff_error) Q (keeps_err env Ds Ks)"
  using assms by (auto simp: eff_ok_def eff_bind_def elim: sb_inv_weaken)

lemma handles_keep:
  assumes "\<And>h. table_ok h \<Longrightarrow> table_ok (g h)" and "Ds \<subseteq> D" "Ks \<subseteq> K"
  shows "eff_ok (sb_inv env D K) (eff_modify (\<lambda>sb. sb\<lparr>sb_open_handles := g (sb_open_handles sb)\<rparr>)) (\<lambda>_. sb_inv env Ds Ks) R"
  apply (rule modify_keeps [OF _ assms(2,3)])
  apply (frule sb_inv_table, drule assms(1), erule sb_inv_handles)
  by assumption

text \<open>Reading the handle table and storing an updated one is one locked step.\<close>

lemma bind_handles:
  assumes "\<And>h. table_ok h \<Longrightarrow> table_ok (fst (g h))" and "\<And>y. eff_ok (sb_inv env D K) (f y) Q R"
  shows "eff_ok (sb_inv env D K) (eff_bind (eff_gets (\<lambda>sb. g (sb_open_handles sb))) (\<lambda>(h, y).
    eff_bind (eff_modify (\<lambda>sb. sb\<lparr>sb_open_handles := h\<rparr>)) (\<lambda>_. f y))) Q R"
proof (rule eff_okI)
  fix s assume inv: "sb_inv env D K s"
  obtain h y where g: "g (sb_open_handles s) = (h, y)" by fastforce
  with assms(1) [OF sb_inv_table [OF inv]] have "table_ok h" by simp
  from eff_okD [OF assms(2) [of y] sb_inv_handles [OF inv this]]
  show "\<exists>s' r. eff_bind (eff_gets (\<lambda>sb. g (sb_open_handles sb))) (\<lambda>(h, y).
      eff_bind (eff_modify (\<lambda>sb. sb\<lparr>sb_open_handles := h\<rparr>)) (\<lambda>_. f y)) s = Done (s', r) \<and>
    (case r of Inl e \<Rightarrow> R e s' | Inr x \<Rightarrow> Q x s')"
    by (simp add: eff_bind_def g)
qed

lemma table_ok_ops:
  assumes "table_ok h"
  shows "table_ok (fst (try_add_reader h i fh))" "table_ok (deactivate_reader h i fh)" "table_ok (fst (try_activate_reader h i fh))"
    "table_ok (remove_reader h i fh)" "table_ok (fst (set_writer h i fh))" "table_ok (fst (try_activate_writer h i fh))"
    "table_ok (fst (try_deactivate_writer h i fh))" "table_ok (fst (try_remove_writer h i fh))" "table_ok (fst (remove_inode h i))"
  using table_op_ok [OF assms, of "OpenReader fh" i] table_op_ok [OF assms, of "FlushReader fh" i]
    table_op_ok [OF assms, of "ResumeReader fh" i] table_op_ok [OF assms, of "CloseReader fh" i]
    table_op_ok [OF assms, of "OpenWriter fh" i] table_op_ok [OF assms, of "ResumeWriter fh" i]
    table_op_ok [OF assms, of "FlushWriter fh" i] table_op_ok [OF assms, of "CloseWriter fh" i]
    table_op_ok [OF assms, of ForgetInode i]
  by (simp_all add: case_prod_beta)

lemma bind_lookup:
  assumes "client_total env" and "i \<in> D" and "Ds \<subseteq> D" "Ks \<subseteq> K"
    and "\<And>l n. in_parent n = i \<Longrightarrow> vk_name (in_key n) = Done name \<Longrightarrow> node_facts n \<Longrightarrow>
      eff_ok (sb_inv env D (insert (li_inode l, n) K)) (f l) Q (keeps_err env Ds Ks)"
  shows "eff_ok (sb_inv env D K) (eff_bind (lookup_by_name env clk h i name allow) f) Q (keeps_err env Ds Ks)"
proof (rule eff_ok_bind)
  show "eff_ok (sb_inv env D K) (lookup_by_name env clk h i name allow) (looked_ok env D K i name) (keeps_err env Ds Ks)"
    by (rule eff_ok_weaken [OF lookup_by_name_keeps [OF assms(1,2)]]) (use assms(3,4) in \<open>auto elim: sb_inv_weaken\<close>)
  show "eff_ok (looked_ok env D K i name l) (f l) Q (keeps_err env Ds Ks)" for l
    by (rule know_looked) (rule assms(5))
qed

lemma know_parent:
  assumes "(a, n) \<in> K" and "eff_ok (sb_inv env (insert (in_parent n) D) K) M Q R"
  shows "eff_ok (sb_inv env D K) M Q R"
  using assms(2) by (rule eff_ok_weaken) (use sb_inv_parent [OF _ assms(1)] in auto)

section \<open>Attributes\<close>

lemma getattr_with_inode_keeps:
  assumes "client_total env"
  shows "eff_ok (sb_inv env D K) (getattr_with_inode env clk h i force)
    (\<lambda>l s. \<exists>n. in_ino n = i \<and> node_facts n \<and> sb_inv env D (insert (li_inode l, n) K) s) (keeps_err env D K)"
  unfolding getattr_with_inode_def
  apply (rule bind_sb_get [OF subset_refl subset_refl])
  apply (rule bind_get_state [OF insertI1], blast, blast)
  subgoal for a no n
    apply (rule eff_ok_bind [where Q = "\<lambda>r s. sb_inv env D (insert (a, n) K) s \<and> (case r of None \<Rightarrow> True | Some l \<Rightarrow> li_inode l = a)"])
    subgoal
      apply (rule eff_ok_pure_if)
      subgoal
        apply (rule bind_gets)
        apply (rule bind_keeps')
         apply (rule set_state_same [where n = n], blast, simp, blast, blast)
        apply (rule eff_ok_pure_if)
        subgoal by (rule eff_ok_gets) (auto elim: sb_inv_weaken)
        subgoal by (rule eff_ok_return) (auto elim: sb_inv_weaken)
        done
      subgoal by (rule eff_ok_return) (auto elim: sb_inv_weaken)
      done
    subgoal for r
      apply (cases r; simp only: option.case simp_thms)
      subgoal
        apply (rule bind_name, assumption)
        subgoal for name
          apply (rule know_parent [OF insertI1])
          apply (rule bind_lookup [OF assms], simp, blast, blast)
          apply (rule bind_node [OF insertI1])
          apply (rule eff_ok_pure_if)
           apply (rule error_value_keeps, simp, blast, blast)
          apply (rule eff_ok_return)
          subgoal for l m m' s
            apply (rule exI [of _ m'], simp, erule sb_inv_weaken) by auto
          done
        done
      subgoal for l
        by (rule eff_ok_return, rule exI [of _ n]) (auto elim: sb_inv_weaken)
      done
    done
  done

lemma know_inode:
  assumes "\<And>n. in_ino n = i \<Longrightarrow> node_facts n \<Longrightarrow> eff_ok (sb_inv env D (insert (a, n) K)) M Q R"
  shows "eff_ok (\<lambda>s. \<exists>n. in_ino n = i \<and> node_facts n \<and> sb_inv env D (insert (a, n) K) s) M Q R"
  using assms by (force simp: eff_ok_def)

lemma sb_lookup_keeps:
  assumes "client_total env" and "i \<in> D"
  shows "keeps env D K (sb_lookup env clk h i name)"
  unfolding sb_lookup_def
  apply (rule bind_gets)
  apply (rule bind_lookup [OF assms subset_refl subset_refl])
  apply (rule bind_keeps' [OF remember_keeps [OF insertI1]])
  apply (rule eff_ok_weaken [OF into_lookup_keeps [OF insertI1]])
  by (auto elim: sb_inv_weaken)

lemma sb_getattr_keeps:
  assumes "client_total env"
  shows "keeps env D K (sb_getattr env clk h i force)"
  unfolding sb_getattr_def
  apply (rule eff_ok_bind [OF getattr_with_inode_keeps [OF assms]])
  apply (rule know_inode)
  apply (rule eff_ok_weaken [OF into_lookup_keeps [OF insertI1]])
  by (auto elim: sb_inv_weaken)

lemma sb_setattr_keeps: "keeps env D K (sb_setattr env clk i atime mtime)"
  unfolding sb_setattr_def
  apply (rule bind_sb_get [OF subset_refl subset_refl])
  apply (rule bind_get_state [OF insertI1], blast, blast)
  apply (rule eff_ok_pure_if)
  subgoal by (rule error_keeps) auto
  subgoal for a no n
    apply (rule bind_gets, simp only: Let_def)
    apply (rule bind_keeps')
     apply (rule set_state_same [where n = n], blast, simp, blast, blast)
    by (rule gets_keeps) auto
  done

section \<open>Handles\<close>

lemma start_reading_keeps:
  assumes "(a, no) \<in> K"
  shows "keeps env D K (start_reading a fh)"
  unfolding start_reading_def
  apply (rule bind_get_state [OF assms subset_refl subset_refl])
  apply (rule eff_ok_pure_if)
  subgoal by (rule error_keeps) auto
  subgoal for n
    apply (rule bind_handles [OF table_ok_ops(1)], assumption)
    apply (rule eff_ok_pure_if)
    subgoal by (rule error_keeps) auto
    apply (rule bind_keeps')
     apply (rule eff_ok_pure_if)
      apply (rule set_state_same [where n = n], blast, simp, blast, blast)
     apply (rule return_keeps, blast, blast)
    by (rule return_keeps) auto
  done

lemma setup_inode_for_writing_keeps:
  assumes "(a, n) \<in> K"
  shows "keeps env D K (setup_inode_for_writing a n fh)"
  unfolding setup_inode_for_writing_def
  apply (rule bind_handles [OF table_ok_ops(5)], assumption)
  subgoal for r
    apply (cases r; simp only: sum.case)
    subgoal for e by (cases e; simp only: set_writer_error.case; rule error_keeps) auto
    subgoal by (rule set_state_same [OF assms]) auto
    done
  done

lemma truncate_stat_keeps:
  assumes "(a, no) \<in> K"
  shows "keeps env D K (truncate_stat a)"
  unfolding truncate_stat_def
  apply (rule bind_node [OF assms])
  subgoal for n by (rule set_state_same [where n = n]) auto
  done

lemma start_writing_keeps:
  assumes "(a, no) \<in> K"
  shows "keeps env D K (start_writing a mode tr fh)"
  unfolding start_writing_def
  apply (rule bind_get_state [OF assms subset_refl subset_refl])
  subgoal for n
  proof -
    let ?K = "insert (a, n) K"
    have fresh: "eff_ok (sb_inv env D ?K) (eff_bind (setup_inode_for_writing a n fh) (\<lambda>_.
        eff_bind (if b then truncate_stat a else eff_return ()) (\<lambda>_. eff_return x))) (\<lambda>_. sb_inv env D K) (keeps_err env D K)"
      for b and x :: "nat option"
      apply (rule bind_more [OF setup_inode_for_writing_keeps [OF insertI1]], blast, blast)
      apply (rule bind_more)
         apply (rule eff_ok_pure_if, rule truncate_stat_keeps [OF insertI1], rule return_keeps, blast, blast, blast, blast)
      by (rule return_keeps) auto
    have err: "eff_ok (sb_inv env D ?K) (eff_error e) (\<lambda>_. sb_inv env D K) (keeps_err env D K)" if "sane e" for e
      by (rule error_keeps [OF that]) auto
    show ?thesis
      using fresh [of True None] fresh [of tr "is_pending_upload_hook (in_sync n)"]
        err [of "InodeNotWritable (inode_err n)"] err [of "InodeAlreadyWriting (inode_err n)"]
      by (cases "is_write_status (in_sync n)"; cases "is_inode_writable mode tr"; simp only: write_status.case if_True sane_simps if_False simp_thms)
  qed
  done

lemma inc_file_size_keeps: "keeps env D K (inc_file_size env i len)"
  unfolding inc_file_size_def
  apply (rule bind_sb_get [OF subset_refl subset_refl])
  apply (rule bind_get_state [OF insertI1], blast, blast)
  apply (rule eff_ok_pure_if)
  subgoal by (rule error_keeps) auto
  subgoal for a no n
    apply (simp only: Let_def)
    apply (rule bind_keeps')
     apply (rule set_state_same [where n = n], blast, simp, blast, blast)
    by (rule return_keeps) auto
  done

lemma flush_reader_keeps: "keeps env D K (flush_reader env i fh)"
  unfolding flush_reader_def
  apply (rule bind_sb_get [OF subset_refl subset_refl])
  apply (rule bind_get_state [OF insertI1], blast, blast)
  by (rule handles_keep) (auto intro: table_ok_ops)

lemma finish_reading_keeps: "keeps env D K (finish_reading env i fh)"
  unfolding finish_reading_def
  apply (rule bind_sb_get [OF subset_refl subset_refl])
  apply (rule bind_get_state [OF insertI1], blast, blast)
  by (rule handles_keep) (auto intro: table_ok_ops)

lemma flush_writer_keeps: "keeps env D K (flush_writer env i fh hook)"
  unfolding flush_writer_def
  apply (rule bind_sb_get [OF subset_refl subset_refl])
  apply (rule bind_get_state [OF insertI1], blast, blast)
  apply (rule eff_ok_pure_if)
  subgoal for a no n
    apply (rule bind_handles [OF table_ok_ops(7)], assumption)
    apply (rule eff_ok_pure_if)
     apply (simp only: Let_def)
     apply (rule bind_keeps')
      apply (rule set_state_same [where n = n], blast, simp, blast, blast)
     apply (rule return_keeps, blast, blast)
    by (rule return_keeps) auto
  subgoal by (rule return_keeps) auto
  done

lemma try_reactivate_handle_keeps: "keeps env D K (try_reactivate_handle env i fh mode)"
  unfolding try_reactivate_handle_def
  apply (rule bind_sb_get [OF subset_refl subset_refl])
  apply (rule bind_get_state [OF insertI1], blast, blast)
  subgoal for a no n
    apply (rule bind_handles)
    subgoal by (cases mode) (auto intro: table_ok_ops)
    apply (rule eff_ok_pure_if)
     apply (rule bind_keeps')
      apply (rule set_state_same [where n = n], blast, simp, blast, blast)
     apply (rule return_keeps, blast, blast)
    by (rule return_keeps) auto
  done

text \<open>What an awaited upload does to the superblock is \<open>finish_writing\<close>, which keeps the invariant.\<close>

lemma release_writer_keeps:
  assumes "\<And>h. keeps env D K (await_hook h)"
  shows "keeps env D K (release_writer env await_hook i fh hook)"
  unfolding release_writer_def
  apply (rule eff_ok_bind [where Q = "\<lambda>_. sb_inv env D K"])
   apply (rule eff_ok_try, rule eff_ok_weaken [OF flush_writer_keeps], assumption, assumption, blast)
  subgoal for r
    apply (cases r; simp only: sum.case)
    subgoal by (rule return_keeps) auto
    subgoal for x
      apply (cases x; simp only: option.case)
      subgoal by (rule return_keeps) auto
      subgoal by (rule bind_keeps [OF assms]) (rule return_keeps, auto)
      done
    done
  done

end
