(* ===== verification/Superblock_Changes.thy ===== *)
theory Superblock_Changes
  imports Superblock_Safe
begin

text \<open>
  Opening, creating, forgetting, removing, renaming and the completion of an upload keep the invariant.
\<close>

section \<open>Opening\<close>

lemma open_handle_keeps:
  assumes "client_total env" and "\<And>K h. keeps env D K (await_hook h)"
  shows "keeps env D K (open_handle env clk h await_hook i fh mode flags)"
  unfolding open_handle_def
  apply (rule bind_gets)
  apply (rule eff_ok_bind [OF getattr_with_inode_keeps [OF assms(1)]])
  apply (rule know_inode, simp only: Let_def)
  apply (rule bind_node [OF insertI1])
  apply (rule eff_ok_pure_if)
  subgoal by (rule error_keeps) auto
  apply (rule eff_ok_pure_if)
  subgoal by (rule error_keeps) auto
  subgoal for force l no n
    apply (rule bind_more)
       apply (cases "open_mode mode flags (li_write_status l)"; simp only: read_write_mode.case)
        apply (rule start_reading_keeps [OF insertI1])
       apply (rule start_writing_keeps [OF insertI1])
      apply blast
     apply blast
    apply (rule bind_node [OF insertI1])
    apply (rule bind_gets)
    subgoal for pending locked lk
      apply (rule bind_more)
         apply (rule eff_ok_case_option)
          apply (rule return_keeps, blast, blast)
         apply (rule bind_keeps [OF assms(2)])
         apply (rule eff_ok_case_option)
          apply (rule bind_get_state [OF insertI1], blast, blast)
          apply (rule gets_keeps, blast, blast)
         apply (rule return_keeps, blast, blast)
        apply blast
       apply blast
      by (rule return_keeps) auto
    done
  done

section \<open>Creating\<close>

lemma try_keeps: "keeps env D K m \<Longrightarrow> eff_ok (sb_inv env D K) (eff_try m) (\<lambda>_. sb_inv env D K) R"
  by (rule eff_ok_try, erule eff_ok_weaken) auto

text \<open>A lookup whose result is examined, errors included.\<close>

lemma bind_try_lookup:
  assumes "client_total env" and "i \<in> D"
    and "\<And>l n. in_parent n = i \<Longrightarrow> vk_name (in_key n) = Done name \<Longrightarrow> node_facts n \<Longrightarrow>
      eff_ok (sb_inv env D (insert (li_inode l, n) K)) (f (Inr l)) Q R"
    and "\<And>e. sane e \<Longrightarrow> eff_ok (sb_inv env D K) (f (Inl e)) Q R"
  shows "eff_ok (sb_inv env D K) (eff_bind (eff_try (lookup_by_name env clk h i name allow)) f) Q R"
proof (rule eff_ok_bind)
  show "eff_ok (sb_inv env D K) (eff_try (lookup_by_name env clk h i name allow))
    (\<lambda>r s. case r of Inl e \<Rightarrow> sane e \<and> sb_inv env D K s | Inr l \<Rightarrow> looked_ok env D K i name l s) R"
    by (rule eff_ok_try, simp, rule lookup_by_name_keeps [OF assms(1,2)])
  show "eff_ok (\<lambda>s. case r of Inl e \<Rightarrow> sane e \<and> sb_inv env D K s | Inr l \<Rightarrow> looked_ok env D K i name l s) (f r) Q R" for r
    using assms(3,4) know_looked [of i name env D _ K "f r" Q R] by (cases r) (auto intro!: eff_ok_and)
qed

lemma know_created:
  assumes "\<And>n. in_parent n = in_ino pn \<Longrightarrow> vk_name (in_key n) = Done name \<Longrightarrow> in_kind n = kind \<Longrightarrow>
    eff_ok (sb_inv env D (insert (a, n) K)) M Q R"
  shows "eff_ok (created_ok env D K pn name kind a) M Q R"
  using assms by (force simp: eff_ok_def created_ok_def)

lemma create_new_keeps:
  assumes "(p, pn) \<in> K" and "valid_name name"
  shows "eff_ok (sb_inv env D K)
    (eff_bind (eff_gets st) (\<lambda>st.
     eff_bind (create_inode_locked env p name kind (inode_state_new st kind LocalUnopened) True) (\<lambda>a.
     eff_bind (sb_node a) (\<lambda>n.
     eff_bind (eff_gets (\<lambda>sb. lookup_of_inode sb n st)) (\<lambda>lk.
     eff_bind (remember a) (\<lambda>_. eff_return lk)))))) (\<lambda>_. sb_inv env D K) (keeps_err env D K)"
  apply (rule bind_gets)
  apply (rule eff_ok_bind [OF create_inode_locked_keeps [OF assms]])
  subgoal by (simp add: inode_state_new_def)
  apply (rule know_created)
  apply (rule bind_node [OF insertI1])
  apply (rule bind_gets)
  apply (rule bind_keeps' [OF remember_keeps [OF insertI1]])
  by (rule return_keeps) auto

lemma sb_create_keeps:
  assumes "client_total env" and "i \<in> D"
  shows "keeps env D K (sb_create env clk h i name kind)"
  unfolding sb_create_def
  apply (rule bind_gets)
  apply (rule bind_try_lookup [OF assms])
  subgoal
    apply (simp only: sum.case)
    apply (rule bind_node [OF insertI1])
    by (rule error_keeps) auto
  subgoal premises prems for cached e
  proof -
    have new: "keeps env D K (eff_bind (parse_name env name) (\<lambda>name.
         eff_bind (sb_get env i) (\<lambda>parent. eff_bind (get_inode_state parent) (\<lambda>p.
         case is_kind_data (in_sync p) of
           FileData \<Rightarrow> eff_error (NotADirectory (inode_err p))
         | DirectoryData children _ _ \<Rightarrow> (case children name of
             Some b \<Rightarrow> eff_bind (sb_node b) (\<lambda>n. eff_error (FileAlreadyExists (inode_err n)))
           | None \<Rightarrow>
               eff_bind (eff_gets (\<lambda>sb. case kind of
                   File \<Rightarrow> stat_for_file clk 0 (ck_system clk) None None None (validity_of sb File)
                 | Directory \<Rightarrow> stat_for_directory clk (sb_mount_time sb) (validity_of sb Directory))) (\<lambda>st.
               eff_bind (create_inode_locked env parent name kind (inode_state_new st kind LocalUnopened) True) (\<lambda>a.
               eff_bind (sb_node a) (\<lambda>n.
               eff_bind (eff_gets (\<lambda>sb. lookup_of_inode sb n st)) (\<lambda>lk.
               eff_bind (remember a) (\<lambda>_. eff_return lk))))))))))"
      apply (rule bind_parse_name)
      apply (rule bind_sb_get [OF subset_refl subset_refl])
      apply (rule bind_get_state [OF insertI1], blast, blast)
      apply (rule eff_ok_case_kind)
      subgoal by (rule error_keeps) auto
      subgoal for nm a no p ch w d
        apply (rule eff_ok_case_option)
        subgoal
          by (rule keeps_more [OF create_new_keeps [where K = "insert (a, p) K" and pn = p]]) auto
        subgoal for b
          apply (rule know_child [where a = a and n = p and b = b and name = nm], blast, assumption, assumption)
          apply (rule bind_node [OF insertI1])
          by (rule error_keeps) auto
        done
      done
    have "keeps env D K (eff_error e :: (_, _, lookup) sb_op)" by (rule error_keeps) (use prems in auto)
    with new show ?thesis by (cases e; simp only: sum.case inode_error.case)
  qed
  done

section \<open>Forgetting\<close>

lemma decrease_lookup_count_inv:
  assumes inv: "sb_inv env D K s"
  shows "sb_inv env D K (fst (decrease_lookup_count i c s))"
proof (rule sb_inv_same_arena [OF inv])
  note ok = sb_okD [OF sb_invD(1) [OF inv]]
  show "\<forall>j b c'. sb_inodes (fst (decrease_lookup_count i c s)) j = Some (b, c') \<longrightarrow>
      0 < c' \<and> (\<exists>n. sb_arena s b = Some n \<and> in_ino n = j)"
    using ok(4,5) by (fastforce simp: decrease_lookup_count_def split: if_splits option.splits)
  show "table_ok (sb_open_handles (fst (decrease_lookup_count i c s)))"
    using sb_inv_table [OF inv] by (simp add: decrease_lookup_count_def split: option.split)
qed (simp_all add: decrease_lookup_count_def split: option.split)

lemma decrease_lookup_count_node:
  assumes inv: "sb_inv env D K s" and "decrease_lookup_count i c s = (s', Some (Some a))"
  obtains n where "sb_arena s' a = Some n" "in_ino n = i"
proof -
  obtain n where "sb_arena s a = Some n" "in_ino n = i"
    using assms sb_okD(5) [OF sb_invD(1) [OF inv], of i a]
    by (fastforce simp: decrease_lookup_count_def split: option.splits if_splits)
  then show thesis using that assms(2) by (auto simp: decrease_lookup_count_def split: option.splits if_splits)
qed

lemma bind_inode_map:
  assumes "eff_ok (sb_inv env D K) (f None) Q R"
    and "\<And>a c n. in_ino n = i \<Longrightarrow> node_facts n \<Longrightarrow> eff_ok (sb_inv env D (insert (a, n) K)) (f (Some (a, c))) Q R"
  shows "eff_ok (sb_inv env D K) (eff_bind (eff_gets (\<lambda>sb. sb_inodes sb i)) f) Q R"
proof (rule eff_okI)
  fix s assume inv: "sb_inv env D K s"
  show "\<exists>s' r. eff_bind (eff_gets (\<lambda>sb. sb_inodes sb i)) f s = Done (s', r) \<and> (case r of Inl e \<Rightarrow> R e s' | Inr x \<Rightarrow> Q x s')"
  proof (cases "sb_inodes s i")
    case None
    with eff_okD [OF assms(1) inv] show ?thesis by (simp add: eff_bind_def)
  next
    case (Some e)
    obtain a c where e: "e = (a, c)" by (cases e)
    with Some obtain n where n: "sb_arena s a = Some n" "in_ino n = i"
      using sb_okD(5) [OF sb_invD(1) [OF inv]] by blast
    have inv': "sb_inv env D (insert (a, n) K) s" using sb_inv_node [OF inv n(1)] .
    from eff_okD [OF assms(2) [OF n(2) sb_inv_facts [OF inv' insertI1]] inv'] Some e show ?thesis
      by (simp add: eff_bind_def)
  qed
qed

lemma unlink_from_parent_keeps:
  assumes "(a, n) \<in> K" and "node_facts n"
  shows "keeps env D K (unlink_from_parent n i)"
  unfolding unlink_from_parent_def
  apply (rule know_parent [OF assms(1)])
  apply (rule bind_inode_map)
  subgoal by (simp only: option.case, rule return_keeps) auto
  subgoal for p c pn
    apply (simp only: option.case prod.case)
    apply (rule know_dir [OF insertI1], simp)
    apply (rule bind_node [OF insertI1])
    apply (rule eff_ok_case_kind)
    subgoal by (auto simp: node_facts_def)
    subgoal for p' ch w d
      apply (rule bind_name [OF assms(2)])
      subgoal for name
        apply (cases "ch name"; simp only: option.case eff_flat)
        subgoal by (rule set_state_sub [where n = p' and ch = ch and w = w and d = d]) auto
        subgoal for b
          apply (rule know_child [where a = p and n = p' and b = b and name = name], blast, assumption, assumption)
          apply (rule bind_node [OF insertI1])
          by (rule set_state_sub [where n = p' and ch = ch and w = w and d = d]) (auto simp: map_le_def split: if_splits)
        done
      done
    done
  done

lemma sb_forget_keeps: "keeps env D K (sb_forget i c)"
proof (rule eff_okI)
  fix s assume inv: "sb_inv env D K s"
  obtain s' r where dec: "decrease_lookup_count i c s = (s', r)" by fastforce
  have inv': "sb_inv env D K s'" using decrease_lookup_count_inv [OF inv, of i c] dec by simp
  show "\<exists>s' r. sb_forget i c s = Done (s', r) \<and> (case r of Inl e \<Rightarrow> sane e \<and> sb_inv env D K s' | Inr x \<Rightarrow> sb_inv env D K s')"
  proof (cases "r = None \<or> r = Some None")
    case True
    with dec inv' show ?thesis by (auto simp: sb_forget_def eff_bind_def)
  next
    case False
    then obtain a where r: "r = Some (Some a)" by (metis not_None_eq)
    from decrease_lookup_count_node [OF inv] dec r obtain n where n: "sb_arena s' a = Some n" by metis
    have inv'': "sb_inv env D (insert (a, n) K) s'" using sb_inv_node [OF inv' n] .
    have ok: "eff_ok (sb_inv env D (insert (a, n) K)) (eff_bind (unlink_from_parent n i) (\<lambda>_.
        eff_modify (\<lambda>sb. sb\<lparr>sb_open_handles := fst (remove_inode (sb_open_handles sb) i)\<rparr>)))
      (\<lambda>_. sb_inv env D K) (keeps_err env D K)"
      apply (rule bind_more [OF unlink_from_parent_keeps [OF insertI1 sb_inv_facts [OF inv'' insertI1]]], blast, blast)
      by (rule handles_keep) (auto intro: table_ok_ops)
    have "sb_forget i c s = eff_bind (unlink_from_parent n i) (\<lambda>_.
        eff_modify (\<lambda>sb. sb\<lparr>sb_open_handles := fst (remove_inode (sb_open_handles sb) i)\<rparr>)) s'"
      using dec r n by (simp add: sb_forget_def eff_bind_def [of "eff_gets _"] eff_bind_def [of "eff_modify _"] eff_bind_def [of "sb_node _"] sb_node_def)
    with eff_okD [OF ok inv''] show ?thesis by metis
  qed
qed

section \<open>Removing\<close>

lemma forget_unlinked_keeps:
  assumes "(p, pn) \<in> K" and "(a, an) \<in> K"
  shows "keeps env D K (forget_unlinked clk p a)"
  unfolding forget_unlinked_def
  apply (rule bind_get_state [OF assms(1) subset_refl subset_refl])
  apply (rule bind_node [OF insertI2 [OF assms(2)]])
  apply (rule eff_ok_case_kind)
  subgoal by (rule error_keeps) auto
  subgoal for p' n ch w d
    apply (rule bind_name, assumption)
    subgoal for name
      apply (rule eff_ok_case_option)
      subgoal by (rule return_keeps) auto
      subgoal for b
        apply (rule know_child [where a = p and n = p' and b = b and name = name], blast, assumption, assumption)
        apply (rule bind_node [OF insertI1])
        apply (rule eff_ok_pure_if)
        subgoal by (rule set_state_sub [where n = p' and ch = ch and w = w and d = d]) (auto simp: map_le_def split: if_splits)
        subgoal for m ex by (rule set_state_same [where n = ex]) auto
        done
      done
    done
  done

lemma sb_unlink_keeps:
  assumes "client_total env" and "i \<in> D"
  shows "keeps env D K (sb_unlink env clk h i name)"
  unfolding sb_unlink_def
  apply (rule bind_sb_get [OF subset_refl subset_refl])
  apply (rule bind_gets)
  apply (rule bind_lookup [OF assms], blast, blast)
  apply (simp only: Let_def)
  apply (rule bind_node [OF insertI1])
  apply (rule eff_ok_pure_if)
  subgoal by (rule error_keeps) auto
  apply (rule bind_get_state [OF insertI1], blast, blast)
  apply (rule eff_ok_pure_if)
  subgoal by (rule error_keeps) auto
  subgoal for p pn cached l m n n'
    apply (rule bind_gets)
    apply (rule eff_ok_case_prod)
    apply (rule bind_client_call)
    subgoal using assms(1) by (simp add: client_total_def)
    apply (rule eff_ok_case_sum)
    subgoal by (rule error_value_keeps) auto
    subgoal by (rule keeps_more [OF forget_unlinked_keeps [where p = p and pn = pn and a = "li_inode l" and an = m
      and K = "insert (li_inode l, m) (insert (p, pn) K)"]]) auto
    done
  done

text \<open>
  \<open>rmdir\<close> has two branches declared unreachable; \<open>eff_upto m m'\<close> says that \<open>m\<close> is \<open>m'\<close> or panics.
\<close>

definition eff_upto :: "('s, 'e, 'a) eff \<Rightarrow> ('s, 'e, 'a) eff \<Rightarrow> bool" where
  "eff_upto m m' \<longleftrightarrow> (\<forall>s. m s = Panic \<or> m s = m' s)"

lemma eff_upto_refl: "eff_upto m m"
  by (simp add: eff_upto_def)

lemma eff_upto_panic: "eff_upto eff_panic m"
  by (simp add: eff_upto_def)

lemma eff_upto_bind:
  assumes "eff_upto m m'" and "\<And>x. eff_upto (f x) (f' x)"
  shows "eff_upto (eff_bind m f) (eff_bind m' f')"
  unfolding eff_upto_def
proof
  fix s
  from assms(1) have "m s = Panic \<or> m s = m' s" by (simp add: eff_upto_def)
  then show "eff_bind m f s = Panic \<or> eff_bind m f s = eff_bind m' f' s"
  proof
    assume eq: "m s = m' s"
    show ?thesis
    proof (cases "m s")
      case (Done x)
      obtain t r where x: "x = (t, r)" by (cases x)
      with Done eq have "m s = Done (t, r)" "m' s = Done (t, r)" by simp_all
      with assms(2) show ?thesis by (cases r) (auto simp: eff_upto_def)
    qed (use eq in \<open>simp_all add: eff_bind_def\<close>)
  qed (simp add: eff_bind_def)
qed

lemma eff_upto_if: "(b \<Longrightarrow> eff_upto m n) \<Longrightarrow> (\<not> b \<Longrightarrow> eff_upto m' n') \<Longrightarrow> eff_upto (if b then m else m') (if b then n else n')"
  by simp

lemma eff_upto_keeps:
  assumes "eff_upto m m'" and "keeps env D K m'" and "sb_inv env D K s" and "m s = Done (s', r)"
  shows "sb_inv env D K s'" "r = Inl e \<Longrightarrow> sane e"
proof -
  have "m' s = Done (s', r)" using assms(1,4) unfolding eff_upto_def by (metis run.distinct(1))
  with eff_okD [OF assms(2,3)] show "sb_inv env D K s'" "r = Inl e \<Longrightarrow> sane e" by (auto split: sum.splits)
qed

text \<open>\<open>sb_rmdir\<close> with the unreachable branches as a parameter.\<close>

definition rmdir_with ::
  "(inode \<Rightarrow> ('m, 'c, unit) sb_op) \<Rightarrow> ('m, 'c) sb_env \<Rightarrow> clock \<Rightarrow> bool \<Rightarrow> nat \<Rightarrow> string \<Rightarrow> ('m, 'c, unit) sb_op" where
  "rmdir_with stuck env clk head_first parent_ino name =
     eff_bind (eff_gets serve_from_cache) (\<lambda>cached.
     eff_bind (lookup_by_name env clk head_first parent_ino name cached) (\<lambda>l.
     eff_bind (sb_node (li_inode l)) (\<lambda>n.
     if in_kind n = File then eff_error (NotADirectory (inode_err n))
     else
       eff_bind (sb_get env parent_ino) (\<lambda>parent. eff_bind (get_inode_state parent) (\<lambda>_.
       eff_bind (get_inode_state (li_inode l)) (\<lambda>n.
       eff_bind (if is_write_status (in_sync n) = Remote then eff_error (CannotRemoveRemoteDirectory (inode_err n))
         else if is_write_status (in_sync n) = LocalUnopened then (case is_kind_data (in_sync n) of
             FileData \<Rightarrow> eff_panic
           | DirectoryData children writing_children deleted \<Rightarrow>
               if writing_children \<noteq> {} then eff_error (DirectoryNotEmpty (inode_err n))
               else set_state (li_inode l) ((in_sync n)\<lparr>is_kind_data := DirectoryData children writing_children True\<rparr>))
         else stuck n) (\<lambda>_.
       eff_bind (sb_node parent) (\<lambda>p. case is_kind_data (in_sync p) of
         FileData \<Rightarrow> eff_error (NotADirectory (inode_err p))
       | DirectoryData children writing_children deleted \<Rightarrow>
           eff_bind (eff_run (vk_name (in_key n))) (\<lambda>name.
             set_state parent ((in_sync p)\<lparr>is_kind_data :=
               DirectoryData (children(name := None)) (writing_children - {in_ino n}) deleted\<rparr>))))))))))"

lemma sb_rmdir_eq: "sb_rmdir env clk h i name = rmdir_with (\<lambda>_. eff_panic) env clk h i name"
proof -
  have "(case w of LocalOpenForWriting \<Rightarrow> eff_panic | Remote \<Rightarrow> x | PendingRename \<Rightarrow> eff_panic | LocalUnopened \<Rightarrow> y) =
    (if w = Remote then x else if w = LocalUnopened then y else eff_panic)" for w and x y :: "('a, 'b, unit) sb_op"
    by (cases w) simp_all
  then show ?thesis by (simp only: sb_rmdir_def rmdir_with_def Let_def)
qed

lemma rmdir_with_upto: "eff_upto (rmdir_with (\<lambda>_. eff_panic) env clk h i name) (rmdir_with stuck env clk h i name)"
  unfolding rmdir_with_def
  by (rule eff_upto_bind eff_upto_refl eff_upto_if eff_upto_panic)+

lemma rmdir_with_keeps:
  assumes "client_total env" and "i \<in> D"
  shows "keeps env D K (rmdir_with (\<lambda>n. eff_error (DirectoryNotEmpty (inode_err n))) env clk h i name)"
  unfolding rmdir_with_def
  apply (rule bind_gets)
  apply (rule bind_lookup [OF assms subset_refl subset_refl])
  apply (rule bind_node [OF insertI1])
  apply (rule eff_ok_pure_if)
  subgoal by (rule error_keeps) auto
  apply (rule bind_sb_get, blast, blast)
  apply (rule bind_get_state [OF insertI1], blast, blast)
  subgoal for cached l m n p pn p'
    apply (rule bind_get_state [where no = n], blast, blast, blast)
    subgoal for n'
      apply (rule eff_ok_bind [where Q = "\<lambda>_. sb_inv env D (insert (p, p') K)"])
       apply (rule eff_ok_pure_if)
        apply (rule error_keeps, simp, blast, blast)
       apply (rule eff_ok_pure_if)
        apply (rule eff_ok_case_kind)
      subgoal by (cases "in_kind m") (auto simp: node_facts_def)
      subgoal for ch w d
        apply (rule eff_ok_pure_if)
         apply (rule error_keeps, simp, blast, blast)
        by (rule set_state_sub [where n = n' and ch = ch and w = w and d = d]) auto
       apply (rule error_keeps, simp, blast, blast)
      apply (rule bind_node [OF insertI1])
      apply (rule eff_ok_case_kind)
       apply (rule error_keeps, simp, blast, blast)
      subgoal for _ p2 ch w d
        apply (rule bind_name, assumption)
        by (rule set_state_sub [where n = p2 and ch = ch and w = w and d = d]) (auto simp: map_le_def split: if_splits)
      done
    done
  done

lemma sb_rmdir_keeps:
  assumes "client_total env" and "i \<in> D" and "sb_inv env D K s" and "sb_rmdir env clk h i name s = Done (s', r)"
  shows "sb_inv env D K s'" "r = Inl e \<Longrightarrow> sane e"
  using eff_upto_keeps [OF rmdir_with_upto rmdir_with_keeps [OF assms(1,2)] assms(3) assms(4) [unfolded sb_rmdir_eq]] by blast+

end
