(* ===== verification/Superblock_Moves.thy ===== *)
theory Superblock_Moves
  imports Superblock_Changes
begin

text \<open>
  Completion of an upload and rename keep the invariant. The walks over the ancestors end because a directory
  has a smaller number than the directories in it.
\<close>

section \<open>Completion of an upload\<close>

text \<open>The addresses collected are those of directories.\<close>

definition dirs_ok :: "('m, 'c) sb_env \<Rightarrow> nat set \<Rightarrow> (nat \<times> inode) set \<Rightarrow> nat list \<Rightarrow> ('m, 'c) superblock \<Rightarrow> bool" where
  "dirs_ok env D K as s \<longleftrightarrow> (\<exists>A. (\<forall>a \<in> set as. \<exists>n. (a, n) \<in> A \<and> in_kind n = Directory) \<and> sb_inv env D (A \<union> K) s)"

lemma know_dirs:
  assumes "\<And>A. \<forall>a \<in> set as. \<exists>n. (a, n) \<in> A \<and> in_kind n = Directory \<Longrightarrow> eff_ok (sb_inv env D (A \<union> K)) M Q R"
  shows "eff_ok (dirs_ok env D K as) M Q R"
  using assms by (force simp: eff_ok_def dirs_ok_def)

lemma dirs_okI:
  assumes "sb_inv env D K' s" "K \<subseteq> K'" "\<forall>a \<in> set as. \<exists>n. (a, n) \<in> K' \<and> in_kind n = Directory"
  shows "dirs_ok env D K as s"
  using assms by (auto simp: dirs_ok_def sup_absorb1 intro!: exI [of _ K'])

lemma dirs_ok_Cons:
  assumes "dirs_ok env D' (insert (a, n) K) as s" and "in_kind n = Directory" "D \<subseteq> D'"
  shows "dirs_ok env D K (a # as) s"
proof -
  from assms(1) obtain A where A: "\<forall>a \<in> set as. \<exists>n. (a, n) \<in> A \<and> in_kind n = Directory" "sb_inv env D' (A \<union> insert (a, n) K) s"
    by (auto simp: dirs_ok_def)
  show ?thesis by (rule dirs_okI [OF sb_inv_weaken [OF A(2) assms(3) subset_refl]]) (use A(1) assms(2) in auto)
qed

lemma know_older:
  assumes "(a, n) \<in> K" and "in_kind n = Directory"
    and "in_ino n = ROOT_INODE_NO \<or> in_parent n < in_ino n \<Longrightarrow> eff_ok (sb_inv env D K) M Q R"
  shows "eff_ok (sb_inv env D K) M Q R"
  by (rule eff_ok_assume [OF _ assms(3)]) (use sb_inv_header [OF _ assms(1)] assms(2) in \<open>auto simp: header_ok_def\<close>)

lemma collect_ancestors_keeps:
  assumes "i < fuel" and "i \<in> D" and "\<forall>v \<in> set vs. i < v"
  shows "eff_ok (sb_inv env D K) (collect_ancestors env fuel vs i) (dirs_ok env D K) (keeps_err env D K)"
  using assms
proof (induction fuel arbitrary: i vs D K)
  case (Suc fuel)
  show ?case
    unfolding collect_ancestors.simps
    apply (rule eff_ok_pure_if)
    subgoal using Suc.prems(3) by auto
    apply (rule bind_sb_get [OF subset_refl subset_refl])
    apply (rule know_dir [OF insertI1])
    subgoal using Suc.prems(2) by simp
    apply (rule bind_node [OF insertI1])
    apply (rule eff_ok_pure_if)
    subgoal for a m n
      apply (rule eff_ok_return)
      by (erule dirs_okI) auto
    subgoal for a m n
      apply (rule bind_get_state [OF insertI1], blast, blast)
      apply (rule eff_ok_pure_if)
      subgoal for n'
        apply (rule eff_ok_return)
        by (erule dirs_okI) auto
      subgoal for n'
        apply (rule know_older [OF insertI1], simp)
        apply (rule know_parent [OF insertI1])
        apply (rule eff_ok_bind [where Q = "dirs_ok env (insert (in_parent n') D) (insert (a, n') K)"])
        subgoal
          apply (rule eff_ok_weaken [OF Suc.IH [where D = "insert (in_parent n') D" and K = "insert (a, n') K"]])
          using Suc.prems by (auto elim: sb_inv_weaken)
        subgoal for rest
          apply (rule eff_ok_return)
          by (erule dirs_ok_Cons) auto
        done
      done
    done
qed simp

lemma bind_ancestors:
  assumes "i < fuel" and "i \<in> D" and "Ds \<subseteq> D" "Ks \<subseteq> K"
    and "\<And>as A. \<forall>a \<in> set as. \<exists>n. (a, n) \<in> A \<and> in_kind n = Directory \<Longrightarrow>
      eff_ok (sb_inv env D (A \<union> K)) (f as) Q (keeps_err env Ds Ks)"
  shows "eff_ok (sb_inv env D K) (eff_bind (collect_ancestors env fuel [] i) f) Q (keeps_err env Ds Ks)"
proof (rule eff_ok_bind)
  show "eff_ok (sb_inv env D K) (collect_ancestors env fuel [] i) (dirs_ok env D K) (keeps_err env Ds Ks)"
    by (rule eff_ok_weaken [OF collect_ancestors_keeps [OF assms(1,2)]]) (use assms(3,4) in \<open>auto elim: sb_inv_weaken\<close>)
  show "eff_ok (dirs_ok env D K as) (f as) Q (keeps_err env Ds Ks)" for as
    by (rule know_dirs) (rule assms(5))
qed

lemma lock_all_keeps:
  assumes "\<forall>a \<in> set as. \<exists>n. (a, n) \<in> K" and "Ds \<subseteq> D" "Ks \<subseteq> K"
  shows "eff_ok (sb_inv env D K) (lock_all as) (\<lambda>_. sb_inv env D K) (keeps_err env Ds Ks)"
  using assms
proof (induction as)
  case (Cons a as)
  then obtain n where n: "(a, n) \<in> K" by auto
  show ?case
    unfolding lock_all.simps
    apply (rule bind_get_state [OF n Cons.prems(2,3)])
    apply (rule eff_ok_weaken [OF Cons.IH]) using Cons.prems by (auto elim: sb_inv_weaken)
qed (auto intro: return_keeps)

lemma finish_ancestors_keeps:
  assumes "\<forall>a \<in> set as. \<exists>n. (a, n) \<in> K \<and> in_kind n = Directory"
  shows "eff_ok (sb_inv env D K) (finish_ancestors as i) (\<lambda>_. sb_inv env D K) R"
  using assms
proof (induction as arbitrary: i)
  case (Cons a as)
  then obtain n where n: "(a, n) \<in> K" "in_kind n = Directory" by auto
  show ?case
    unfolding finish_ancestors.simps
    apply (rule bind_node [OF n(1)])
    apply (rule eff_ok_case_kind)
    subgoal using n(2) by (auto simp: node_facts_def)
    subgoal for n' ch w d
      apply (rule eff_ok_bind [where Q = "\<lambda>_. sb_inv env D K"])
       apply (rule set_state_sub [where n = n' and ch = ch and w = w and d = d], blast, assumption, simp, simp, blast, blast)
      by (rule Cons.IH) (use Cons.prems in auto)
    done
qed (auto intro: return_keeps)

lemma finish_inode_keeps:
  assumes "(a, n) \<in> K"
  shows "keeps env D K (finish_inode clk a n i etag fh)"
  unfolding finish_inode_def
  apply (rule eff_ok_case_option)
  subgoal
    apply (rule bind_keeps')
     apply (rule handles_keep, rule table_ok_ops, assumption, blast, blast)
    by (rule set_state_same [OF assms]) auto
  subgoal
    apply (rule bind_handles [OF table_ok_ops(8)], assumption)
    apply (rule bind_gets)
    by (rule set_state_same [OF assms]) auto
  done

lemma bind_fuel:
  assumes "(a, n) \<in> K" and "\<And>fuel. in_parent n < fuel \<Longrightarrow> eff_ok (sb_inv env D K) (f fuel) Q R"
  shows "eff_ok (sb_inv env D K) (eff_bind (eff_gets sb_next_ino) f) Q R"
  by (rule bind_gets_with [where F = "\<lambda>x. in_parent n < x"])
    (use sb_inv_header [OF _ assms(1)] assms(2) in \<open>auto simp: header_ok_def vfs_dir_def\<close>)

lemma finish_writing_keeps: "keeps env D K (finish_writing env clk i etag fh)"
  unfolding finish_writing_def
  apply (rule bind_sb_get [OF subset_refl subset_refl])
  apply (rule bind_node [OF insertI1])
  apply (rule bind_fuel [OF insertI1])
  subgoal for a m n fuel
    apply (rule know_parent [OF insertI1])
    apply (rule bind_ancestors, assumption, blast, blast, blast)
    apply (rule eff_ok_bind)
     apply (rule lock_all_keeps)
       apply force
      apply blast
     apply blast
    apply (rule bind_get_state [where no = n], blast, blast, blast)
    apply (rule eff_ok_pure_if)
    subgoal for as A u n'
      apply (rule bind_more [OF finish_inode_keeps [OF insertI1]], blast, blast)
      apply (rule eff_ok_bind)
       apply (rule finish_ancestors_keeps)
       apply blast
      apply (rule bind_node [OF insertI1])
      by (rule gets_keeps) auto
    subgoal by (rule error_keeps) auto
    done
  done

section \<open>Rename\<close>

lemma ancestor_walk_ends:
  assumes "sb_inv env D K s" and "(a, n) \<in> K" and "in_kind n = Directory" and "in_ino n < fuel"
  shows "\<exists>b. dst_is_ancestor fuel s n dst = Done b"
  using assms
proof (induction fuel arbitrary: a n D K)
  case (Suc fuel)
  note inv = Suc.prems(1)
  show ?case
  proof (cases "in_ino n = ROOT_INODE_NO \<or> in_ino n = dst \<or> sb_inodes s (in_parent n) = None")
    case False
    then obtain b c where b: "sb_inodes s (in_parent n) = Some (b, c)" by auto
    then obtain m where m: "sb_arena s b = Some m" "in_ino m = in_parent n"
      using sb_okD(5) [OF sb_invD(1) [OF inv]] by blast
    have older: "in_parent n < in_ino n" and "vfs_dir (in_parent n) s"
      using sb_inv_header [OF inv Suc.prems(2)] Suc.prems(3) False by (auto simp: header_ok_def)
    then have "in_kind m = Directory" using m by (auto simp: vfs_dir_def)
    with Suc.IH [OF sb_inv_node [OF inv m(1)] insertI1] older m Suc.prems(4) False b show ?thesis by simp
  qed auto
qed simp

lemma rename_lock_keeps:
  assumes "(p, pn) \<in> K" "in_kind pn = Directory" "(q, qn) \<in> K"
  shows "keeps env D K (rename_lock p q)"
proof (rule eff_okI)
  fix s assume inv: "sb_inv env D K s"
  obtain m where m: "sb_arena s p = Some m" "hdr m = hdr pn" using sb_invD(3) [OF inv assms(1)] by (auto simp: snapshot_def)
  obtain n where n: "sb_arena s q = Some n" using sb_invD(3) [OF inv assms(3)] by (auto simp: snapshot_def)
  have kd: "in_kind m = Directory" "in_ino m < Suc (sb_next_ino s)"
    using assms(2) hdr_eqD [OF m(2)] sb_okD(2) [OF sb_invD(1) [OF inv] m(1)] by (simp_all add: header_ok_def)
  obtain b where b: "dst_is_ancestor (Suc (sb_next_ino s)) s m (in_ino n) = Done b"
    using ancestor_walk_ends [OF sb_inv_node [OF inv m(1)] insertI1 kd] by blast
  have "\<exists>as. rename_lock_order s p m q n = Done as \<and> set as \<subseteq> {p, q}"
    using b by (simp add: rename_lock_order_def del: dst_is_ancestor.simps)
  then obtain as where as: "rename_lock_order s p m q n = Done as" "set as \<subseteq> {p, q}" by blast
  then have "\<forall>a \<in> set as. \<exists>n. (a, n) \<in> K" using assms by auto
  from eff_okD [OF lock_all_keeps [OF this subset_refl subset_refl] inv]
  show "\<exists>s' r. rename_lock p q s = Done (s', r) \<and> (case r of Inl e \<Rightarrow> sane e \<and> sb_inv env D K s' | Inr x \<Rightarrow> sb_inv env D K s')"
    using m(1) n as(1) by (simp add: rename_lock_def eff_bind_def sb_node_def)
qed

lemma rename_in_source_keeps:
  assumes "(p, pn) \<in> K" "(a, an) \<in> K"
  shows "keeps env D K (rename_in_source p a)"
  unfolding rename_in_source_def
  apply (rule bind_node [OF assms(1)])
  apply (rule bind_node [OF insertI2 [OF assms(2)]])
  apply (rule eff_ok_case_kind)
  subgoal by (rule error_keeps) auto
  subgoal for p' n ch w d
    apply (rule bind_name, assumption)
    by (rule set_state_sub [where n = p' and ch = ch and w = w and d = d]) (auto simp: map_le_def split: if_splits)
  done

lemma try_clone_with_new_key_keeps:
  assumes "(a, an) \<in> K" and "(q, qn) \<in> K" and "node_facts qn" and "valid_name name"
    and key: "new_child (in_key qn) name File = Inr key"
  shows "eff_ok (sb_inv env D K) (try_clone_with_new_key env clk a key ttl (in_ino qn))
    (\<lambda>b s. \<exists>n. in_parent n = in_ino qn \<and> in_key n = key \<and> in_kind n = File \<and> sb_inv env D (insert (b, n) K) s) (keeps_err env D K)"
  unfolding try_clone_with_new_key_def
  apply (rule bind_node [OF assms(1)])
  apply (rule eff_ok_pure_if)
  subgoal by (rule error_keeps) auto
  apply (rule bind_get_state [OF insertI1], blast, blast)
  subgoal premises prems for m n
  proof (rule eff_okI)
    fix s assume inv: "sb_inv env D (insert (a, n) (insert (a, m) K)) s"
    have qdir: "in_kind qn = Directory" using key by (simp add: new_child_Inr_iff in_kind_def)
    have hq: "header_ok env s qn" using sb_inv_header [OF inv] assms(2) by blast
    have hn: "header_ok env s n" using sb_inv_header [OF inv insertI1] .
    obtain m' where m': "sb_arena s a = Some m'" "hdr m' = hdr n"
      using sb_invD(3) [OF inv insertI1] by (auto simp: snapshot_def)
    have notdir: "\<not> vfs_dir (in_ino n) s"
      using m'(1) hdr_eqD [OF m'(2)] prems by (auto simp: vfs_dir_def intro!: exI [of _ a] exI [of _ m'])
    have child: "vk_kind key = File" "\<exists>ns. key_path ns key"
      using new_child_name [OF _ assms(4) key] assms(3) by (auto simp: node_facts_def)
    then obtain ns where ns: "key_path ns key" by blast
    define st where "st = \<lparr>is_stat = stat_for_file clk (st_size (is_stat (in_sync n))) (st_atime (is_stat (in_sync n)))
      (st_etag (is_stat (in_sync n))) None None ttl,
      is_write_status = Remote, is_kind_data = kind_data_default File, is_pending_upload_hook = None\<rparr>"
    define k where "k = inode_new (env_crc env) (in_ino n) (in_ino qn) key (sb_prefix s) st"
    have k: "in_ino k = in_ino n" "in_parent k = in_ino qn" "in_key k = key" "in_kind k = File" "in_sync k = st"
      "in_checksum k = inode_checksum (env_crc env) (in_ino n) (sb_prefix s) (vk_key key)"
      using child(1) by (simp_all add: k_def inode_new_def in_kind_def)
    have "sb_inv env D (insert (sb_next_address s, k) K) (place_inode (sb_next_ino s) k s)"
      by (rule sb_inv_weaken [OF place_inode_inv [OF inv]])
        (use k hq hn notdir ns qdir in \<open>auto simp: header_ok_def st_def\<close>)
    moreover have "place_inode (sb_next_ino s) k s =
        s\<lparr>sb_arena := (sb_arena s)(sb_next_address s \<mapsto> k), sb_next_address := Suc (sb_next_address s)\<rparr>"
      by (cases s) (simp add: place_inode_def)
    ultimately have "sb_inv env D (insert (sb_next_address s, k) K)
        (s\<lparr>sb_arena := (sb_arena s)(sb_next_address s \<mapsto> k), sb_next_address := Suc (sb_next_address s)\<rparr>)" by simp
    with k show "\<exists>s' r. (let old = is_stat (in_sync n); st = \<lparr>is_stat = stat_for_file clk (st_size old) (st_atime old) (st_etag old) None None ttl,
              is_write_status = Remote, is_kind_data = kind_data_default File, is_pending_upload_hook = None\<rparr>
        in eff_bind (eff_gets (\<lambda>sb. inode_new (env_crc env) (in_ino n) (in_ino qn) key (sb_prefix sb) st)) alloc_inode) s = Done (s', r) \<and>
      (case r of Inl e \<Rightarrow> sane e \<and> sb_inv env D K s'
       | Inr b \<Rightarrow> \<exists>n. in_parent n = in_ino qn \<and> in_key n = key \<and> in_kind n = File \<and> sb_inv env D (insert (b, n) K) s')"
      by (auto simp: Let_def eff_bind_def alloc_inode_def k_def st_def)
  qed
  done

lemma replace_or_insert_inv:
  assumes inv: "sb_inv env D K s" and "(a, n) \<in> K"
  shows "sb_inv env D K (replace_or_insert (in_ino n) a s)"
proof (rule sb_inv_same_arena [OF inv])
  note ok = sb_okD [OF sb_invD(1) [OF inv]]
  obtain m where m: "sb_arena s a = Some m" "in_ino m = in_ino n"
    using sb_invD(3) [OF assms] by (auto simp: snapshot_def dest: hdr_eqD)
  show "\<forall>i b c. sb_inodes (replace_or_insert (in_ino n) a s) i = Some (b, c) \<longrightarrow>
      0 < c \<and> (\<exists>n. sb_arena s b = Some n \<and> in_ino n = i)"
    using ok(4,5) m by (fastforce simp: replace_or_insert_def split: if_splits option.splits)
  show "table_ok (sb_open_handles (replace_or_insert (in_ino n) a s))"
    using sb_inv_table [OF inv] by (simp add: replace_or_insert_def)
qed (simp_all add: replace_or_insert_def)

lemma rename_in_destination_keeps:
  assumes "(p, pn) \<in> K" "(q, qn) \<in> K" "(a, an) \<in> K" "node_facts qn" "valid_name name"
    and key: "new_child (in_key qn) name File = Inr key"
  shows "keeps env D K (rename_in_destination env clk p q a (in_ino qn) name key)"
  unfolding rename_in_destination_def
  apply (rule bind_node [OF assms(1)])
  apply (rule bind_node [OF insertI2 [OF assms(2)]])
  apply (rule eff_ok_case_kind)
  subgoal by (rule error_keeps) auto
  subgoal for p' q' ch w d
    apply (rule bind_gets)
    apply (rule eff_ok_bind [where Q = "\<lambda>b s. \<exists>n. in_parent n = in_ino qn \<and> in_key n = key \<and> in_kind n = File \<and>
        sb_inv env D (insert (b, n) (insert (q, q') (insert (p, p') K))) s"])
    subgoal
      apply (rule eff_ok_weaken [OF try_clone_with_new_key_keeps
          [where a = a and q = q and qn = qn and name = name and K = "insert (q, q') (insert (p, p') K)"]])
      using assms by (auto elim: sb_inv_weaken)
    subgoal for ttl b
      apply (rule eff_ok_ex, (rule eff_ok_and)+)
      subgoal for n
        apply (rule eff_ok_bind [where Q = "\<lambda>_. sb_inv env D (insert (b, n) K)"])
         apply (rule set_state_child [where n = q' and ch = ch and w = w and d = d and m = n and b = b and name = name],
            blast, assumption, simp, blast)
        using assms apply simp_all [4]
         apply blast
        apply (rule bind_node [OF insertI1])
        subgoal for u n'
          apply (rule modify_keeps)
            apply (rule replace_or_insert_inv, assumption, blast)
          by auto
        done
      done
    done
  done

lemma sane_rename_error [simp]: "sane (rename_error s n x y e)"
  by (simp add: rename_error_def split: client_error.split rename_object_error.split rename_precondition.split)

lemma rename_remote_keeps:
  assumes "client_total env" "(p, pn) \<in> K" "in_kind pn = Directory" "(q, qn) \<in> K" "in_ino qn = j" "(a, an) \<in> K"
  shows "keeps env D K (rename_remote env clk p q a j name ow)"
  unfolding rename_remote_def
  apply (rule bind_node [OF assms(6)])
  apply (rule bind_node [OF insertI2 [OF assms(4)]])
  subgoal for n q'
    apply (rule know_weaken [of _ D "insert (q, q') K"])
      apply (rule keeps_more [of _ D "insert (q, q') K"])
          apply (rule bind_parse_name)
          apply (rule eff_ok_case_sum)
           apply (rule error_keeps, simp, blast, blast)
          apply (rule bind_gets)
          apply (rule eff_ok_case_prod)+
          apply (simp only: Let_def)
          apply (rule bind_client_call)
    subgoal using assms(1) by (simp add: client_total_def)
          apply (rule eff_ok_case_sum)
    subgoal
      apply (rule bind_keeps')
       apply (rule eff_ok_pure_if)
        apply (rule modify_keeps, rule sb_inv_rename_supported, assumption, blast, blast)
       apply (rule return_keeps, blast, blast)
      by (rule error_value_keeps) auto
    subgoal for nm key x bucket y z w r u
      apply (rule bind_modify, erule sb_inv_rename_supported)
      apply (rule bind_modify, erule sb_inv_negative_cache)
      apply (rule bind_keeps')
       apply (rule rename_lock_keeps [where pn = pn and qn = qn])
      using assms apply simp_all [3]
      apply (rule bind_keeps')
       apply (rule rename_in_source_keeps [where pn = pn and an = an])
      using assms apply simp_all [2]
      using rename_in_destination_keeps [where p = p and pn = pn and q = q and qn = q' and a = a and an = an
          and K = "insert (q, q') K" and name = nm and key = key and env = env and D = D and clk = clk] assms
      by simp
    by auto
  done

lemma try_transition_keeps:
  assumes "(a, an) \<in> K"
  shows "keeps env D K (try_transition a)"
  unfolding try_transition_def
  apply (rule bind_get_state [OF assms subset_refl subset_refl])
  apply (rule eff_ok_pure_if)
  subgoal for n by (rule set_state_same [where n = n]) auto
  subgoal by (rule error_keeps) auto
  done

lemma drop_rename_guard_keeps:
  assumes "(a, an) \<in> K" and "in_kind an = File"
  shows "eff_ok (sb_inv env D K) (drop_rename_guard a) (\<lambda>_. sb_inv env D K) R"
  unfolding drop_rename_guard_def
  apply (rule try_get_state [OF assms(1)])
  subgoal for n
    apply (simp only: sum.case)
    apply (rule eff_ok_pure_if)
     apply (rule set_state_same [where n = n], blast, simp, blast, blast)
    by (rule return_keeps) auto
  subgoal using assms(2) by simp
  done

lemma with_rename_guard_keeps:
  assumes "(a, an) \<in> K" and "in_kind an = File" and "keeps env D K m"
  shows "keeps env D K (with_rename_guard a m)"
  unfolding with_rename_guard_def
  apply (rule eff_ok_bind [where Q = "\<lambda>r s. (case r of Inl e \<Rightarrow> sane e | Inr _ \<Rightarrow> True) \<and> sb_inv env D K s"])
   apply (rule eff_ok_try, rule eff_ok_weaken [OF assms(3)], assumption, simp, simp)
  apply (rule eff_ok_and)
  subgoal for r
    apply (cases r; simp only: sum.case)
     apply (rule bind_keeps' [OF drop_rename_guard_keeps [OF assms(1,2)]])
     apply (rule error_keeps, simp, blast, blast)
    by (rule return_keeps) auto
  done

text \<open>The destination may be a directory; it is not removed while the rename is under way.\<close>

definition live :: "nat \<Rightarrow> ('m, 'c) superblock \<Rightarrow> bool" where
  "live d s = (case sb_arena s d of None \<Rightarrow> True | Some n \<Rightarrow> \<not> is_deleted n)"

definition stays :: "nat \<Rightarrow> ('m, 'c, 'a) sb_op \<Rightarrow> bool" where
  "stays d m \<longleftrightarrow> (\<forall>s s' r. m s = Done (s', r) \<longrightarrow> live d s \<longrightarrow> live d s')"

lemma stays_node: "(\<And>n. (a = d \<Longrightarrow> \<not> is_deleted n) \<Longrightarrow> stays d (f n)) \<Longrightarrow> stays d (eff_bind (sb_node a) f)"
  unfolding stays_def
proof (intro allI impI)
  fix s s' r
  assume f: "\<And>n. (a = d \<Longrightarrow> \<not> is_deleted n) \<Longrightarrow> \<forall>s s' r. f n s = Done (s', r) \<longrightarrow> live d s \<longrightarrow> live d s'"
    and m: "eff_bind (sb_node a) f s = Done (s', r)" and live: "live d s"
  show "live d s'"
  proof (cases "sb_arena s a")
    case None
    with m show ?thesis by (simp add: eff_bind_def sb_node_def)
  next
    case (Some n)
    with m have "f n s = Done (s', r)" by (simp add: eff_bind_def sb_node_def)
    moreover have "a = d \<Longrightarrow> \<not> is_deleted n" using live Some by (simp add: live_def)
    ultimately show ?thesis using f [of n] live by blast
  qed
qed

lemma stays_bind:
  assumes "stays d m" "\<And>x. stays d (f x)"
  shows "stays d (eff_bind m f)"
  unfolding stays_def
proof (intro allI impI)
  fix s s' r assume m: "eff_bind m f s = Done (s', r)" and live: "live d s"
  show "live d s'"
  proof (cases "m s")
    case (Done x)
    obtain t y where x: "x = (t, y)" by (cases x)
    have t: "live d t" using assms(1) Done x live unfolding stays_def by blast
    show ?thesis
    proof (cases y)
      case (Inl e)
      with m Done x t show ?thesis by (simp add: eff_bind_def)
    next
      case (Inr z)
      with m Done x have "f z t = Done (s', r)" by (simp add: eff_bind_def)
      with assms(2) [of z] t show ?thesis unfolding stays_def by blast
    qed
  qed (use m in \<open>simp_all add: eff_bind_def\<close>)
qed

lemma stays_basic [simp]:
  "stays d (eff_gets g)" "stays d (eff_return x)" "stays d (eff_error e)" "stays d (eff_lift y)" "stays d (eff_run z)"
  "stays d (parse_name env name)"
  by (auto simp: stays_def eff_defs parse_name_def split: run.splits)

lemma stays_modify: "(\<And>s. sb_arena (g s) = sb_arena s) \<Longrightarrow> stays d (eff_modify g)"
  by (auto simp: stays_def live_def)

lemma stays_client_call [simp]: "stays d (client_call g)"
  by (auto simp: stays_def client_call_def live_def and_then_Done_iff)

lemma stays_set_state: "(a = d \<Longrightarrow> \<not> is_deleted n \<and> is_deleted (n\<lparr>in_sync := st\<rparr>) = is_deleted n) \<Longrightarrow> stays d (set_state a st)"
  by (auto simp: stays_def live_def set_state_def put_state_def is_deleted_def split: option.splits)

lemma stays_alloc: "\<not> is_deleted n \<Longrightarrow> stays d (alloc_inode n)"
  by (auto simp: stays_def live_def alloc_inode_def)

lemma stays_state: "(\<And>n. (a = d \<Longrightarrow> \<not> is_deleted n) \<Longrightarrow> stays d (f n)) \<Longrightarrow> stays d (eff_bind (get_inode_state a) f)"
  by (simp only: get_inode_state_def eff_flat, rule stays_node) simp

lemma stays_lock_all: "stays d (lock_all as)"
proof (induction as)
  case Nil
  show ?case by (simp only: lock_all.simps stays_basic)
next
  case (Cons a as)
  show ?case unfolding lock_all.simps by (rule stays_state) (rule Cons.IH)
qed

lemma stays_rename_in_source: "stays d (rename_in_source p a)"
  unfolding rename_in_source_def
  apply (rule stays_node)
  apply (rule stays_node)
  subgoal for p' n
    apply (cases "is_kind_data (in_sync p')"; simp only: kind_data.case)
     apply simp
    apply (rule stays_bind, simp)
    by (rule stays_set_state [where n = p']) (auto simp: is_deleted_def)
  done

lemma stays_clone: "stays d (try_clone_with_new_key env clk a key ttl j)"
  unfolding try_clone_with_new_key_def
  apply (rule stays_node)
  subgoal for n
    apply (cases "in_kind n \<noteq> File"; simp only: if_True if_False simp_thms)
     apply simp
    apply (rule stays_state, simp only: Let_def)
    apply (simp add: stays_def eff_bind_def alloc_inode_def live_def)
    by (auto simp: is_deleted_def inode_new_def kind_data_default_def)
  done

lemma stays_rename_in_destination: "stays d (rename_in_destination env clk p q a j name key)"
  unfolding rename_in_destination_def
  apply (rule stays_node)
  apply (rule stays_node)
  subgoal for p' q'
    apply (cases "is_kind_data (in_sync q')"; simp only: kind_data.case)
     apply simp
    apply (rule stays_bind, simp)
    apply (rule stays_bind, rule stays_clone)
    apply (rule stays_bind)
     apply (rule stays_set_state [where n = q'], simp add: is_deleted_def)
    apply (rule stays_node)
    by (rule stays_modify) (simp add: replace_or_insert_def)
  done

lemma stays_rename_remote: "stays d (rename_remote env clk p q a j name ow)"
  unfolding rename_remote_def
  apply (rule stays_node)
  apply (rule stays_node)
  apply (rule stays_bind, simp)
  subgoal for n q' nm
    apply (cases "new_child (in_key q') nm File"; simp only: sum.case)
     apply simp
    apply (rule stays_bind, simp)
    subgoal for key x
      apply (cases x, simp only: prod.case Let_def)
      apply (rule stays_bind, simp)
      subgoal for bucket src dst r
        apply (cases r; simp only: sum.case)
         apply (rule stays_bind)
          apply (simp add: stays_modify cache_rename_def split: option.split)
         apply (rule stays_bind, simp, simp)
        apply (rule stays_bind, rule stays_modify, simp add: cache_rename_def split: option.split)
        apply (rule stays_bind, rule stays_modify, simp)
        apply (rule stays_bind)
         apply (simp only: rename_lock_def)
         apply (rule stays_node)
         apply (rule stays_node)
         apply (rule stays_bind, simp)
         apply (rule stays_bind, simp)
         apply (rule stays_lock_all)
        apply (rule stays_bind, rule stays_rename_in_source)
        by (rule stays_rename_in_destination)
      done
    done
  done

lemma live_guard_keeps:
  assumes "(a, an) \<in> K" and m: "keeps env D K m" and "stays a m"
  shows "eff_ok (\<lambda>s. sb_inv env D K s \<and> live a s) (with_rename_guard a m) (\<lambda>_. sb_inv env D K) (keeps_err env D K)"
proof (rule eff_okI)
  fix s assume s: "sb_inv env D K s \<and> live a s"
  then obtain s' r where run: "m s = Done (s', r)" and r: "case r of Inl e \<Rightarrow> sane e \<and> sb_inv env D K s' | Inr _ \<Rightarrow> sb_inv env D K s'"
    using eff_okD [OF m] by blast
  have live: "live a s'" using assms(3) run s unfolding stays_def by blast
  have inv: "sb_inv env D K s'" using r by (auto split: sum.splits)
  obtain n where n: "sb_arena s' a = Some n" using sb_invD(3) [OF inv assms(1)] by (auto simp: snapshot_def)
  show "\<exists>s' r. with_rename_guard a m s = Done (s', r) \<and> (case r of Inl e \<Rightarrow> sane e \<and> sb_inv env D K s' | Inr x \<Rightarrow> sb_inv env D K s')"
  proof (cases r)
    case (Inr x)
    with run r show ?thesis by (simp add: with_rename_guard_def eff_bind_def eff_try_def)
  next
    case (Inl e)
    have inv': "sb_inv env D (insert (a, n) K) s'" using sb_inv_node [OF inv n] .
    have "eff_ok (sb_inv env D (insert (a, n) K)) (if is_write_status (in_sync n) = PendingRename
       then set_state a ((in_sync n)\<lparr>is_write_status := Remote\<rparr>) else eff_return ()) (\<lambda>_. sb_inv env D K) (keeps_err env D K)"
      by (rule eff_ok_pure_if, rule set_state_same [where n = n]) (auto intro: return_keeps)
    from eff_okD [OF this inv'] obtain s'' y where d: "(if is_write_status (in_sync n) = PendingRename
       then set_state a ((in_sync n)\<lparr>is_write_status := Remote\<rparr>) else eff_return ()) s' = Done (s'', Inr y)" "sb_inv env D K s''"
      by (cases "is_write_status (in_sync n) = PendingRename") (auto simp: set_state_def)
    have "drop_rename_guard a s' = Done (s'', Inr y)"
      using d(1) n live by (simp add: drop_rename_guard_def eff_bind_def eff_try_def get_inode_state_def sb_node_def live_def)
    with run Inl r d(2) show ?thesis by (simp add: with_rename_guard_def eff_bind_def eff_try_def)
  qed
qed

text \<open>A transition only succeeds on an inode that is not deleted.\<close>

lemma try_transition_live:
  assumes "(a, an) \<in> K"
  shows "eff_ok (sb_inv env D K) (try_transition a) (\<lambda>_ s. sb_inv env D K s \<and> live a s) (keeps_err env D K)"
proof (rule eff_okI)
  fix s assume inv: "sb_inv env D K s"
  obtain n where n: "sb_arena s a = Some n" using sb_invD(3) [OF inv assms] by (auto simp: snapshot_def)
  obtain s' r where run: "try_transition a s = Done (s', r)" and r: "case r of Inl e \<Rightarrow> sane e \<and> sb_inv env D K s' | Inr _ \<Rightarrow> sb_inv env D K s'"
    using eff_okD [OF try_transition_keeps [OF assms] inv] by blast
  have "live a s'" if "r = Inr x" for x
    using run n that by (auto simp: try_transition_def eff_bind_def get_inode_state_def sb_node_def set_state_def put_state_def live_def
        is_deleted_def split: if_splits)
  with run r show "\<exists>s' r. try_transition a s = Done (s', r) \<and>
    (case r of Inl e \<Rightarrow> sane e \<and> sb_inv env D K s' | Inr x \<Rightarrow> sb_inv env D K s' \<and> live a s')"
    by (auto split: sum.splits)
qed

lemma sb_rename_keeps:
  assumes "client_total env" and "i \<in> D" "j \<in> D"
  shows "keeps env D K (sb_rename env clk h h' i name j name' ow)"
  unfolding sb_rename_def
  apply (rule bind_gets)
  apply (rule eff_ok_pure_if)
  subgoal by (rule error_keeps) auto
  apply (rule bind_sb_get [OF subset_refl subset_refl])
  apply (rule bind_sb_get, blast, blast)
  apply (rule bind_gets)
  apply (rule bind_lookup [OF assms(1,2)], blast, blast)
  apply (simp only: Let_def)
  apply (rule bind_node [OF insertI1])
  apply (rule eff_ok_pure_if)
  subgoal by (rule error_keeps) auto
  subgoal premises prems for sup p pn q qn cached l m n
  proof -
    let ?K = "insert (li_inode l, n) (insert (q, qn) (insert (p, pn) K))"
    have dirp: "eff_ok (sb_inv env D ?K) M Q R" if "in_kind pn = Directory \<Longrightarrow> eff_ok (sb_inv env D ?K) M Q R" for M Q R
      by (rule know_dir [where a = p and n = pn]) (use assms(2) prems that in auto)
    have remote: "keeps env D (insert x ?K) (rename_remote env clk p q (li_inode l) j name' ow)" if "in_kind pn = Directory" for x
      by (rule rename_remote_keeps [OF assms(1), where pn = pn and qn = qn and an = n]) (use prems that in auto)
    have isf: "in_kind n = File" using prems by (cases "in_kind n") auto
    have over: "eff_ok (sb_inv env D (insert (d, dn) ?K)) (eff_bind (try_transition d) (\<lambda>_. with_rename_guard d
        (rename_remote env clk p q (li_inode l) j name' ow))) (\<lambda>_. sb_inv env D ?K) (keeps_err env D ?K)"
      if "in_kind pn = Directory" for d dn
      apply (rule eff_ok_weaken [OF eff_ok_bind [OF try_transition_live [OF insertI1]
        live_guard_keeps [OF insertI1 remote [OF that] stays_rename_remote]]])
      by (auto elim: sb_inv_weaken)
    show ?thesis
      apply (rule know_weaken [of _ D ?K])
        apply (rule dirp)
        apply (rule bind_more [where Ds = D and Ks = K])
           apply (rule try_transition_keeps [OF insertI1])
          apply blast
         apply blast
        apply (rule keeps_more [OF with_rename_guard_keeps [where K = ?K, OF insertI1 isf]])
            apply (rule bind_try_lookup [OF assms(1,3)])
      subgoal for u l2 n2
        apply (simp only: sum.case)
        apply (rule bind_node [OF insertI1])
        apply (rule eff_ok_pure_if)
         apply (rule error_value_keeps, simp, blast, blast)
        subgoal for dn
          by (rule eff_ok_weaken [OF over]) (auto elim: sb_inv_weaken)
        done
      subgoal for u e
        apply (simp only: sum.case)
        by (rule keeps_more [OF rename_remote_keeps [OF assms(1), where pn = pn and qn = qn and an = n and K = ?K]])
          (use prems in auto)
      by auto
  qed
  done

end
