(* ===== verification/Superblock_Frames.thy ===== *)
theory Superblock_Frames
  imports Superblock_Moves
begin

text \<open>
  What an operation of the superblock leaves alone. \<open>frame g m\<close>: whatever the outcome of \<open>m\<close>, the part \<open>g\<close> of the
  state is as before. The rules follow the structure of an operation.
\<close>

definition frame :: "('s \<Rightarrow> 'b) \<Rightarrow> ('s, 'e, 'a) eff \<Rightarrow> bool" where
  "frame g m \<longleftrightarrow> (\<forall>s s' r. m s = Done (s', r) \<longrightarrow> g s' = g s)"

named_theorems frame_intros

lemma frameD: "frame g m \<Longrightarrow> m s = Done (s', r) \<Longrightarrow> g s' = g s"
  by (auto simp: frame_def)

lemma frame_basic [frame_intros]:
  "frame g (eff_gets f)" "frame g (eff_return x)" "frame g (eff_error e)" "frame g (eff_lift y)" "frame g eff_panic"
  by (auto simp: frame_def)

lemma frame_run [frame_intros]: "frame g (eff_run z)"
  by (cases z) (auto simp: frame_def eff_run_def)

lemma frame_bind [frame_intros]:
  assumes "frame g m" "\<And>x. frame g (f x)"
  shows "frame g (eff_bind m f)"
  unfolding frame_def
proof (intro allI impI)
  fix s s' r assume run: "eff_bind m f s = Done (s', r)"
  show "g s' = g s"
  proof (cases "m s")
    case (Done x)
    obtain t y where x: "x = (t, y)" by (cases x)
    have t: "g t = g s" using assms(1) Done x by (auto simp: frame_def)
    show ?thesis
    proof (cases y)
      case (Inl e)
      with run Done x t show ?thesis by (simp add: eff_bind_def)
    next
      case (Inr z)
      with run Done x have "f z t = Done (s', r)" by (simp add: eff_bind_def)
      then have "g s' = g t" by (rule frameD [OF assms(2)])
      with t show ?thesis by simp
    qed
  qed (use run in \<open>simp_all add: eff_bind_def\<close>)
qed

lemma frame_try [frame_intros]: "frame g m \<Longrightarrow> frame g (eff_try m)"
  by (auto simp: frame_def eff_try_def and_then_Done_iff)

lemma frame_modify: "(\<And>s. g (h s) = g s) \<Longrightarrow> frame g (eff_modify h)"
  by (auto simp: frame_def)

lemma frame_cases [frame_intros]:
  "frame g m \<Longrightarrow> frame g m' \<Longrightarrow> frame g (if b then m else m')"
  "frame g m \<Longrightarrow> (\<And>y. frame g (f y)) \<Longrightarrow> frame g (case x of None \<Rightarrow> m | Some y \<Rightarrow> f y)"
  "(\<And>e. frame g (k e)) \<Longrightarrow> (\<And>y. frame g (f y)) \<Longrightarrow> frame g (case z of Inl e \<Rightarrow> k e | Inr y \<Rightarrow> f y)"
  "(\<And>y z. frame g (j y z)) \<Longrightarrow> frame g (case p of (y, z) \<Rightarrow> j y z)"
  "frame g m \<Longrightarrow> (\<And>ch w d. frame g (q ch w d)) \<Longrightarrow> frame g (case kd of FileData \<Rightarrow> m | DirectoryData ch w d \<Rightarrow> q ch w d)"
  "(\<And>e. frame g (k' e)) \<Longrightarrow> frame g m \<Longrightarrow> frame g (case ce of ServiceError e \<Rightarrow> k' e | OtherClientError \<Rightarrow> m)"
  "frame g m \<Longrightarrow> frame g (case he of HeadNotFound \<Rightarrow> m)"
  "frame g m \<Longrightarrow> frame g m' \<Longrightarrow> frame g (case we of ActiveWriter \<Rightarrow> m | ActiveReaders \<Rightarrow> m')"
  "frame g m \<Longrightarrow> frame g m' \<Longrightarrow> frame g (case md of ModeRead \<Rightarrow> m | ModeWrite \<Rightarrow> m')"
  "frame g m \<Longrightarrow> frame g m' \<Longrightarrow> frame g n \<Longrightarrow> frame g n' \<Longrightarrow>
     frame g (case ws of LocalUnopened \<Rightarrow> m | LocalOpenForWriting \<Rightarrow> m' | Remote \<Rightarrow> n | PendingRename \<Rightarrow> n')"
  by (auto split: option.split sum.split prod.split kind_data.split client_error.split head_object_error.split
      set_writer_error.split read_write_mode.split write_status.split)

lemma frame_node [frame_intros]: "frame g (sb_node a)"
  by (auto simp: frame_def sb_node_def split: option.splits)

lemma frame_state [frame_intros]: "frame g (get_inode_state a)"
  unfolding get_inode_state_def by (intro frame_intros)

lemma frame_get [frame_intros]: "frame g (sb_get env i)"
  unfolding sb_get_def by (intro frame_intros)

lemma frame_verify_child [frame_intros]: "frame g (verify_child env i name a)"
  unfolding verify_child_def by (intro frame_intros)

lemma frame_parse [frame_intros]: "frame g (parse_name env name)"
  unfolding parse_name_def by (intro frame_intros)

section \<open>The inode map\<close>

lemma frame_inodes_set_state [frame_intros]: "frame sb_inodes (set_state a st)"
  by (simp add: set_state_def frame_modify put_state_def)

lemma frame_inodes_alloc [frame_intros]: "frame sb_inodes (alloc_inode n)"
  by (auto simp: frame_def alloc_inode_def)

lemma frame_inodes_client [frame_intros]: "frame sb_inodes (client_call f)"
  by (auto simp: frame_def client_call_def and_then_Done_iff)

lemma frame_inodes_modify [frame_intros]:
  "frame sb_inodes (eff_modify (update_negative_cache env clk i name r))"
  "frame sb_inodes (eff_modify (\<lambda>sb. sb\<lparr>sb_open_handles := h sb\<rparr>))"
  "frame sb_inodes (eff_modify (\<lambda>sb. sb\<lparr>sb_next_ino := k sb\<rparr>))"
  "frame sb_inodes (eff_modify (\<lambda>sb. sb\<lparr>sb_negative_cache := l sb\<rparr>))"
  "frame sb_inodes (eff_modify (cache_rename b))"
  by (auto intro!: frame_modify simp: update_negative_cache_def cache_rename_def split: option.split)

lemma frame_inodes_lookup [frame_intros]: "frame sb_inodes (lookup_by_name env clk h i name allow)"
  unfolding lookup_by_name_def cache_lookup_def do_cache_lookup_def sb_remote_lookup_def remote_file_lookup_def
    remote_dir_lookup_def remote_directory_def remote_file_def update_from_remote_def try_update_fast_path_def update_slow_path_def
    create_remote_def create_inode_locked_def remove_writing_child_def Let_def
  apply (intro frame_intros)
  done

lemma frame_inodes_getattr [frame_intros]: "frame sb_inodes (getattr_with_inode env clk h i force)"
  unfolding getattr_with_inode_def by (intro frame_intros)

lemma frame_inodes_create [frame_intros]: "frame sb_inodes (create_inode_locked env p name kind st nw)"
  unfolding create_inode_locked_def Let_def by (intro frame_intros)

lemma frame_inodes_start [frame_intros]:
  "frame sb_inodes (start_reading a fh)" "frame sb_inodes (start_writing a mode tr fh)"
  unfolding start_reading_def start_writing_def setup_inode_for_writing_def truncate_stat_def by (intro frame_intros)+

lemma frame_inodes_walk [frame_intros]:
  "frame sb_inodes (collect_ancestors env fuel vs i)" "frame sb_inodes (lock_all as)" "frame sb_inodes (finish_ancestors as j)"
proof -
  show "frame sb_inodes (collect_ancestors env fuel vs i)"
  proof (induction fuel arbitrary: vs i)
    case 0
    show ?case by (simp add: frame_def)
  next
    case (Suc fuel)
    show ?case unfolding collect_ancestors.simps by (intro frame_intros Suc.IH)
  qed
  show "frame sb_inodes (lock_all as)"
  proof (induction as)
    case Nil
    show ?case unfolding lock_all.simps by (intro frame_intros)
  next
    case (Cons a as)
    show ?case unfolding lock_all.simps by (intro frame_intros Cons.IH)
  qed
  show "frame sb_inodes (finish_ancestors as j)"
  proof (induction as arbitrary: j)
    case Nil
    show ?case unfolding finish_ancestors.simps by (intro frame_intros)
  next
    case (Cons a as)
    show ?case unfolding finish_ancestors.simps by (intro frame_intros Cons.IH)
  qed
qed

lemma frame_inodes_ops [frame_intros]:
  "frame sb_inodes (sb_getattr env clk h i force)" "frame sb_inodes (sb_setattr env clk i atime mtime)"
  "frame sb_inodes (inc_file_size env i len)" "frame sb_inodes (finish_writing env clk i etag fh)"
  "frame sb_inodes (flush_reader env i fh)" "frame sb_inodes (flush_writer env i fh hook)" "frame sb_inodes (finish_reading env i fh)"
  "frame sb_inodes (try_reactivate_handle env i fh mode)" "frame sb_inodes (sb_unlink env clk h i name)" "frame sb_inodes (sb_rmdir env clk h i name)"
  unfolding sb_getattr_def into_lookup_def sb_setattr_def inc_file_size_def finish_writing_def finish_inode_def flush_reader_def flush_writer_def
    finish_reading_def try_reactivate_handle_def sb_unlink_def forget_unlinked_def sb_rmdir_def Let_def
  by (intro frame_intros)+

lemma frame_inodes_hooks:
  assumes "\<And>h. frame sb_inodes (await h)"
  shows "frame sb_inodes (open_handle env clk h await i fh mode flags)" "frame sb_inodes (release_writer env await i fh hook)"
  unfolding open_handle_def release_writer_def Let_def by (intro frame_intros assms)+

section \<open>Reference counts\<close>

text \<open>The number of references to an inode that the kernel holds.\<close>

definition refs :: "('m, 'c) superblock \<Rightarrow> nat \<Rightarrow> nat" where
  "refs s i = (case sb_inodes s i of None \<Rightarrow> 0 | Some (_, c) \<Rightarrow> c)"

lemma refs_cong: "sb_inodes s' = sb_inodes s \<Longrightarrow> refs s' = refs s"
  by (simp add: refs_def fun_eq_iff)

lemma bind_DoneE:
  assumes "eff_bind m f s = Done (s', Inr y)"
  obtains t x where "m s = Done (t, Inr x)" "f x t = Done (s', Inr y)"
proof (cases "m s")
  case (Done z)
  obtain t r where "z = (t, r)" by (cases z)
  with assms Done that show thesis by (cases r) (auto simp: eff_bind_def)
qed (use assms in \<open>simp_all add: eff_bind_def\<close>)

lemma bind_InlE:
  assumes "eff_bind m f s = Done (s', Inl e)"
  obtains "m s = Done (s', Inl e)" | t x where "m s = Done (t, Inr x)" "f x t = Done (s', Inl e)"
proof (cases "m s")
  case (Done z)
  obtain t r where "z = (t, r)" by (cases z)
  with assms Done that show thesis by (cases r) (auto simp: eff_bind_def)
qed (use assms in \<open>simp_all add: eff_bind_def\<close>)

lemma refs_increase: "refs (increase_lookup_count a n s) = (refs s)(in_ino n := Suc (refs s (in_ino n)))"
  by (auto simp: refs_def increase_lookup_count_def fun_eq_iff split: option.split)

lemma refs_decrease: "refs (fst (decrease_lookup_count i c s)) = (refs s)(i := refs s i - c)"
  by (auto simp: refs_def decrease_lookup_count_def fun_eq_iff split: option.split)

abbreviation lk_ino :: "lookup \<Rightarrow> nat" where
  "lk_ino lk \<equiv> ii_ino (lk_information lk)"

text \<open>One more reference to the inode that is returned, none on an error.\<close>

definition counted :: "(('m, 'c) superblock \<Rightarrow> nat \<Rightarrow> nat) \<Rightarrow> ('m, 'c, lookup) sb_op \<Rightarrow> bool" where
  "counted g m \<longleftrightarrow> (\<forall>s s' r. m s = Done (s', r) \<longrightarrow>
     g s' = (case r of Inl _ \<Rightarrow> g s | Inr lk \<Rightarrow> (g s)(lk_ino lk := Suc (g s (lk_ino lk)))))"

lemma counted_error: "counted g (eff_error e)"
  by (simp add: counted_def)

lemma counted_bind:
  assumes "frame sb_inodes m" "\<And>x. counted refs (f x)"
  shows "counted refs (eff_bind m f)"
  unfolding counted_def
proof (intro allI impI)
  fix s s' r assume run: "eff_bind m f s = Done (s', r)"
  show "refs s' = (case r of Inl _ \<Rightarrow> refs s | Inr lk \<Rightarrow> (refs s)(lk_ino lk := Suc (refs s (lk_ino lk))))"
  proof (cases r)
    case (Inl e)
    with run show ?thesis
      by (auto elim!: bind_InlE dest!: frameD [OF assms(1)] refs_cong simp: assms(2) [unfolded counted_def, rule_format])
  next
    case (Inr lk)
    with run show ?thesis
      by (auto elim!: bind_DoneE dest!: frameD [OF assms(1)] refs_cong simp: assms(2) [unfolded counted_def, rule_format])
  qed
qed

lemma counted_cases:
  "counted g m \<Longrightarrow> counted g m' \<Longrightarrow> counted g (if b then m else m')"
  "counted g m \<Longrightarrow> (\<And>y. counted g (f y)) \<Longrightarrow> counted g (case x of None \<Rightarrow> m | Some y \<Rightarrow> f y)"
  "counted g m \<Longrightarrow> (\<And>ch w d. counted g (q ch w d)) \<Longrightarrow> counted g (case kd of FileData \<Rightarrow> m | DirectoryData ch w d \<Rightarrow> q ch w d)"
  by (auto split: option.split kind_data.split)

lemma sb_lookup_counted: "counted refs (sb_lookup env clk h i name)"
  unfolding sb_lookup_def
  apply (rule counted_bind, intro frame_intros)
  apply (rule counted_bind, intro frame_intros)
  by (auto simp: counted_def eff_bind_def remember_def into_lookup_def sb_node_def lookup_new_def increase_lookup_count_def
      refs_increase [unfolded increase_lookup_count_def] split: option.splits)

lemma create_counted:
  "counted refs (eff_bind (sb_node a) (\<lambda>n. eff_bind (eff_gets (\<lambda>sb. lookup_of_inode sb n st)) (\<lambda>lk. eff_bind (remember a) (\<lambda>_. eff_return lk))))"
  by (auto simp: counted_def eff_bind_def remember_def lookup_of_inode_def sb_node_def lookup_new_def
      refs_increase split: option.splits)

lemma sb_create_counted: "counted refs (sb_create env clk h i name kind)"
  unfolding sb_create_def
  apply (rule counted_bind, intro frame_intros)
  apply (rule counted_bind, intro frame_intros)
  subgoal for cached r
    apply (cases r; simp only: sum.case)
    subgoal for e
      apply (cases e; simp only: inode_error.case counted_error)
      by (intro counted_bind counted_cases counted_error create_counted frame_intros)
    subgoal by (intro counted_bind counted_error frame_intros)
    done
  done

lemma sb_forget_refs:
  assumes "sb_forget i n s = Done (s', r)"
  shows "refs s' = (refs s)(i := refs s i - n)"
proof -
  obtain t out where dec: "decrease_lookup_count i n s = (t, out)" by fastforce
  have "sb_inodes s' = sb_inodes t"
  proof (cases "\<exists>a. out = Some (Some a)")
    case True
    then obtain a where out: "out = Some (Some a)" by blast
    have "frame sb_inodes (eff_bind (sb_node a) (\<lambda>removed. eff_bind (unlink_from_parent removed i) (\<lambda>_.
        eff_modify (\<lambda>sb. sb\<lparr>sb_open_handles := fst (remove_inode (sb_open_handles sb) i)\<rparr>))))"
      unfolding unlink_from_parent_def by (intro frame_intros)
    moreover have "eff_bind (sb_node a) (\<lambda>removed. eff_bind (unlink_from_parent removed i) (\<lambda>_.
        eff_modify (\<lambda>sb. sb\<lparr>sb_open_handles := fst (remove_inode (sb_open_handles sb) i)\<rparr>))) t = Done (s', r)"
      using assms dec out by (simp add: sb_forget_def eff_bind_def [of "eff_gets _"] eff_bind_def [of "eff_modify _"])
    ultimately show ?thesis by (rule frameD)
  next
    case False
    with assms dec show ?thesis
      by (auto simp: sb_forget_def eff_bind_def [of "eff_gets _"] eff_bind_def [of "eff_modify _"] split: option.splits)
  qed
  then show ?thesis using refs_decrease [of i n s] dec refs_cong by (metis fst_conv)
qed

end
