(* ===== verification/Remote_Lookup.thy ===== *)
theory Remote_Lookup
  imports Superblock_Frames
begin

text \<open>
  The superblock over the in-memory client: a lookup in the bucket returns what the bucket holds, with a
  directory in front of an object of the same name.
\<close>

section \<open>The in-memory client as the superblock's client\<close>

definition service :: "'c \<times> ('e + 'a) \<Rightarrow> ('c \<times> ('e client_error + 'a)) run" where
  "service r = Done (fst r, case snd r of Inl e \<Rightarrow> Inl (ServiceError e) | Inr x \<Rightarrow> Inr x)"

definition mock_ops :: "(nat \<Rightarrow> string list \<Rightarrow> string list) \<Rightarrow> mock_client object_client" where
  "mock_ops shuffle =
     \<lparr>oc_head_object = (\<lambda>c bucket key. service (head_object c bucket key False)),
      oc_list_objects = (\<lambda>c bucket token delimiter max_keys pre.
        and_then (list_objects shuffle c bucket token delimiter max_keys pre) service),
      oc_rename_object = (\<lambda>c bucket src dst params. service (rename_object c bucket src dst params)),
      oc_delete_object = (\<lambda>c bucket key. service (delete_object c bucket key))\<rparr>"

lemma unordered_first_page:
  assumes "\<forall>ks. set (shuffle seed ks) = set ks"
  shows "\<exists>r. list_objects_unordered shuffle c None d mx pre seed = Done r"
proof -
  let ?ks = "take mx (shuffle seed (filter (\<lambda>k. starts_with k pre) (RBT.keys (mc_objects c))))"
  have "set ?ks \<subseteq> set (RBT.keys (mc_objects c))"
    using set_take_subset [of mx "shuffle seed (filter (\<lambda>k. starts_with k pre) (RBT.keys (mc_objects c)))"] assms by auto
  from unordered_loop_ok [OF this, of "delimiter_option d" pre "[]" "[]"] show ?thesis
    by (auto simp: list_objects_unordered_def Let_def)
qed

lemma mock_total:
  assumes "env_client env = mock_ops shuffle" and "\<forall>seed ks. set (shuffle seed ks) = set ks"
  shows "client_total env"
proof -
  have list: "\<exists>x. list_objects shuffle c b None dl mx k = Done x" for c b dl mx k
  proof (cases "mcc_unordered_list_seed (mc_config (inc_op_count OpListObjectsV2 c))")
    case None
    then show ?thesis by (simp add: list_objects_def Let_def)
  next
    case (Some seed)
    obtain r where "list_objects_unordered shuffle (inc_op_count OpListObjectsV2 c) None dl mx k seed = Done r"
      using unordered_first_page [of shuffle seed "inc_op_count OpListObjectsV2 c" dl mx k] assms(2) by blast
    with Some show ?thesis by (simp add: list_objects_def Let_def)
  qed
  have "\<exists>x. and_then (list_objects shuffle c b None dl mx k) service = Done x" for c b dl mx k
    using list [of c b dl mx k] by (auto simp: service_def)
  then show ?thesis using assms(1) by (simp add: client_total_def mock_ops_def service_def)
qed

section \<open>Listing for one key\<close>

lemma list_item_start: "starts_with (fst e) pre \<Longrightarrow> (case list_item d pre e of Inl cp \<Rightarrow> starts_with cp pre | Inr oi \<Rightarrow> starts_with (oi_key oi) pre)"
  by (auto simp: list_item_def object_info_of_def split: option.split prod.splits)

lemma found_directory_one:
  assumes "lo_objects r = rights (take 1 xs)" "lo_common_prefixes r = lefts (take 1 xs)"
    and "\<And>x. x \<in> set xs \<Longrightarrow> (case x of Inl cp \<Rightarrow> starts_with cp pre | Inr oi \<Rightarrow> starts_with (oi_key oi) pre)"
  shows "found_directory r pre \<longleftrightarrow> xs \<noteq> []"
proof (cases xs)
  case (Cons x ys)
  with assms(1,2) assms(3) [of x] show ?thesis by (cases x) (auto simp: found_directory_def)
qed (use assms in \<open>simp add: found_directory_def\<close>)

lemma found_ordered:
  "found_directory (list_objects_ordered c None d 1 pre) pre \<longleftrightarrow> (\<exists>k \<in> set (RBT.keys (mc_objects c)). starts_with k pre)"
proof -
  let ?es = "RBT.entries (mc_objects c)"
  let ?xs = "list_items (delimiter_option d) pre ?es"
  have es: "entries_from c (case None of None \<Rightarrow> [] | Some t \<Rightarrow> t) = ?es" by (simp add: entries_from_def)
  have "page_ok (delimiter_option d) 1 pre ?es (list_objects_ordered c None d 1 pre)"
    using list_page_ok [of 1 d pre c None] es by simp
  then have "found_directory (list_objects_ordered c None d 1 pre) pre \<longleftrightarrow> ?xs \<noteq> []"
    by (intro found_directory_one) (auto simp: page_ok_def list_items_mem dest: list_item_start)
  also have "\<dots> \<longleftrightarrow> (\<exists>e \<in> set ?es. starts_with (fst e) pre)" by (simp add: list_items_Nil_iff filter_empty_conv)
  also have "\<dots> \<longleftrightarrow> (\<exists>k \<in> set (RBT.keys (mc_objects c)). starts_with k pre)"
    by (force simp: RBT.keys_def_alt)
  finally show ?thesis .
qed

lemma found_unordered:
  assumes "\<forall>ks. set (shuffle seed ks) = set ks" and "list_objects_unordered shuffle c None d 1 pre seed = Done r"
  shows "found_directory r pre \<longleftrightarrow> (\<exists>k \<in> set (RBT.keys (mc_objects c)). starts_with k pre)"
proof -
  let ?ks = "shuffle seed (filter (\<lambda>k. starts_with k pre) (RBT.keys (mc_objects c)))"
  have set: "set ?ks = {k \<in> set (RBT.keys (mc_objects c)). starts_with k pre}" using assms(1) by auto
  show ?thesis
  proof (cases ?ks)
    case Nil
    with set have "\<not> (\<exists>k \<in> set (RBT.keys (mc_objects c)). starts_with k pre)" by auto
    with assms(2) Nil show ?thesis by (auto simp: list_objects_unordered_def found_directory_def)
  next
    case (Cons k ks)
    then have k: "k \<in> set (RBT.keys (mc_objects c))" "starts_with k pre" using set by auto
    then obtain ob where ob: "RBT.lookup (mc_objects c) k = Some ob" using RBT.lookup_keys [of "mc_objects c"] by auto
    show ?thesis
      using assms(2) Cons ob k
      by (cases "split_delimiter (delimiter_option d) (drop (length pre) k)")
        (auto simp: list_objects_unordered_def found_directory_def object_info_of_def)
  qed
qed

lemma mock_list_dir:
  assumes "\<forall>seed ks. set (shuffle seed ks) = set ks" and "bucket = mcc_bucket (mc_config c)"
  shows "\<exists>r. oc_list_objects (mock_ops shuffle) c bucket None ''/'' 1 pre = Done (inc_op_count OpListObjectsV2 c, Inr r) \<and>
    (found_directory r pre \<longleftrightarrow> (\<exists>k \<in> set (RBT.keys (mc_objects c)). starts_with k pre))"
proof (cases "mcc_unordered_list_seed (mc_config c)")
  case None
  then show ?thesis
    using assms(2) found_ordered [of "inc_op_count OpListObjectsV2 c" "''/''" pre]
    by (simp add: mock_ops_def list_objects_def Let_def service_def inc_op_count_def)
next
  case (Some seed)
  obtain r where r: "list_objects_unordered shuffle (inc_op_count OpListObjectsV2 c) None ''/'' 1 pre seed = Done r"
    using unordered_first_page [of shuffle seed "inc_op_count OpListObjectsV2 c" "''/''" 1 pre] assms(1) by blast
  with Some assms found_unordered [of shuffle seed "inc_op_count OpListObjectsV2 c" "''/''" pre r] show ?thesis
    by (simp add: mock_ops_def list_objects_def Let_def service_def inc_op_count_def)
qed

section \<open>What a lookup finds\<close>

text \<open>How the bucket shows at a path: directories shadow objects.\<close>

definition bucket_view :: "mock_client \<Rightarrow> string \<Rightarrow> inode_kind option" where
  "bucket_view c path =
     (if \<exists>k \<in> set (RBT.keys (mc_objects c)). starts_with k (path @ ''/'') then Some Directory
      else if RBT.lookup (mc_objects c) path \<noteq> None then Some File else None)"

definition file_stat_of :: "clock \<Rightarrow> nat \<Rightarrow> mock_object \<Rightarrow> inode_stat" where
  "file_stat_of clk ttl ob =
     stat_for_file clk (mo_size ob) (mo_last_modified ob) (Some (mo_etag ob)) (mo_storage_class ob) (mo_restore_status ob) ttl"

lemma sb_get_found:
  assumes "sb_ok env s" "sb_inodes s i = Some (a, cnt)"
  shows "sb_get env i s = Done (s, Inr a)"
proof -
  obtain n where n: "sb_arena s a = Some n" "in_ino n = i" using sb_okD(5) [OF assms] by blast
  have "verify_inode (env_crc env) (sb_prefix s) i n = Inr ()"
    using sb_okD(2) [OF assms(1) n(1)] n(2) by (simp add: verify_inode_def header_ok_def)
  with assms(2) n show ?thesis by (simp add: sb_get_def eff_bind_def sb_node_def)
qed

lemma mock_file_lookup:
  assumes "env_client env = mock_ops shuffle" "mcc_bucket (mc_config (sb_client s)) = sp_bucket (sb_s3_path s)"
  shows "remote_file_lookup env clk key s =
    Done (s\<lparr>sb_client := inc_op_count OpHeadObject (sb_client s)\<rparr>,
      Inr (map_option (file_stat_of clk (validity_of s File)) (RBT.lookup (mc_objects (sb_client s)) key)))"
  using assms
  by (cases "RBT.lookup (mc_objects (sb_client s)) key")
    (simp_all add: remote_file_lookup_def eff_bind_def client_call_def mock_ops_def head_object_def service_def inc_op_count_def
      file_stat_of_def validity_of_def)

lemma mock_dir_lookup:
  assumes "env_client env = mock_ops shuffle" "\<forall>seed ks. set (shuffle seed ks) = set ks"
    "mcc_bucket (mc_config (sb_client s)) = sp_bucket (sb_s3_path s)"
  shows "remote_dir_lookup env key pre s =
    Done (s\<lparr>sb_client := inc_op_count OpListObjectsV2 (sb_client s)\<rparr>,
      Inr (\<exists>k \<in> set (RBT.keys (mc_objects (sb_client s))). starts_with k pre))"
  using mock_list_dir [OF assms(2) assms(3) [symmetric], of pre] assms(1)
  by (auto simp: remote_dir_lookup_def eff_bind_def client_call_def)

lemma remote_lookup_mock:
  assumes "env_client env = mock_ops shuffle" and "\<forall>seed ks. set (shuffle seed ks) = set ks"
    and "mcc_bucket (mc_config (sb_client s)) = sp_bucket (sb_s3_path s)"
    and "sb_ok env s" "sb_inodes s i = Some (a, cnt)" "sb_arena s a = Some p" "vk_kind (full_key_for_inode s p) = Directory"
    and path: "path = vk_key (full_key_for_inode s p) @ name"
  shows "\<exists>s' r. sb_remote_lookup env clk h i name s = Done (s', Inr r) \<and>
    map_option rl_kind r = bucket_view (sb_client s) path \<and>
    (\<forall>rl ob. r = Some rl \<and> rl_kind rl = File \<and> RBT.lookup (mc_objects (sb_client s)) path = Some ob \<longrightarrow>
       st_size (rl_stat rl) = mo_size ob \<and> st_etag (rl_stat rl) = Some (mo_etag ob)) \<and>
    mc_objects (sb_client s') = mc_objects (sb_client s)"
proof -
  have key: "new_child (full_key_for_inode s p) name Directory =
      Inr \<lparr>vk_key = path @ ''/'', vk_name_offset = length (vk_key (full_key_for_inode s p))\<rparr>"
    using assms(7) path by (simp add: new_child_def)
  have bl: "butlast (path @ ''/'') = path" by simp
  let ?found = "\<exists>k \<in> set (RBT.keys (mc_objects (sb_client s))). starts_with k (path @ ''/'')"
  let ?s1 = "s\<lparr>sb_client := inc_op_count OpHeadObject (sb_client s)\<rparr>"
  let ?s2 = "s\<lparr>sb_client := inc_op_count OpListObjectsV2 (sb_client s)\<rparr>"
  have objs: "mc_objects (inc_op_count q c) = mc_objects c" "mc_config (inc_op_count q c) = mc_config c" for q c
    by (simp_all add: inc_op_count_def)
  note parts = mock_file_lookup [OF assms(1)] mock_dir_lookup [OF assms(1,2)]
  show ?thesis
    using sb_get_found [OF assms(4,5)] assms(3,6)
    by (cases h; cases ?found)
      (auto simp: sb_remote_lookup_def eff_bind_def sb_node_def key bl Let_def parts objs remote_directory_def remote_file_def bucket_view_def
        file_stat_of_def stat_for_file_def update_validity_def option.map_comp comp_def split: option.splits)
qed

end
