(* ===== verification/Superblock_Props.thy ===== *)
theory Superblock_Props
  imports Remote_Lookup
begin

text \<open>
  Properties of the superblock as a whole: the requests the file system sends it, the states they reach, and
  what holds there.
\<close>

section \<open>Requests\<close>

text \<open>
  The operations of the \<open>Metablock\<close> interface with their arguments; a Boolean tells which of two racing requests
  to the bucket completes first.
\<close>

datatype sb_request =
    ReqLookup bool nat string
  | ReqGetattr bool nat bool
  | ReqSetattr nat "nat option" "nat option"
  | ReqOpen bool nat nat write_mode "open_flag set"
  | ReqIncSize nat nat
  | ReqFinishWriting nat "string option" nat
  | ReqFlushReader nat nat
  | ReqFlushWriter nat nat nat
  | ReqFinishReading nat nat
  | ReqReleaseWriter nat nat nat
  | ReqReactivate nat nat read_write_mode
  | ReqCreate bool nat string inode_kind
  | ReqForget nat nat
  | ReqUnlink bool nat string
  | ReqRmdir bool nat string
  | ReqRename bool bool nat string nat string bool

abbreviation eff_discard :: "('s, 'e, 'a) eff \<Rightarrow> ('s, 'e, unit) eff" where
  "eff_discard m \<equiv> eff_bind m (\<lambda>_. eff_return ())"

fun sb_run :: "('m, 'c) sb_env \<Rightarrow> (nat \<Rightarrow> ('m, 'c, lookup option) sb_op) \<Rightarrow> clock \<Rightarrow> sb_request \<Rightarrow> ('m, 'c, unit) sb_op" where
  "sb_run env await clk (ReqLookup h i name) = eff_discard (sb_lookup env clk h i name)"
| "sb_run env await clk (ReqGetattr h i force) = eff_discard (sb_getattr env clk h i force)"
| "sb_run env await clk (ReqSetattr i atime mtime) = eff_discard (sb_setattr env clk i atime mtime)"
| "sb_run env await clk (ReqOpen h i fh mode flags) = eff_discard (open_handle env clk h await i fh mode flags)"
| "sb_run env await clk (ReqIncSize i len) = eff_discard (inc_file_size env i len)"
| "sb_run env await clk (ReqFinishWriting i etag fh) = eff_discard (finish_writing env clk i etag fh)"
| "sb_run env await clk (ReqFlushReader i fh) = flush_reader env i fh"
| "sb_run env await clk (ReqFlushWriter i fh hook) = eff_discard (flush_writer env i fh hook)"
| "sb_run env await clk (ReqFinishReading i fh) = finish_reading env i fh"
| "sb_run env await clk (ReqReleaseWriter i fh hook) = release_writer env await i fh hook"
| "sb_run env await clk (ReqReactivate i fh mode) = eff_discard (try_reactivate_handle env i fh mode)"
| "sb_run env await clk (ReqCreate h i name kind) = eff_discard (sb_create env clk h i name kind)"
| "sb_run env await clk (ReqForget i n) = sb_forget i n"
| "sb_run env await clk (ReqUnlink h i name) = sb_unlink env clk h i name"
| "sb_run env await clk (ReqRmdir h i name) = sb_rmdir env clk h i name"
| "sb_run env await clk (ReqRename h h' i name j name' ow) = sb_rename env clk h h' i name j name' ow"

text \<open>The kernel names only directories as parents.\<close>

fun req_parents :: "sb_request \<Rightarrow> nat set" where
  "req_parents (ReqLookup _ i _) = {i}"
| "req_parents (ReqCreate _ i _ _) = {i}"
| "req_parents (ReqUnlink _ i _) = {i}"
| "req_parents (ReqRmdir _ i _) = {i}"
| "req_parents (ReqRename _ _ i _ j _ _) = {i, j}"
| "req_parents _ = {}"

fun is_rmdir :: "sb_request \<Rightarrow> bool" where
  "is_rmdir (ReqRmdir _ _ _) = True"
| "is_rmdir _ = False"

definition valid_req :: "sb_request \<Rightarrow> ('m, 'c) superblock \<Rightarrow> bool" where
  "valid_req req s \<longleftrightarrow> (\<forall>i \<in> req_parents req. vfs_dir i s)"

text \<open>States reached from a fresh superblock by requests in any order.\<close>

inductive sb_reachable ::
  "('m, 'c) sb_env \<Rightarrow> (nat \<Rightarrow> ('m, 'c, lookup option) sb_op) \<Rightarrow> ('m, 'c) superblock \<Rightarrow> bool"
  for env :: "('m, 'c) sb_env" and await where
  init: "sb_reachable env await (superblock_new env clk mount_time client sp config)"
| step: "sb_reachable env await s \<Longrightarrow> valid_req req s \<Longrightarrow> sb_run env await clk req s = Done (s', r) \<Longrightarrow> sb_reachable env await s'"

text \<open>Waiting for an upload leaves the superblock in order, as the completion of an upload does.\<close>

definition hooks_safe :: "('m, 'c) sb_env \<Rightarrow> (nat \<Rightarrow> ('m, 'c, lookup option) sb_op) \<Rightarrow> bool" where
  "hooks_safe env await \<longleftrightarrow> (\<forall>D K h. keeps env D K (await h))"

lemma discard_keeps: "keeps env D K m \<Longrightarrow> keeps env D K (eff_discard m)"
  by (erule bind_more) (auto intro: return_keeps)

lemma superblock_new_ok: "sb_ok env (superblock_new env clk t c sp cfg)"
proof -
  let ?s = "superblock_new env clk t c sp cfg"
  let ?root = "inode_new_root (env_crc env) clk (sp_prefix sp) t"
  have arena: "sb_arena ?s = [0 \<mapsto> ?root]" "sb_prefix ?s = sp_prefix sp" "sb_next_ino ?s = 2"
    by (simp_all add: superblock_new_def sb_prefix_def Let_def)
  have root: "in_ino ?root = ROOT_INODE_NO" "in_parent ?root = ROOT_INODE_NO" "in_key ?root = vk_root" "in_kind ?root = Directory"
    "in_checksum ?root = inode_checksum (env_crc env) ROOT_INODE_NO (sp_prefix sp) (vk_key vk_root)"
    "is_kind_data (in_sync ?root) = DirectoryData Map.empty {} False"
    by (simp_all add: inode_new_root_def inode_new_def in_kind_def vk_root_def vk_kind_def kind_data_default_def)
  have dir: "vfs_dir ROOT_INODE_NO ?s" using root(1,4) by (auto simp: vfs_dir_def arena ROOT_INODE_NO_def split: if_splits)
  have "header_ok env ?s ?root"
    using root dir key_path.root by (auto simp: header_ok_def arena ROOT_INODE_NO_def)
  moreover have "kind_data_ok ?s ?root (is_kind_data (in_sync ?root))" using root by (simp add: kind_data_ok_def)
  ultimately show ?thesis
    using root(1) by (auto simp: sb_ok_def arena superblock_new_def Let_def split: if_splits)
qed

text \<open>What the superblock relies on: requests to the client return, and awaited uploads keep the superblock in order.\<close>

locale superblock_service =
  fixes env :: "('m, 'c) sb_env" and await :: "nat \<Rightarrow> ('m, 'c, lookup option) sb_op"
  assumes client_returns: "client_total env" and awaits_safe: "hooks_safe env await"
begin

lemma await_keeps: "keeps env D K (await h)"
  using awaits_safe by (simp add: hooks_safe_def)

lemmas op_keeps = sb_lookup_keeps [OF client_returns] sb_getattr_keeps [OF client_returns] sb_setattr_keeps
  open_handle_keeps [OF client_returns await_keeps] inc_file_size_keeps finish_writing_keeps flush_reader_keeps flush_writer_keeps
  finish_reading_keeps release_writer_keeps [OF await_keeps] try_reactivate_handle_keeps sb_create_keeps [OF client_returns]
  sb_forget_keeps sb_unlink_keeps [OF client_returns] sb_rename_keeps [OF client_returns]

lemma run_keeps:
  assumes "req_parents req \<subseteq> D" and "\<not> is_rmdir req"
  shows "keeps env D K (sb_run env await clk req)"
  by (insert assms, cases req; simp only: sb_run.simps is_rmdir.simps; (rule discard_keeps)?; (rule op_keeps)?; simp)

lemma run_inv:
  assumes "sb_ok env s" "valid_req req s" "sb_run env await clk req s = Done (s', r)"
  shows "sb_ok env s'"
proof -
  have inv: "sb_inv env (req_parents req) {} s" using assms(1,2) by (simp add: sb_inv_def valid_req_def)
  show ?thesis
  proof (cases "is_rmdir req")
    case True
    then obtain h i name where req: "req = ReqRmdir h i name" by (cases req) auto
    with sb_rmdir_keeps(1) [OF client_returns _ inv] assms(3) show ?thesis by (simp add: sb_inv_def)
  next
    case False
    then have "keeps env (req_parents req) {} (sb_run env await clk req)" by (intro run_keeps) auto
    from eff_okD [OF this inv] assms(3) show ?thesis by (auto simp: sb_inv_def split: sum.splits)
  qed
qed

lemma reachable_ok: "sb_reachable env await s \<Longrightarrow> sb_ok env s"
  by (induction rule: sb_reachable.induct) (auto intro: superblock_new_ok run_inv)

lemma request_safe:
  assumes "sb_reachable env await s" "valid_req req s" "\<not> is_rmdir req"
  shows "\<exists>s' r. sb_run env await clk req s = Done (s', r) \<and> sb_ok env s' \<and> (\<forall>i. r \<noteq> Inl (CorruptedMetadata i))"
proof -
  have inv: "sb_inv env (req_parents req) {} s" using reachable_ok [OF assms(1)] assms(2) by (simp add: sb_inv_def valid_req_def)
  from eff_okD [OF run_keeps [OF subset_refl assms(3)] inv] show ?thesis
    by (fastforce simp: sb_inv_def sane_def split: sum.splits)
qed

end

text \<open>The in-memory client provides it, with uploads completed by \<open>finish_writing\<close>.\<close>

definition mock_env :: "(bytes \<Rightarrow> u32) \<Rightarrow> ((neg_key \<times> nat) list, mock_client) sb_env" where
  "mock_env hash = \<lparr>env_crc = hash, env_lhm = list_map, env_utf8 = (\<lambda>_. True), env_client = mock_ops (\<lambda>_ ks. ks)\<rparr>"

definition complete_upload ::
  "('m, 'c) sb_env \<Rightarrow> clock \<Rightarrow> (nat \<Rightarrow> nat \<times> string option \<times> nat) \<Rightarrow> nat \<Rightarrow> ('m, 'c, lookup option) sb_op" where
  "complete_upload env clk uploads h = (case uploads h of (ino, etag, fh) \<Rightarrow>
     eff_bind (finish_writing env clk ino etag fh) (\<lambda>l. eff_return (Some l)))"

interpretation mock: superblock_service "mock_env hash" "complete_upload (mock_env hash) clk uploads"
proof
  show "client_total (mock_env hash)" by (rule mock_total) (auto simp: mock_env_def)
  show "hooks_safe (mock_env hash) (complete_upload (mock_env hash) clk uploads)"
    unfolding hooks_safe_def complete_upload_def
    by (intro allI eff_ok_case_prod, rule bind_more [OF finish_writing_keeps subset_refl subset_refl], rule return_keeps) auto
qed

section \<open>Safety of all requests\<close>

text \<open>
  C4: In every state reached from a fresh superblock by any sequence of requests, every request other than
  \<open>rmdir\<close> returns: no panic, no endless walk, no report of corrupted metadata. It leaves the inodes well-formed:
  checksums intact, every directory entry an inode whose parent and key fit, the inode map consistent.
\<close>

theorem superblock_requests_safe:
  assumes "client_total env" "hooks_safe env await" and "sb_reachable env await s" "valid_req req s" "\<not> is_rmdir req"
  shows "\<exists>s' r. sb_run env await clk req s = Done (s', r) \<and> sb_ok env s' \<and> (\<forall>i. r \<noteq> Inl (CorruptedMetadata i))"
  using superblock_service.request_safe [OF superblock_service.intro [OF assms(1,2)] assms(3-5)] .

definition witness_sb :: "((neg_key \<times> nat) list, mock_client) superblock" where
  "witness_sb = superblock_new (mock_env (\<lambda>_. 0)) \<lparr>ck_now = 5, ck_system = 7\<rparr> 3 witness_bucket
     \<lparr>sp_bucket = mcc_bucket (mc_config witness_bucket), sp_prefix = \<lparr>pf_path = []\<rparr>\<rparr>
     \<lparr>sc_cache_config = cache_config_default, sc_list_ordered = True\<rparr>"

lemma witness_root: "vfs_dir 1 witness_sb"
  by (simp add: witness_sb_def superblock_new_def vfs_dir_def inode_new_root_def inode_new_def in_kind_def vk_kind_def vk_root_def)

theorem superblock_requests_safe_witness:
  "\<exists>s' r. sb_run (mock_env (\<lambda>_. 0)) (complete_upload (mock_env (\<lambda>_. 0)) \<lparr>ck_now = 5, ck_system = 7\<rparr> (\<lambda>h. (h, None, h)))
     \<lparr>ck_now = 8, ck_system = 9\<rparr> (ReqRename True False 1 ''b'' 1 ''c'' True) witness_sb = Done (s', r) \<and>
     sb_ok (mock_env (\<lambda>_. 0)) s' \<and> (\<forall>i. r \<noteq> Inl (CorruptedMetadata i))"
proof (rule superblock_requests_safe [OF mock.client_returns mock.awaits_safe])
  show "sb_reachable (mock_env (\<lambda>_. 0)) (complete_upload (mock_env (\<lambda>_. 0)) \<lparr>ck_now = 5, ck_system = 7\<rparr> (\<lambda>h. (h, None, h))) witness_sb"
    unfolding witness_sb_def by (rule sb_reachable.init)
  show "valid_req (ReqRename True False 1 ''b'' 1 ''c'' True) witness_sb"
    unfolding valid_req_def req_parents.simps using witness_root by blast
qed simp

section \<open>Order of locks\<close>

text \<open>The number of the inode at an address.\<close>

definition ino_at :: "('m, 'c) superblock \<Rightarrow> nat \<Rightarrow> nat" where
  "ino_at s a = (case sb_arena s a of None \<Rightarrow> 0 | Some n \<Rightarrow> in_ino n)"

text \<open>The result of the walk does not depend on the fuel, and it goes down in number.\<close>

lemma any_fuel:
  assumes "\<And>fuel vs. i \<le> fuel \<Longrightarrow> \<forall>v \<in> set vs. i < v \<Longrightarrow> collect_ancestors env (Suc fuel) vs i s = Done (s, r)"
  shows "\<forall>fuel vs. i < fuel \<longrightarrow> (\<forall>v \<in> set vs. i < v) \<longrightarrow> collect_ancestors env fuel vs i s = Done (s, r)"
proof (intro allI impI)
  fix fuel and vs :: "nat list" assume "i < fuel" "\<forall>v \<in> set vs. i < v"
  with assms [of "fuel - 1" vs] show "collect_ancestors env fuel vs i s = Done (s, r)"
    by (cases fuel) (simp_all del: collect_ancestors.simps)
qed

lemma collect_ancestors_pure:
  assumes "sb_ok env s" and "vfs_dir i s"
  shows "\<exists>r. (\<forall>fuel vs. i < fuel \<longrightarrow> (\<forall>v \<in> set vs. i < v) \<longrightarrow> collect_ancestors env fuel vs i s = Done (s, r)) \<and>
    (\<forall>as. r = Inr as \<longrightarrow> as \<noteq> [] \<and> ino_at s (hd as) = i \<and> sorted_wrt (\<lambda>a b. ino_at s b < ino_at s a) as)"
  using assms(2)
proof (induction i rule: less_induct)
  case (less i)
  show ?case
  proof (cases "sb_inodes s i")
    case None
    then show ?thesis
      by (intro exI [of _ "Inl (InodeDoesNotExist i)"] conjI any_fuel) (auto simp: sb_get_def eff_bind_def)
  next
    case (Some e)
    obtain a c where e: "sb_inodes s i = Some (a, c)" using Some by (cases e) auto
    obtain n where n: "sb_arena s a = Some n" "in_ino n = i" using sb_okD(5) [OF assms(1) e] by blast
    note get = sb_get_found [OF assms(1) e]
    have at: "ino_at s a = i" using n by (simp add: ino_at_def)
    have dir: "in_kind n = Directory" using less.prems n by (auto simp: vfs_dir_def)
    show ?thesis
    proof (cases "in_ino n = ROOT_INODE_NO \<or> is_deleted n \<or> is_write_status (in_sync n) = Remote")
      case True
      define r where "r = (if in_ino n = ROOT_INODE_NO then Inr [a] else if is_deleted n then Inl (InodeDoesNotExist i) else Inr [a])"
      have "collect_ancestors env (Suc fuel) vs i s = Done (s, r)" if "\<forall>v \<in> set vs. i < v" for fuel vs
        using that True n get by (auto simp: r_def eff_bind_def sb_node_def get_inode_state_def)
      moreover have "\<forall>as. r = Inr as \<longrightarrow> as \<noteq> [] \<and> ino_at s (hd as) = i \<and> sorted_wrt (\<lambda>a b. ino_at s b < ino_at s a) as"
        using at by (auto simp: r_def)
      ultimately show ?thesis by (intro exI [of _ r] conjI any_fuel)
    next
      case False
      have p: "in_parent n < i" "vfs_dir (in_parent n) s"
        using sb_okD(2) [OF assms(1) n(1)] False dir n(2) by (auto simp: header_ok_def)
      from less.IH [OF p] obtain r where
        r: "\<And>fuel vs. in_parent n < fuel \<Longrightarrow> \<forall>v \<in> set vs. in_parent n < v \<Longrightarrow> collect_ancestors env fuel vs (in_parent n) s = Done (s, r)"
        and as: "\<And>as. r = Inr as \<Longrightarrow> as \<noteq> [] \<and> ino_at s (hd as) = in_parent n \<and> sorted_wrt (\<lambda>a b. ino_at s b < ino_at s a) as"
        by blast
      define q where "q = map_sum id (\<lambda>as. a # as) r"
      have "collect_ancestors env (Suc fuel) vs i s = Done (s, q)" if "i \<le> fuel" "\<forall>v \<in> set vs. i < v" for fuel vs
      proof -
        have "collect_ancestors env fuel (i # vs) (in_parent n) s = Done (s, r)"
          by (rule r) (use that p(1) in auto)
        with that(2) False n get show ?thesis
          by (cases r) (auto simp: q_def eff_bind_def sb_node_def get_inode_state_def)
      qed
      moreover have "as \<noteq> [] \<and> ino_at s (hd as) = i \<and> sorted_wrt (\<lambda>a b. ino_at s b < ino_at s a) as" if q: "q = Inr as" for as
      proof -
        obtain bs where bs: "r = Inr bs" "as = a # bs" using q by (cases r) (auto simp: q_def)
        with as [OF bs(1)] p(1) at show ?thesis by (cases bs) auto
      qed
      ultimately show ?thesis by (intro exI [of _ q] conjI any_fuel) blast+
    qed
  qed
qed

text \<open>
  C10: The walk over the ancestors of an inode whose upload completes ends: with any fuel above the parent's number it
  returns the same outcome and never meets a number twice (the assertion against cycles holds). The
  superblock passes such a fuel.
\<close>

theorem ancestor_walk_terminates:
  assumes "client_total env" "hooks_safe env await" and "sb_reachable env await s" and "sb_arena s a = Some n"
  shows "in_parent n < sb_next_ino s \<and> (\<exists>r. \<forall>fuel > in_parent n. collect_ancestors env fuel [] (in_parent n) s = Done (s, r))"
proof -
  have ok: "sb_ok env s" by (rule superblock_service.reachable_ok [OF superblock_service.intro [OF assms(1,2)] assms(3)])
  then have "vfs_dir (in_parent n) s" using sb_okD(2) [OF ok assms(4)] by (simp add: header_ok_def)
  with collect_ancestors_pure [OF ok this] show ?thesis by (auto simp: vfs_dir_def)
qed

lemma witness_sb_reachable:
  "sb_reachable (mock_env (\<lambda>_. 0)) (complete_upload (mock_env (\<lambda>_. 0)) \<lparr>ck_now = 5, ck_system = 7\<rparr> (\<lambda>h. (h, None, h))) witness_sb"
  unfolding witness_sb_def by (rule sb_reachable.init)

definition witness_root_inode :: inode where
  "witness_root_inode = inode_new_root (\<lambda>_. 0) \<lparr>ck_now = 5, ck_system = 7\<rparr> \<lparr>pf_path = []\<rparr> 3"

lemma witness_arena: "sb_arena witness_sb 0 = Some witness_root_inode" "sb_inodes witness_sb 1 = Some (0, 1)"
  by (simp_all add: witness_sb_def superblock_new_def witness_root_inode_def mock_env_def Let_def ROOT_INODE_NO_def)

lemma witness_root_simps: "in_parent witness_root_inode = 1" "in_ino witness_root_inode = 1" "in_kind witness_root_inode = Directory"
  "in_key witness_root_inode = vk_root"
  by (simp_all add: witness_root_inode_def inode_new_root_def inode_new_def ROOT_INODE_NO_def in_kind_def vk_kind_def vk_root_def)

theorem ancestor_walk_terminates_witness:
  "\<exists>r. \<forall>fuel > 1. collect_ancestors (mock_env (\<lambda>_. 0)) fuel [] 1 witness_sb = Done (witness_sb, r)"
  using ancestor_walk_terminates [OF mock.client_returns mock.awaits_safe witness_sb_reachable witness_arena(1)]
  unfolding witness_root_simps by blast

lemma ancestor_is_older:
  assumes "sb_ok env s" and "dst_is_ancestor fuel s n dst = Done True" and "sb_arena s a = Some n" "in_kind n = Directory"
  shows "dst \<le> in_ino n"
  using assms(2-)
proof (induction fuel arbitrary: a n)
  case (Suc fuel)
  show ?case
  proof (cases "in_ino n = ROOT_INODE_NO \<or> in_ino n = dst")
    case True
    with Suc.prems(1) show ?thesis by (auto split: if_splits)
  next
    case False
    with Suc.prems(1) obtain b c m where m: "sb_inodes s (in_parent n) = Some (b, c)" "sb_arena s b = Some m"
      "dst_is_ancestor fuel s m dst = Done True" by (auto split: option.splits)
    have "in_ino m = in_parent n" using sb_okD(5) [OF assms(1) m(1)] m(2) by auto
    moreover have "in_parent n < in_ino n" "vfs_dir (in_parent n) s"
      using sb_okD(2) [OF assms(1) Suc.prems(2)] Suc.prems(3) False by (auto simp: header_ok_def)
    ultimately show ?thesis using Suc.IH [OF m(3,2)] m(2) by (force simp: vfs_dir_def)
  qed
qed simp



section \<open>The fast path\<close>

lemma fast_path_agrees:
  "eff_bind (try_update_fast_path a name remote) (\<lambda>r. case r of Some l \<Rightarrow> eff_return l | None \<Rightarrow> update_slow_path env clk a name remote) s
    = update_slow_path env clk a name remote s"
proof (cases "sb_arena s a")
  case None
  then show ?thesis by (simp add: try_update_fast_path_def update_slow_path_def get_inode_state_def eff_bind_def sb_node_def)
next
  case (Some p)
  note p = this
  show ?thesis
  proof (cases "is_deleted p \<or> is_kind_data (in_sync p) = FileData")
    case True
    with p show ?thesis
      by (auto simp: try_update_fast_path_def update_slow_path_def get_inode_state_def eff_bind_def sb_node_def)
  next
    case False
    note live = this
    then obtain ch w d where kd: "is_kind_data (in_sync p) = DirectoryData ch w d" by (cases "is_kind_data (in_sync p)") auto
    show ?thesis
    proof (cases "remote \<noteq> None \<and> ch name \<noteq> None")
      case False
      with p kd live show ?thesis
        by (cases remote; cases "ch name")
          (auto simp: try_update_fast_path_def update_slow_path_def get_inode_state_def eff_bind_def sb_node_def)
    next
      case True
      then obtain rl b where rb: "remote = Some rl" "ch name = Some b" by auto
      show ?thesis
      proof (cases "sb_arena s b")
        case None
        with p kd rb live show ?thesis
          by (simp add: try_update_fast_path_def update_slow_path_def get_inode_state_def eff_bind_def sb_node_def)
      next
        case (Some n)
        with p kd rb live show ?thesis
          by (auto simp: try_update_fast_path_def update_slow_path_def get_inode_state_def eff_bind_def sb_node_def Let_def set_state_def
              looked_up_def put_state_def)
      qed
    qed
  qed
qed

lemma update_from_remote_slow:
  "update_from_remote env clk parent_ino name remote =
     eff_bind (sb_get env parent_ino) (\<lambda>a. eff_bind (sb_node a) (\<lambda>p.
       if in_kind p \<noteq> Directory then eff_error (NotADirectory (inode_err p))
       else eff_bind (eff_modify (update_negative_cache env clk parent_ino name remote)) (\<lambda>_. update_slow_path env clk a name remote)))"
proof -
  have "eff_bind (try_update_fast_path a name remote) (\<lambda>r. case r of Some l \<Rightarrow> eff_return l | None \<Rightarrow> update_slow_path env clk a name remote)
    = update_slow_path env clk a name remote" for a
    by (rule ext) (rule fast_path_agrees)
  then show ?thesis by (simp only: update_from_remote_def)
qed

text \<open>
  C8: The fast path of an update from the remote (which only takes a read lock on the directory) is an optimisation
  only: trying it first gives the same result and the same state as the slow path alone, in every state, errors
  included.
\<close>

theorem fast_path_equivalent:
  "update_from_remote env clk parent_ino name remote =
     eff_bind (sb_get env parent_ino) (\<lambda>a. eff_bind (sb_node a) (\<lambda>p.
       if in_kind p \<noteq> Directory then eff_error (NotADirectory (inode_err p))
       else eff_bind (eff_modify (update_negative_cache env clk parent_ino name remote)) (\<lambda>_. update_slow_path env clk a name remote)))"
  by (rule update_from_remote_slow)

section \<open>Local files stay visible\<close>

lemma create_inode_locked_run:
  assumes "sb_arena s pa = Some p" "is_kind_data (in_sync p) = DirectoryData ch w d" "ch name = None"
    and run: "create_inode_locked env pa name kind st True s = Done (u, Inr a)"
  obtains n where "a = sb_next_address s" "in_ino n = sb_next_ino s" "in_sync n = st" "in_parent n = in_ino p"
    "sb_arena u = ((sb_arena s)(a \<mapsto> n))(pa := map_option (in_sync_update (\<lambda>_. (in_sync p)\<lparr>is_kind_data :=
       DirectoryData (ch(name \<mapsto> a)) (insert (in_ino n) w) d\<rparr>)) (((sb_arena s)(a \<mapsto> n)) pa))"
    "sb_inodes u = sb_inodes s"
proof -
  obtain key where key: "new_child (in_key p) name kind = Inr key"
    using run assms(1) by (auto simp: create_inode_locked_def eff_bind_def sb_node_def split: sum.splits)
  show thesis
    by (rule that [of "inode_new (env_crc env) (sb_next_ino s) (in_ino p) key (sb_prefix s) st"])
      (use run assms key in \<open>auto simp: create_inode_locked_def eff_bind_def sb_node_def alloc_inode_def set_state_def put_state_def
        inode_new_def sb_prefix_def\<close>)
qed

text \<open>What a successful creation leaves behind.\<close>

lemma sb_create_run:
  assumes ok: "sb_ok env s" and total: "client_total env" and dir: "vfs_dir i s"
    and run: "sb_create env clk h i name kind s = Done (s', Inr lk)"
  obtains pa p ch w d a n c where "sb_inodes s' i = Some (pa, c)" "sb_arena s' pa = Some p" "is_kind_data (in_sync p) = DirectoryData ch w d"
    "\<not> d" "ch name = Some a" "sb_arena s' a = Some n" "in_ino n \<in> w" "lk_ino lk = in_ino n" "\<not> is_deleted n" "in_kind p = Directory"
proof -
  let ?new = "\<lambda>name parent p. eff_bind (eff_gets (\<lambda>sb. case kind of
        File \<Rightarrow> stat_for_file clk 0 (ck_system clk) None None None (validity_of sb File)
      | Directory \<Rightarrow> stat_for_directory clk (sb_mount_time sb) (validity_of sb Directory))) (\<lambda>st.
    eff_bind (create_inode_locked env parent name kind (inode_state_new st kind LocalUnopened) True) (\<lambda>a.
    eff_bind (sb_node a) (\<lambda>n. eff_bind (eff_gets (\<lambda>sb. lookup_of_inode sb n st)) (\<lambda>lk. eff_bind (remember a) (\<lambda>_. eff_return lk)))))"
  have inv: "sb_inv env {i} {} s" using ok dir by (simp add: sb_inv_def)
  obtain t existing where t: "lookup_by_name env clk h i name (serve_from_cache s) s = Done (t, existing)"
    and te: "case existing of Inl e \<Rightarrow> sane e \<and> sb_inv env {i} {} t | Inr l \<Rightarrow> looked_ok env {i} {} i name l t"
    using eff_okD [OF lookup_by_name_keeps [OF total, of i "{i}" "{}" clk h name "serve_from_cache s"] inv] by auto
  have tinv: "sb_inv env {i} {} t" using te by (auto simp: looked_ok_def split: sum.splits elim: sb_inv_weaken)
  have tok: "sb_ok env t" and tdir: "vfs_dir i t" using tinv by (simp_all add: sb_inv_def)
  have parsed: "name_parsed (parse_os_str (env_utf8 env) name) \<noteq> Inr y" if "y \<noteq> name" for y
    using that by (auto simp: parse_os_str_def parse_str_eq name_parsed_def)
  obtain e1 e2 where existing: "existing = Inl (FileDoesNotExist e1 e2)"
    using run t by (cases existing) (auto simp: sb_create_def eff_bind_def eff_try_def sb_node_def split: inode_error.splits option.splits)
  have "name_parsed (parse_os_str (env_utf8 env) name) = Inr name"
    using run t existing parsed
    by (cases "name_parsed (parse_os_str (env_utf8 env) name)") (auto simp: sb_create_def eff_bind_def eff_try_def parse_name_def)
  with run t existing have run1: "eff_bind (sb_get env i) (\<lambda>parent. eff_bind (get_inode_state parent) (\<lambda>p. case is_kind_data (in_sync p) of
      FileData \<Rightarrow> eff_error (NotADirectory (inode_err p))
    | DirectoryData children _ _ \<Rightarrow> (case children name of
        Some b \<Rightarrow> eff_bind (sb_node b) (\<lambda>n. eff_error (FileAlreadyExists (inode_err n)))
      | None \<Rightarrow> ?new name parent p))) t = Done (s', Inr lk)"
    by (simp add: sb_create_def eff_bind_def [of "eff_gets _"] eff_bind_def [of "eff_try _"] eff_bind_def [of "parse_name _ _"] eff_try_def parse_name_def)
  then obtain pa c where pa: "sb_inodes t i = Some (pa, c)"
    by (auto simp: sb_get_def eff_bind_def split: option.splits)
  obtain p where p: "sb_arena t pa = Some p" "in_ino p = i" using sb_okD(5) [OF tok pa] by blast
  from run1 have run2: "eff_bind (get_inode_state pa) (\<lambda>p. case is_kind_data (in_sync p) of
      FileData \<Rightarrow> eff_error (NotADirectory (inode_err p))
    | DirectoryData children _ _ \<Rightarrow> (case children name of
        Some b \<Rightarrow> eff_bind (sb_node b) (\<lambda>n. eff_error (FileAlreadyExists (inode_err n)))
      | None \<Rightarrow> ?new name pa p)) t = Done (s', Inr lk)"
    by (simp add: eff_bind_def [of "sb_get _ _"] sb_get_found [OF tok pa])
  then have live: "\<not> is_deleted p" using p by (auto simp: eff_bind_def get_inode_state_def sb_node_def)
  obtain ch w d where kd1: "is_kind_data (in_sync p) = DirectoryData ch w d"
    using run2 p(1) live by (cases "is_kind_data (in_sync p)") (auto simp: eff_bind_def get_inode_state_def sb_node_def)
  have run2': "(case ch name of Some b \<Rightarrow> eff_bind (sb_node b) (\<lambda>n. eff_error (FileAlreadyExists (inode_err n))) | None \<Rightarrow> ?new name pa p) t
      = Done (s', Inr lk)"
    using run2 p(1) live kd1 by (simp add: eff_bind_def [of "get_inode_state _"] get_inode_state_def eff_bind_def [of "sb_node pa"] sb_node_def)
  have none: "ch name = None"
  proof (cases "ch name")
    case (Some b)
    with run2' show ?thesis by (auto elim: bind_DoneE)
  qed
  with run2' have run3: "?new name pa p t = Done (s', Inr lk)" by simp
  note kd = kd1 none
  from run3 obtain st u a where cr: "create_inode_locked env pa name kind (inode_state_new st kind LocalUnopened) True t = Done (u, Inr a)"
    and run4: "eff_bind (sb_node a) (\<lambda>n. eff_bind (eff_gets (\<lambda>sb. lookup_of_inode sb n st)) (\<lambda>lk. eff_bind (remember a) (\<lambda>_. eff_return lk))) u = Done (s', Inr lk)"
    by (elim bind_DoneE) auto
  from create_inode_locked_run [OF p(1) kd cr] obtain n where
    n: "a = sb_next_address t" "in_ino n = sb_next_ino t" "in_sync n = inode_state_new st kind LocalUnopened"
    "sb_arena u = ((sb_arena t)(a \<mapsto> n))(pa := map_option (in_sync_update (\<lambda>_. (in_sync p)\<lparr>is_kind_data :=
       DirectoryData (ch(name \<mapsto> a)) (insert (in_ino n) w) d\<rparr>)) (((sb_arena t)(a \<mapsto> n)) pa))"
    "sb_inodes u = sb_inodes t" by metis
  have "pa < sb_next_address t" using sb_okD(1) [OF tok p(1)] .
  then have ne: "pa \<noteq> a" using n(1) by simp
  let ?p = "p\<lparr>in_sync := (in_sync p)\<lparr>is_kind_data := DirectoryData (ch(name \<mapsto> a)) (insert (in_ino n) w) d\<rparr>\<rparr>"
  have ar: "sb_arena u pa = Some ?p" "sb_arena u a = Some n" using n(4) ne p(1) by simp_all
  have s': "s' = increase_lookup_count a n u" "lk_ino lk = in_ino n"
    using run4 ar(2) by (auto simp: eff_bind_def sb_node_def remember_def lookup_of_inode_def lookup_new_def)
  have "i \<noteq> in_ino n" using tdir n(2) by (auto simp: vfs_dir_def)
  then have "sb_inodes s' i = Some (pa, c)" using pa n(5) s' by (simp add: increase_lookup_count_def)
  moreover have "sb_arena s' = sb_arena u" using s' by (simp add: increase_lookup_count_def)
  moreover have "in_kind ?p = Directory" using tdir p by (auto simp: vfs_dir_def in_kind_def)
  moreover have "\<not> is_deleted n" using n(3) by (cases kind) (auto simp: is_deleted_def inode_state_new_def kind_data_default_def)
  moreover have "\<not> d" using live kd by (simp add: is_deleted_def)
  ultimately show thesis using that [of pa c ?p "ch(name \<mapsto> a)" "insert (in_ino n) w" d a n] ar s'(2) by simp
qed


text \<open>An empty bucket, for a concrete run.\<close>

definition empty_bucket :: "unit object_client" where
  "empty_bucket =
     \<lparr>oc_head_object = (\<lambda>c _ _. Done (c, Inl (ServiceError HeadNotFound))),
      oc_list_objects = (\<lambda>c _ _ _ _ _. Done (c, Inr \<lparr>lo_objects = [], lo_common_prefixes = [], lo_next_continuation_token = None\<rparr>)),
      oc_rename_object = (\<lambda>c _ _ _ _. Done (c, Inl (ServiceError KeyNotFound))),
      oc_delete_object = (\<lambda>c _ _. Done (c, Inr ()))\<rparr>"

definition empty_env :: "((neg_key \<times> nat) list, unit) sb_env" where
  "empty_env = \<lparr>env_crc = (\<lambda>_. 0), env_lhm = list_map, env_utf8 = (\<lambda>_. True), env_client = empty_bucket\<rparr>"

definition empty_sb :: "((neg_key \<times> nat) list, unit) superblock" where
  "empty_sb = superblock_new empty_env \<lparr>ck_now = 5, ck_system = 7\<rparr> 3 () \<lparr>sp_bucket = ''bkt'', sp_prefix = \<lparr>pf_path = []\<rparr>\<rparr>
     \<lparr>sc_cache_config = cache_config_default, sc_list_ordered = True\<rparr>"

lemma empty_env_simps: "env_crc empty_env x = 0" "env_lhm empty_env = list_map" "env_utf8 empty_env n" "env_client empty_env = empty_bucket"
  by (simp_all add: empty_env_def)

lemma empty_total: "client_total empty_env"
  by (simp add: client_total_def empty_env_def empty_bucket_def)

lemma empty_sb_ok: "sb_ok empty_env empty_sb" "vfs_dir 1 empty_sb"
  unfolding empty_sb_def by (rule superblock_new_ok) (simp add: superblock_new_def vfs_dir_def inode_new_root_def inode_new_def in_kind_def vk_kind_def vk_root_def)

lemma empty_create:
  "\<exists>s' lk. sb_create empty_env \<lparr>ck_now = 8, ck_system = 9\<rparr> True 1 ''new'' File empty_sb = Done (s', Inr lk)"
  by (simp add: sb_create_def lookup_by_name_def sb_remote_lookup_def remote_file_lookup_def remote_dir_lookup_def
      remote_file_def remote_directory_def update_from_remote_def try_update_fast_path_def create_inode_locked_def
      sb_get_def get_inode_state_def sb_node_def eff_bind_def eff_try_def client_call_def alloc_inode_def set_state_def put_state_def
      parse_name_def parse_os_str_def parse_str_def name_parsed_def verify_inode_def serve_from_cache_def cache_config_default_def
      empty_env_simps empty_bucket_def empty_sb_def superblock_new_def Let_def inode_new_root_def inode_new_def ROOT_INODE_NO_def
      inode_checksum_def full_key_for_inode_def full_key_def sb_prefix_def new_child_def vk_root_def vk_kind_def in_kind_def is_deleted_def
      kind_data_default_def found_directory_def update_negative_cache_def remember_def)


section \<open>References\<close>

fun counts_refs :: "sb_request \<Rightarrow> bool" where
  "counts_refs (ReqLookup _ _ _) = True"
| "counts_refs (ReqCreate _ _ _ _) = True"
| "counts_refs (ReqForget _ _) = True"
| "counts_refs (ReqRename _ _ _ _ _ _ _) = True"
| "counts_refs _ = False"

lemma sb_run_refs:
  assumes "\<And>h. frame sb_inodes (await h)" "\<not> counts_refs req"
  shows "frame sb_inodes (sb_run env await clk req)"
  by (insert assms(2), cases req; simp only: counts_refs.simps sb_run.simps simp_thms; intro frame_intros frame_inodes_hooks assms(1))



section \<open>Lookups show the bucket\<close>

text \<open>
  C6: Over the in-memory bucket, with listings in order or shuffled and whichever of the two racing requests
  completes first, a remote lookup of a name in a directory finds a directory exactly when some key continues the path
  after a slash, otherwise a file exactly when the path is a key (with that object's size and ETag), otherwise
  nothing. The bucket is not changed.
\<close>

theorem remote_lookup_shows_bucket:
  assumes "env_client env = mock_ops shuffle" and "\<forall>seed ks. set (shuffle seed ks) = set ks"
    and "mcc_bucket (mc_config (sb_client s)) = sp_bucket (sb_s3_path s)"
    and "sb_ok env s" "sb_inodes s i = Some (a, cnt)" "sb_arena s a = Some p" "vk_kind (full_key_for_inode s p) = Directory"
    and "path = vk_key (full_key_for_inode s p) @ name"
  shows "\<exists>s' r. sb_remote_lookup env clk head_first i name s = Done (s', Inr r) \<and>
    map_option rl_kind r = bucket_view (sb_client s) path \<and>
    (\<forall>rl ob. r = Some rl \<and> rl_kind rl = File \<and> RBT.lookup (mc_objects (sb_client s)) path = Some ob \<longrightarrow>
       st_size (rl_stat rl) = mo_size ob \<and> st_etag (rl_stat rl) = Some (mo_etag ob)) \<and>
    mc_objects (sb_client s') = mc_objects (sb_client s)"
  by (rule remote_lookup_mock [OF assms])

lemma witness_sb_client: "sb_client witness_sb = witness_bucket" "sb_s3_path witness_sb = \<lparr>sp_bucket = mcc_bucket (mc_config witness_bucket), sp_prefix = \<lparr>pf_path = []\<rparr>\<rparr>"
  by (simp_all add: witness_sb_def superblock_new_def Let_def)

theorem remote_lookup_shows_bucket_witness:
  "\<exists>s' r. sb_remote_lookup (mock_env (\<lambda>_. 0)) \<lparr>ck_now = 8, ck_system = 9\<rparr> True 1 ''a'' witness_sb = Done (s', Inr r) \<and>
     map_option rl_kind r = Some Directory"
proof -
  have key: "full_key_for_inode witness_sb witness_root_inode = vk_root"
    by (simp add: full_key_for_inode_def full_key_def sb_prefix_def witness_sb_client witness_root_simps vk_root_def)
  have view: "bucket_view (sb_client witness_sb) ''a'' = Some Directory"
    unfolding bucket_view_def witness_sb_client witness_bucket_keys by (simp add: starts_with_def)
  show ?thesis
    using remote_lookup_shows_bucket [where env = "mock_env (\<lambda>_. 0)" and shuffle = "\<lambda>_ ks. ks" and s = witness_sb and i = 1 and a = 0 and cnt = 1
        and p = witness_root_inode and path = "''a''" and name = "''a''" and clk = "\<lparr>ck_now = 8, ck_system = 9\<rparr>" and head_first = True]
      mock.reachable_ok [OF witness_sb_reachable] witness_arena key view
    by (auto simp: mock_env_def witness_sb_client vk_root_def vk_kind_def)
qed

end
