(* ===== verification/Readdir_Iter.thy ===== *)
theory Readdir_Iter
  imports Superblock_Props "HOL-Library.Product_Lexorder" "HOL-Library.AList"
begin

text \<open>
  The iterators behind \<open>readdir\<close> (\<open>superblock/readdir.rs\<close>): pages of the bucket's listing as one stream of remote
  entries, merged with the local entries of the directory, in name order or (for buckets that do not list in
  order) remote entries first.
\<close>

section \<open>Entries\<close>

text \<open>A local entry holds the looked-up inode and its name, which is part of the inode's immutable header.\<close>

datatype readdir_entry =
    RemotePrefix string
  | RemoteObject string object_info
  | LocalInode looked_up_inode string

datatype readdir_entry_kind = KindRemotePrefix | KindRemoteObject | KindLocalInode

fun re_name :: "readdir_entry \<Rightarrow> string" where
  "re_name (RemotePrefix name) = name"
| "re_name (RemoteObject name _) = name"
| "re_name (LocalInode _ name) = name"

fun re_kind :: "readdir_entry \<Rightarrow> readdir_entry_kind" where
  "re_kind (RemotePrefix _) = KindRemotePrefix"
| "re_kind (RemoteObject _ _) = KindRemoteObject"
| "re_kind (LocalInode _ _) = KindLocalInode"

text \<open>The derived order of the kinds is that of their declaration; entries compare by name, then kind.\<close>

fun kind_rank :: "readdir_entry_kind \<Rightarrow> nat" where
  "kind_rank KindRemotePrefix = 0"
| "kind_rank KindRemoteObject = 1"
| "kind_rank KindLocalInode = 2"

instantiation readdir_entry_kind :: linorder
begin

definition less_eq_readdir_entry_kind :: "readdir_entry_kind \<Rightarrow> readdir_entry_kind \<Rightarrow> bool" where
  "k \<le> k' \<longleftrightarrow> kind_rank k \<le> kind_rank k'"

definition less_readdir_entry_kind :: "readdir_entry_kind \<Rightarrow> readdir_entry_kind \<Rightarrow> bool" where
  "k < k' \<longleftrightarrow> kind_rank k < kind_rank k'"

instance
proof
  fix a b c :: readdir_entry_kind
  show "(a < b) = (a \<le> b \<and> \<not> b \<le> a)" by (auto simp: less_eq_readdir_entry_kind_def less_readdir_entry_kind_def)
  show "a \<le> a" by (simp add: less_eq_readdir_entry_kind_def)
  show "a \<le> b \<Longrightarrow> b \<le> c \<Longrightarrow> a \<le> c" by (simp add: less_eq_readdir_entry_kind_def)
  show "a \<le> b \<Longrightarrow> b \<le> a \<Longrightarrow> a = b" by (cases a; cases b) (simp_all add: less_eq_readdir_entry_kind_def)
  show "a \<le> b \<or> b \<le> a" by (auto simp: less_eq_readdir_entry_kind_def)
qed

end

definition re_key :: "readdir_entry \<Rightarrow> string \<times> readdir_entry_kind" where
  "re_key e = (re_name e, re_kind e)"

section \<open>Remote entries\<close>

datatype remote_iter_state = InProgress "string option" | Finished

record remote_iter =
  ri_entries :: "readdir_entry list"
  ri_bucket :: string
  ri_full_path :: string
  ri_page_size :: nat
  ri_state :: remote_iter_state
  ri_ordered :: bool

definition remote_iter_new :: "string \<Rightarrow> string \<Rightarrow> nat \<Rightarrow> bool \<Rightarrow> remote_iter" where
  "remote_iter_new bucket full_path page_size ordered =
     \<lparr>ri_entries = [], ri_bucket = bucket, ri_full_path = full_path, ri_page_size = page_size, ri_state = InProgress None,
      ri_ordered = ordered\<rparr>"

fun run_map :: "('a \<Rightarrow> 'b run) \<Rightarrow> 'a list \<Rightarrow> 'b list run" where
  "run_map f [] = Done []"
| "run_map f (x # xs) = and_then (f x) (\<lambda>y. and_then (run_map f xs) (\<lambda>ys. Done (y # ys)))"

text \<open>The names of an entry are slices of its key, which panic when out of range.\<close>

definition prefix_entry :: "string \<Rightarrow> string \<Rightarrow> readdir_entry run" where
  "prefix_entry full_path pre = and_then (checked_sub (length pre) 1) (\<lambda>n.
     and_then (str_slice pre (length full_path) n) (\<lambda>name. Done (RemotePrefix name)))"

definition object_entry :: "string \<Rightarrow> object_info \<Rightarrow> readdir_entry run" where
  "object_entry full_path ob =
     and_then (str_slice (oi_key ob) (length full_path) (length (oi_key ob))) (\<lambda>name. Done (RemoteObject name ob))"

definition page_entries :: "string \<Rightarrow> list_objects_result \<Rightarrow> readdir_entry list run" where
  "page_entries full_path result =
     and_then (run_map (prefix_entry full_path) (lo_common_prefixes result)) (\<lambda>ps.
     and_then (run_map (object_entry full_path) (lo_objects result)) (\<lambda>os. Done (ps @ os)))"

text \<open>Iterators run on the client's state and their own.\<close>

type_synonym ('c, 'i, 'a) iter_op = "('c \<times> 'i, inode_error, 'a) eff"

definition pop_entry :: "'c \<Rightarrow> remote_iter \<Rightarrow> (('c \<times> remote_iter) \<times> (inode_error + readdir_entry option)) run" where
  "pop_entry c it = (case ri_entries it of
     [] \<Rightarrow> Done ((c, it), Inr None)
   | e # es \<Rightarrow> Done ((c, it\<lparr>ri_entries := es\<rparr>), Inr (Some e)))"

definition remote_iter_next :: "'c object_client \<Rightarrow> ('c, remote_iter, readdir_entry option) iter_op" where
  "remote_iter_next oc = (\<lambda>(c, it).
     if ri_entries it = [] then
       (case ri_state it of
          Finished \<Rightarrow> Done ((c, it), Inr None)
        | InProgress token \<Rightarrow>
            let it = it\<lparr>ri_state := InProgress None\<rparr> in
            and_then (oc_list_objects oc c (ri_bucket it) token ''/'' (ri_page_size it) (ri_full_path it)) (\<lambda>(c, r). case r of
              Inl _ \<Rightarrow> Done ((c, it), Inl (ClientError ''ListObjectsV2 failed'' (ri_bucket it) (ri_full_path it)))
            | Inr result \<Rightarrow>
                let it = it\<lparr>ri_state := (case lo_next_continuation_token result of Some t \<Rightarrow> InProgress (Some t) | None \<Rightarrow> Finished)\<rparr> in
                and_then (page_entries (ri_full_path it) result) (\<lambda>new_entries.
                  pop_entry c (it\<lparr>ri_entries := (if ri_ordered it then sort_key re_key new_entries else new_entries)\<rparr>))))
     else pop_entry c it)"

section \<open>Ordered listing\<close>

record ordered_iter =
  oi_remote :: remote_iter
  oi_local :: "readdir_entry list"
  oi_next_remote :: "readdir_entry option"
  oi_next_local :: "readdir_entry option"
  oi_last_entry :: "readdir_entry option"

definition ordered_iter_new :: "string \<Rightarrow> string \<Rightarrow> nat \<Rightarrow> readdir_entry list \<Rightarrow> ordered_iter" where
  "ordered_iter_new bucket full_path page_size local_entries =
     \<lparr>oi_remote = remote_iter_new bucket full_path page_size True, oi_local = local_entries, oi_next_remote = None,
      oi_next_local = None, oi_last_entry = None\<rparr>"

definition refill_remote :: "'c object_client \<Rightarrow> ('c, ordered_iter, unit) iter_op" where
  "refill_remote oc = (\<lambda>(c, it).
     if oi_next_remote it = None then
       and_then (remote_iter_next oc (c, oi_remote it)) (\<lambda>((c, ri), r). case r of
         Inl e \<Rightarrow> Done ((c, it\<lparr>oi_remote := ri\<rparr>), Inl e)
       | Inr e \<Rightarrow> Done ((c, it\<lparr>oi_remote := ri, oi_next_remote := e\<rparr>), Inr ()))
     else Done ((c, it), Inr ()))"

definition refill_local :: "ordered_iter \<Rightarrow> ordered_iter" where
  "refill_local it = (if oi_next_local it = None
     then (case oi_local it of [] \<Rightarrow> it | e # es \<Rightarrow> it\<lparr>oi_local := es, oi_next_local := Some e\<rparr>) else it)"

definition take_remote :: "ordered_iter \<Rightarrow> ordered_iter \<times> readdir_entry option" where
  "take_remote it = (it\<lparr>oi_next_remote := None\<rparr>, oi_next_remote it)"

definition take_local :: "ordered_iter \<Rightarrow> ordered_iter \<times> readdir_entry option" where
  "take_local it = (it\<lparr>oi_next_local := None\<rparr>, oi_next_local it)"

definition take_next :: "ordered_iter \<Rightarrow> ordered_iter \<times> readdir_entry option" where
  "take_next it = (case (oi_next_remote it, oi_next_local it) of
     (Some remote, Some local) \<Rightarrow> if re_key remote \<le> re_key local then take_remote it else take_local it
   | (Some _, None) \<Rightarrow> take_remote it
   | (None, _) \<Rightarrow> take_local it)"

text \<open>The loop skips duplicates; each round consumes an entry, and without fuel it would not return.\<close>

fun ordered_next :: "'c object_client \<Rightarrow> nat \<Rightarrow> ('c, ordered_iter, readdir_entry option) iter_op" where
  "ordered_next oc 0 = (\<lambda>_. Pending)"
| "ordered_next oc (Suc fuel) =
     eff_bind (refill_remote oc) (\<lambda>_. \<lambda>(c, it).
       let (it, next) = take_next (refill_local it) in
       case (next, oi_last_entry it) of
         (Some e, Some last_entry) \<Rightarrow>
           if re_name last_entry = re_name e then ordered_next oc fuel (c, it)
           else Done ((c, it\<lparr>oi_last_entry := Some e\<rparr>), Inr (Some e))
       | (Some e, None) \<Rightarrow> Done ((c, it\<lparr>oi_last_entry := Some e\<rparr>), Inr (Some e))
       | (None, _) \<Rightarrow> Done ((c, it), Inr None))"

section \<open>Unordered listing\<close>

text \<open>The local entries are a hash map; \<open>drain_order\<close> is the order in which it is drained.\<close>

record unordered_iter =
  ui_remote :: remote_iter
  ui_local :: "(string \<times> readdir_entry) list"
  ui_local_iter :: "readdir_entry list"

definition unordered_iter_new :: "string \<Rightarrow> string \<Rightarrow> nat \<Rightarrow> readdir_entry list \<Rightarrow> unordered_iter run" where
  "unordered_iter_new bucket full_path page_size local_entries =
     and_then (run_map (\<lambda>e. case e of LocalInode _ name \<Rightarrow> Done (name, e) | _ \<Rightarrow> Panic) local_entries) (\<lambda>kvs.
       Done \<lparr>ui_remote = remote_iter_new bucket full_path page_size False, ui_local = foldl (\<lambda>m (k, v). AList.update k v m) [] kvs, ui_local_iter = []\<rparr>)"

definition unordered_next ::
  "((string \<times> readdir_entry) list \<Rightarrow> readdir_entry list) \<Rightarrow> 'c object_client \<Rightarrow> ('c, unordered_iter, readdir_entry option) iter_op" where
  "unordered_next drain_order oc = (\<lambda>(c, it).
     and_then (remote_iter_next oc (c, ui_remote it)) (\<lambda>((c, ri), r). case r of
       Inl e \<Rightarrow> Done ((c, it\<lparr>ui_remote := ri\<rparr>), Inl e)
     | Inr (Some remote) \<Rightarrow>
         Done ((c, it\<lparr>ui_remote := ri, ui_local := AList.delete (re_name remote) (ui_local it)\<rparr>), Inr (Some remote))
     | Inr None \<Rightarrow>
         let it = it\<lparr>ui_remote := ri\<rparr>;
             it = (if ui_local it = [] then it
                   else it\<lparr>ui_local := [], ui_local_iter := ui_local_iter it @ drain_order (ui_local it)\<rparr>)
         in (case ui_local_iter it of
               [] \<Rightarrow> Done ((c, it), Inr None)
             | e # es \<Rightarrow> Done ((c, it\<lparr>ui_local_iter := es\<rparr>), Inr (Some e)))))"

datatype readdir_iter = Ordered ordered_iter | Unordered unordered_iter

definition readdir_iter_next ::
  "((string \<times> readdir_entry) list \<Rightarrow> readdir_entry list) \<Rightarrow> 'c object_client \<Rightarrow> nat \<Rightarrow> ('c, readdir_iter, readdir_entry option) iter_op" where
  "readdir_iter_next drain_order oc fuel = (\<lambda>(c, it). case it of
     Ordered oi \<Rightarrow> and_then (ordered_next oc fuel (c, oi)) (\<lambda>((c, oi), r). Done ((c, Ordered oi), r))
   | Unordered ui \<Rightarrow> and_then (unordered_next drain_order oc (c, ui)) (\<lambda>((c, ui), r). Done ((c, Unordered ui), r)))"

section \<open>Streams\<close>

text \<open>What a consumer sees that asks for the next item until there is none.\<close>

inductive stream :: "('s \<Rightarrow> ('s \<times> ('e + 'a option)) run) \<Rightarrow> 's \<Rightarrow> 'a list \<Rightarrow> 's \<Rightarrow> bool"
  for get :: "'s \<Rightarrow> ('s \<times> ('e + 'a option)) run" where
  stop: "get s = Done (s', Inr None) \<Longrightarrow> stream get s [] s'"
| more: "get s = Done (s', Inr (Some x)) \<Longrightarrow> stream get s' xs s'' \<Longrightarrow> stream get s (x # xs) s''"

inductive_cases stream_NilE: "stream get s [] s'"
inductive_cases stream_ConsE: "stream get s (x # xs) s'"

definition exhausted :: "'c \<times> remote_iter \<Rightarrow> bool" where
  "exhausted s \<longleftrightarrow> ri_entries (snd s) = [] \<and> ri_state (snd s) = Finished"

lemma exhausted_next: "exhausted s \<Longrightarrow> remote_iter_next oc s = Done (s, Inr None)"
  by (cases s) (simp add: exhausted_def remote_iter_next_def)

text \<open>Merging two streams by key, the first one first when keys are equal, and dropping repeated names.\<close>

fun merge_entries :: "readdir_entry list \<Rightarrow> readdir_entry list \<Rightarrow> readdir_entry list" where
  "merge_entries (r # rs) (l # ls) =
     (if re_key r \<le> re_key l then r # merge_entries rs (l # ls) else l # merge_entries (r # rs) ls)"
| "merge_entries rs [] = rs"
| "merge_entries [] ls = ls"

fun drop_repeated :: "string option \<Rightarrow> readdir_entry list \<Rightarrow> readdir_entry list" where
  "drop_repeated last_name [] = []"
| "drop_repeated last_name (e # es) =
     (if last_name = Some (re_name e) then drop_repeated last_name es else e # drop_repeated (Some (re_name e)) es)"

text \<open>What an ordered iterator still has to give: \<open>rs\<close> from the remote stream, the peeked entries first.\<close>

definition pending :: "readdir_entry option \<Rightarrow> readdir_entry list \<Rightarrow> readdir_entry list" where
  "pending peek xs = (case peek of None \<Rightarrow> xs | Some e \<Rightarrow> e # xs)"

definition ordered_holds :: "'c object_client \<Rightarrow> 'c \<times> ordered_iter \<Rightarrow> readdir_entry list \<Rightarrow> readdir_entry list \<Rightarrow> bool" where
  "ordered_holds oc s rs ls \<longleftrightarrow> (\<exists>xs t. stream (remote_iter_next oc) (fst s, oi_remote (snd s)) xs t \<and> exhausted t \<and>
     rs = pending (oi_next_remote (snd s)) xs) \<and> ls = pending (oi_next_local (snd s)) (oi_local (snd s))"

lemma merge_Nil_right [simp]: "merge_entries rs [] = rs"
  by (cases rs) simp_all

text \<open>One round of the loop, before the duplicate test.\<close>

lemma refill_remote_holds:
  assumes "ordered_holds oc (c, it) rs ls"
  obtains c' it' where "refill_remote oc (c, it) = Done ((c', it'), Inr ())" "ordered_holds oc (c', it') rs ls"
    "oi_last_entry it' = oi_last_entry it" "oi_next_remote it' = None \<longleftrightarrow> rs = []"
proof -
  from assms obtain xs t where h: "stream (remote_iter_next oc) (c, oi_remote it) xs t" "exhausted t"
    "rs = pending (oi_next_remote it) xs" "ls = pending (oi_next_local it) (oi_local it)" by (auto simp: ordered_holds_def)
  show thesis
  proof (cases "oi_next_remote it")
    case None
    show thesis
    proof (cases xs)
      case Nil
      with h(1) have "remote_iter_next oc (c, oi_remote it) = Done (t, Inr None)" by (auto elim: stream_NilE)
      moreover have "stream (remote_iter_next oc) t [] t" by (rule stream.stop) (rule exhausted_next [OF h(2)])
      ultimately show thesis using None Nil h that [of "fst t" "it\<lparr>oi_remote := snd t\<rparr>"]
        by (cases t) (auto simp: refill_remote_def ordered_holds_def pending_def simp del: split_paired_Ex)
    next
      case (Cons x ys)
      with h(1) obtain u where u: "remote_iter_next oc (c, oi_remote it) = Done (u, Inr (Some x))" "stream (remote_iter_next oc) u ys t"
        by (auto elim: stream_ConsE)
      with None Cons h that [of "fst u" "it\<lparr>oi_remote := snd u, oi_next_remote := Some x\<rparr>"] show thesis
        by (cases u) (auto simp: refill_remote_def ordered_holds_def pending_def simp del: split_paired_Ex)
    qed
  next
    case (Some e)
    with assms h that [of c it] show thesis by (auto simp: refill_remote_def pending_def)
  qed
qed

lemma refill_local_holds:
  assumes "ordered_holds oc (c, it) rs ls"
  shows "ordered_holds oc (c, refill_local it) rs ls" "oi_last_entry (refill_local it) = oi_last_entry it"
    "oi_next_remote (refill_local it) = oi_next_remote it" "oi_next_local (refill_local it) = None \<longleftrightarrow> ls = []"
  using assms by (auto simp: refill_local_def ordered_holds_def pending_def split: list.splits option.splits)

lemma take_next_holds:
  assumes h: "ordered_holds oc (c, it) rs ls" and "oi_next_remote it = None \<longleftrightarrow> rs = []" "oi_next_local it = None \<longleftrightarrow> ls = []"
    and t: "take_next it = (it', e)"
  shows "oi_last_entry it' = oi_last_entry it \<and> (case merge_entries rs ls of
      [] \<Rightarrow> e = None \<and> ordered_holds oc (c, it') [] []
    | x # xs \<Rightarrow> e = Some x \<and> (\<exists>rs' ls'. ordered_holds oc (c, it') rs' ls' \<and> merge_entries rs' ls' = xs \<and>
        length rs' + length ls' < length rs + length ls))"
proof (cases rs)
  case Nil
  show ?thesis
  proof (cases ls)
    case Nil
    with \<open>rs = []\<close> assms show ?thesis
      by (auto simp: take_next_def take_local_def ordered_holds_def pending_def simp del: split_paired_Ex split: option.splits)
  next
    case (Cons l ls')
    with Nil assms have "it' = it\<lparr>oi_next_local := None\<rparr>" "e = Some l" "ordered_holds oc (c, it') [] ls'"
      by (auto simp: take_next_def take_local_def ordered_holds_def pending_def simp del: split_paired_Ex split: option.splits)
    moreover have "merge_entries [] xs = xs" for xs by (cases xs) simp_all
    ultimately have "\<exists>rs' ls''. ordered_holds oc (c, it') rs' ls'' \<and> merge_entries rs' ls'' = ls' \<and> length rs' + length ls'' < length rs + length ls"
      using Nil Cons by (intro exI [of _ "[]"] exI [of _ ls']) auto
    with Nil Cons \<open>e = Some l\<close> \<open>it' = it\<lparr>oi_next_local := None\<rparr>\<close> show ?thesis by simp
  qed
next
  case (Cons r rs')
  obtain p where p: "oi_next_remote it = Some p" using assms(2) Cons by auto
  with h Cons have pr: "p = r" by (auto simp: ordered_holds_def pending_def)
  have rem: "ordered_holds oc (c, it\<lparr>oi_next_remote := None\<rparr>) rs' ls"
    using h p Cons by (auto simp: ordered_holds_def pending_def)
  show ?thesis
  proof (cases ls)
    case Nil
    with assms(3) have "oi_next_local it = None" by simp
    with t p pr have it': "it' = it\<lparr>oi_next_remote := None\<rparr>" "e = Some r" by (auto simp: take_next_def take_remote_def)
    have "\<exists>rs'' ls''. ordered_holds oc (c, it') rs'' ls'' \<and> merge_entries rs'' ls'' = rs' \<and> length rs'' + length ls'' < length rs + length ls"
      by (rule exI [of _ rs'], rule exI [of _ "[]"]) (use Nil Cons rem it' in simp)
    with Nil Cons it' show ?thesis by simp
  next
    case ls: (Cons l ls')
    obtain q where q: "oi_next_local it = Some q" using assms(3) ls by auto
    with h ls have ql: "q = l" by (auto simp: ordered_holds_def pending_def)
    have loc: "ordered_holds oc (c, it\<lparr>oi_next_local := None\<rparr>) rs ls'"
      using h q ls by (auto simp: ordered_holds_def pending_def)
    show ?thesis
    proof (cases "re_key r \<le> re_key l")
      case True
      with t p pr q ql have it': "it' = it\<lparr>oi_next_remote := None\<rparr>" "e = Some r" by (auto simp: take_next_def take_remote_def)
      have "\<exists>rs'' ls''. ordered_holds oc (c, it') rs'' ls'' \<and> merge_entries rs'' ls'' = merge_entries rs' ls \<and>
          length rs'' + length ls'' < length rs + length ls"
        by (rule exI [of _ rs'], rule exI [of _ ls]) (use Cons rem it' in simp)
      with True Cons ls it' show ?thesis by simp
    next
      case False
      with t p pr q ql have it': "it' = it\<lparr>oi_next_local := None\<rparr>" "e = Some l" by (auto simp: take_next_def take_local_def)
      have "\<exists>rs'' ls''. ordered_holds oc (c, it') rs'' ls'' \<and> merge_entries rs'' ls'' = merge_entries rs ls' \<and>
          length rs'' + length ls'' < length rs + length ls"
        by (rule exI [of _ rs], rule exI [of _ ls']) (use ls loc it' in simp)
      with False Cons ls it' show ?thesis by simp
    qed
  qed
qed

text \<open>One call returns the next entry of the merged streams whose name is new.\<close>

lemma set_merge_entries [simp]: "set (merge_entries rs ls) = set rs \<union> set ls"
  by (induction rs ls rule: merge_entries.induct) auto

lemma ordered_next_holds:
  assumes "ordered_holds oc (c, it) rs ls" and "length rs + length ls < fuel"
  shows "\<exists>c' it'. case drop_repeated (map_option re_name (oi_last_entry it)) (merge_entries rs ls) of
      [] \<Rightarrow> ordered_next oc fuel (c, it) = Done ((c', it'), Inr None)
    | x # xs \<Rightarrow> ordered_next oc fuel (c, it) = Done ((c', it'), Inr (Some x)) \<and>
        (\<exists>rs' ls'. ordered_holds oc (c', it') rs' ls' \<and> length rs' + length ls' < length rs + length ls \<and>
           set rs' \<union> set ls' \<subseteq> set rs \<union> set ls \<and>
           xs = drop_repeated (map_option re_name (oi_last_entry it')) (merge_entries rs' ls'))"
  using assms
proof (induction fuel arbitrary: c it rs ls)
  case (Suc fuel)
  obtain c1 it1 where 1: "refill_remote oc (c, it) = Done ((c1, it1), Inr ())" "ordered_holds oc (c1, it1) rs ls"
    "oi_last_entry it1 = oi_last_entry it" "oi_next_remote it1 = None \<longleftrightarrow> rs = []"
    using refill_remote_holds [OF Suc.prems(1)] .
  note 2 = refill_local_holds [OF 1(2)]
  obtain it2 e where 3: "take_next (refill_local it1) = (it2, e)" by fastforce
  have t: "oi_last_entry it2 = oi_last_entry it" "case merge_entries rs ls of
      [] \<Rightarrow> e = None \<and> ordered_holds oc (c1, it2) [] []
    | x # xs \<Rightarrow> e = Some x \<and> (\<exists>rs' ls'. ordered_holds oc (c1, it2) rs' ls' \<and> merge_entries rs' ls' = xs \<and>
        length rs' + length ls' < length rs + length ls)"
    using take_next_holds [OF 2(1) _ 2(4) 3] 1(3,4) 2(2,3) by auto
  show ?case
  proof (cases "merge_entries rs ls")
    case Nil
    with t 1(1) 3 show ?thesis by (auto simp: eff_bind_def)
  next
    case (Cons x xs)
    with t(2) obtain rs' ls' where e: "e = Some x" and h': "ordered_holds oc (c1, it2) rs' ls'" "merge_entries rs' ls' = xs"
      "length rs' + length ls' < length rs + length ls" by auto
    have "set (merge_entries rs' ls') \<subseteq> set (merge_entries rs ls)" using Cons h'(2) by auto
    then have sub: "set rs' \<union> set ls' \<subseteq> set rs \<union> set ls" by (simp only: set_merge_entries)
    show ?thesis
    proof (cases "map_option re_name (oi_last_entry it) = Some (re_name x)")
      case True
      then have step: "ordered_next oc (Suc fuel) (c, it) = ordered_next oc fuel (c1, it2)"
        using 1(1) 3 e t(1) by (auto simp: eff_bind_def split: option.splits)
      have "length rs' + length ls' < fuel" using h'(3) Suc.prems(2) by simp
      note ih = Suc.IH [OF h'(1) this]
      have eq: "drop_repeated (map_option re_name (oi_last_entry it)) (merge_entries rs ls) =
          drop_repeated (map_option re_name (oi_last_entry it2)) (merge_entries rs' ls')"
        using True Cons h'(2) t(1) by simp
      show ?thesis
      proof (cases "drop_repeated (map_option re_name (oi_last_entry it2)) (merge_entries rs' ls')")
        case Nil
        with ih show ?thesis unfolding eq step by simp
      next
        case (Cons y ys)
        with ih obtain c2 it3 rs2 ls2 where i: "ordered_next oc fuel (c1, it2) = Done ((c2, it3), Inr (Some y))"
          "ordered_holds oc (c2, it3) rs2 ls2" "length rs2 + length ls2 < length rs' + length ls'"
          "set rs2 \<union> set ls2 \<subseteq> set rs' \<union> set ls'" "ys = drop_repeated (map_option re_name (oi_last_entry it3)) (merge_entries rs2 ls2)"
          by auto
        have "length rs2 + length ls2 < length rs + length ls" "set rs2 \<union> set ls2 \<subseteq> set rs \<union> set ls"
          using i(3,4) h'(3) sub by auto
        with i show ?thesis unfolding eq step Cons list.case by blast
      qed
    next
      case False
      then have "ordered_next oc (Suc fuel) (c, it) = Done ((c1, it2\<lparr>oi_last_entry := Some x\<rparr>), Inr (Some x))"
        using 1(1) 3 e t(1) by (auto simp: eff_bind_def split: option.splits)
      moreover have "ordered_holds oc (c1, it2\<lparr>oi_last_entry := Some x\<rparr>) rs' ls'" using h'(1) by (simp add: ordered_holds_def)
      ultimately show ?thesis using False Cons h' sub by auto
    qed
  qed
qed simp

lemma ordered_stream:
  assumes "ordered_holds oc (c, it) rs ls" and "length rs + length ls < fuel"
  shows "\<exists>s. stream (ordered_next oc fuel) (c, it) (drop_repeated (map_option re_name (oi_last_entry it)) (merge_entries rs ls)) s"
  using assms
proof (induction "length rs + length ls" arbitrary: c it rs ls rule: less_induct)
  case less
  from ordered_next_holds [OF less.prems] show ?case
  proof (cases "drop_repeated (map_option re_name (oi_last_entry it)) (merge_entries rs ls)")
    case Nil
    with ordered_next_holds [OF less.prems] show ?thesis by (auto intro: stream.stop)
  next
    case (Cons x xs)
    with ordered_next_holds [OF less.prems] obtain c' it' rs' ls' where
      n: "ordered_next oc fuel (c, it) = Done ((c', it'), Inr (Some x))" "ordered_holds oc (c', it') rs' ls'"
      "length rs' + length ls' < length rs + length ls" "xs = drop_repeated (map_option re_name (oi_last_entry it')) (merge_entries rs' ls')"
      by auto
    from less.hyps [OF n(3,2)] n(3) less.prems(2) obtain s where
      "stream (ordered_next oc fuel) (c', it') xs s" using n(4) by auto
    then have "stream (ordered_next oc fuel) (c, it) (x # xs) s" using n(1) stream.more [of "ordered_next oc fuel"] by blast
    then show ?thesis unfolding Cons by blast
  qed
qed

section \<open>Order and shadowing\<close>

lemma sorted_merge_entries:
  "sorted (map re_key rs) \<Longrightarrow> sorted (map re_key ls) \<Longrightarrow> sorted (map re_key (merge_entries rs ls))"
  by (induction rs ls rule: merge_entries.induct) (auto simp: not_le less_le)

lemma drop_repeated_names: "set (map re_name (drop_repeated last_name es)) \<union> set_option last_name = set (map re_name es) \<union> set_option last_name"
  by (induction last_name es rule: drop_repeated.induct) auto

lemma drop_repeated_sub: "set (drop_repeated last_name es) \<subseteq> set es"
  by (induction last_name es rule: drop_repeated.induct) auto

lemma re_key_le: "re_key x \<le> re_key y \<longleftrightarrow> re_name x < re_name y \<or> re_name x = re_name y \<and> re_kind x \<le> re_kind y"
  by (auto simp: re_key_def less_eq_prod_def)

lemma drop_repeated_sorted:
  assumes "sorted (map re_key es)" and "\<forall>e \<in> set es. case last_name of None \<Rightarrow> True | Some n \<Rightarrow> n \<le> re_name e"
  shows "sorted_wrt (<) (map re_name (drop_repeated last_name es)) \<and>
    (\<forall>e \<in> set (drop_repeated last_name es). (case last_name of None \<Rightarrow> True | Some n \<Rightarrow> n < re_name e) \<and>
       (\<forall>x \<in> set es. re_name x = re_name e \<longrightarrow> re_kind e \<le> re_kind x))"
  using assms
proof (induction last_name es rule: drop_repeated.induct)
  case (2 last_name e es)
  show ?case
  proof (cases "last_name = Some (re_name e)")
    case True
    have "sorted_wrt (<) (map re_name (drop_repeated last_name es)) \<and>
      (\<forall>d \<in> set (drop_repeated last_name es). (case last_name of None \<Rightarrow> True | Some n \<Rightarrow> n < re_name d) \<and>
         (\<forall>x \<in> set es. re_name x = re_name d \<longrightarrow> re_kind d \<le> re_kind x))"
      using 2(1) [OF True] 2(3,4) by simp
    with True show ?thesis by auto
  next
    case False
    have le: "\<forall>d \<in> set es. re_key e \<le> re_key d" and so: "sorted (map re_key es)" using 2(3) by simp_all
    then have "\<forall>d \<in> set es. re_name e \<le> re_name d" by (auto simp: re_key_le)
    then have ih: "sorted_wrt (<) (map re_name (drop_repeated (Some (re_name e)) es))"
      "\<forall>d \<in> set (drop_repeated (Some (re_name e)) es). re_name e < re_name d \<and>
        (\<forall>x \<in> set es. re_name x = re_name d \<longrightarrow> re_kind d \<le> re_kind x)"
      using 2(2) [OF False so] by simp_all
    have "case last_name of None \<Rightarrow> True | Some n \<Rightarrow> n < re_name e" using False 2(4) by (auto split: option.splits)
    moreover have "\<forall>x \<in> set (e # es). re_name x = re_name e \<longrightarrow> re_kind e \<le> re_kind x" using le by (auto simp: re_key_le)
    ultimately show ?thesis using ih False by (auto split: option.splits dest: less_trans)
  qed
qed simp

section \<open>The listing of the in-memory bucket\<close>

fun item_entry :: "string \<Rightarrow> string + object_info \<Rightarrow> readdir_entry" where
  "item_entry pre (Inl cp) = RemotePrefix (drop (length pre) (butlast cp))"
| "item_entry pre (Inr oi) = RemoteObject (drop (length pre) (oi_key oi)) oi"

lemma run_map_Done: "(\<And>x. x \<in> set xs \<Longrightarrow> f x = Done (g x)) \<Longrightarrow> run_map f xs = Done (map g xs)"
  by (induction xs) auto

lemma page_entries_Done:
  assumes "\<forall>cp \<in> set (lo_common_prefixes r). length pre < length cp" and "\<forall>ob \<in> set (lo_objects r). length pre \<le> length (oi_key ob)"
  shows "page_entries pre r = Done (map (item_entry pre \<circ> Inl) (lo_common_prefixes r) @ map (item_entry pre \<circ> Inr) (lo_objects r))"
proof -
  have "run_map (prefix_entry pre) (lo_common_prefixes r) = Done (map (item_entry pre \<circ> Inl) (lo_common_prefixes r))"
    by (rule run_map_Done) (use assms(1) in \<open>fastforce simp: prefix_entry_def checked_sub_def str_slice_def seg_def butlast_conv_take drop_take assert_that_def\<close>)
  moreover have "run_map (object_entry pre) (lo_objects r) = Done (map (item_entry pre \<circ> Inr) (lo_objects r))"
    by (rule run_map_Done) (use assms(2) in \<open>auto simp: object_entry_def str_slice_def seg_def assert_that_def\<close>)
  ultimately show ?thesis by (simp add: page_entries_def)
qed

text \<open>Entries that were fetched come before what the next pages give.\<close>

lemma stream_fetched:
  assumes "stream (remote_iter_next oc) (c, it\<lparr>ri_entries := []\<rparr>) xs t"
  shows "stream (remote_iter_next oc) (c, it\<lparr>ri_entries := es\<rparr>) (es @ xs) t"
proof (induction es)
  case (Cons e es)
  have "remote_iter_next oc (c, it\<lparr>ri_entries := e # es\<rparr>) = Done ((c, it\<lparr>ri_entries := es\<rparr>), Inr (Some e))"
    by (simp add: remote_iter_next_def pop_entry_def)
  from stream.more [of "remote_iter_next oc", OF this Cons] show ?case by simp
qed (use assms in simp)

lemma stream_same_next:
  assumes "get s = get s'" and "stream get s xs t"
  shows "stream get s' xs t"
  using assms(2)
proof cases
  case stop
  with assms(1) show ?thesis by (auto intro: stream.stop)
next
  case (more u x ys)
  with assms(1) stream.more [of get s' u x ys t] show ?thesis by simp
qed

lemma set_rights: "y \<in> set (rights xs) \<longleftrightarrow> Inr y \<in> set xs"
  by (induction xs rule: rights.induct) auto

lemma item_lengths:
  assumes "delim = Some ''/''"
  shows "\<forall>cp \<in> set (lefts (list_items delim pre es)). length pre < length cp"
    and "\<forall>ob \<in> set (rights (list_items delim pre es)). length pre \<le> length (oi_key ob)"
proof -
  show "\<forall>cp \<in> set (lefts (list_items delim pre es)). length pre < length cp"
    using assms by (auto simp: set_lefts_items split_delimiter_def)
  have "Inr ob \<in> set (list_items delim pre es) \<Longrightarrow> length pre \<le> length (oi_key ob)" for ob
    by (auto simp: list_items_mem list_item_def object_info_of_def starts_with_iff split: option.splits)
  then show "\<forall>ob \<in> set (rights (list_items delim pre es)). length pre \<le> length (oi_key ob)"
    by (auto simp: set_rights)
qed

definition items_entries :: "string \<Rightarrow> (string + object_info) list \<Rightarrow> readdir_entry list" where
  "items_entries pre items = map (item_entry pre \<circ> Inl) (lefts items) @ map (item_entry pre \<circ> Inr) (rights items)"

lemma set_items_entries: "set (items_entries pre items) = item_entry pre ` set items"
  by (induction items rule: lefts.induct) (auto simp: items_entries_def)

lemma length_items_entries: "length (items_entries pre items) = length items"
  using length_lefts_rights [of items] by (simp add: items_entries_def)

definition same_bucket :: "mock_client \<Rightarrow> mock_client \<Rightarrow> bool" where
  "same_bucket c c' \<longleftrightarrow> mc_objects c' = mc_objects c \<and> mc_config c' = mc_config c"

definition dir_items :: "mock_client \<Rightarrow> string option \<Rightarrow> string \<Rightarrow> (string + object_info) list" where
  "dir_items c token pre = list_items (Some ''/'') pre (entries_from c (case token of None \<Rightarrow> [] | Some t \<Rightarrow> t))"

definition after_page :: "remote_iter \<Rightarrow> string option \<Rightarrow> readdir_entry list \<Rightarrow> remote_iter" where
  "after_page it token es = it\<lparr>ri_state := (case token of Some t \<Rightarrow> InProgress (Some t) | None \<Rightarrow> Finished), ri_entries := es\<rparr>"

text \<open>One page of the in-memory bucket.\<close>

lemma mock_page:
  assumes "mcc_bucket (mc_config c) = ri_bucket it" "mcc_unordered_list_seed (mc_config c) = None" "0 < ri_page_size it" "ri_ordered it"
    and "ri_entries it = []" "ri_state it = InProgress token"
  obtains c' next_token where "same_bucket c c'"
    "remote_iter_next (mock_ops shuffle) (c, it) = pop_entry c' (after_page it next_token
       (sort_key re_key (items_entries (ri_full_path it) (take (ri_page_size it) (dir_items c token (ri_full_path it))))))"
    "next_token = None \<Longrightarrow> length (dir_items c token (ri_full_path it)) \<le> ri_page_size it"
    "next_token \<noteq> None \<Longrightarrow> ri_page_size it < length (dir_items c token (ri_full_path it)) \<and>
       dir_items c' next_token (ri_full_path it) = drop (ri_page_size it) (dir_items c token (ri_full_path it))"
proof -
  let ?c = "inc_op_count OpListObjectsV2 c" and ?pre = "ri_full_path it" and ?n = "ri_page_size it"
  let ?r = "list_objects_ordered ?c token ''/'' ?n ?pre"
  have sb: "same_bucket c ?c" by (simp add: same_bucket_def inc_op_count_def)
  then have ef: "entries_from ?c = entries_from c" by (auto simp: entries_from_def same_bucket_def fun_eq_iff)
  have d: "delimiter_option ''/'' = Some ''/''" by (simp add: delimiter_option_def)
  have page: "page_ok (Some ''/'') ?n ?pre (entries_from c (case token of None \<Rightarrow> [] | Some t \<Rightarrow> t)) ?r"
    using list_page_ok [OF assms(3), of "''/''" ?pre ?c token] by (simp add: ef d)
  have fields: "lo_objects ?r = rights (take ?n (dir_items c token ?pre))" "lo_common_prefixes ?r = lefts (take ?n (dir_items c token ?pre))"
    using page by (simp_all add: page_ok_def dir_items_def)
  have sub: "set (take ?n (dir_items c token ?pre)) \<subseteq> set (dir_items c token ?pre)" by (rule set_take_subset)
  have "page_entries ?pre ?r = Done (items_entries ?pre (take ?n (dir_items c token ?pre)))"
    unfolding items_entries_def fields [symmetric]
    by (rule page_entries_Done; unfold fields)
      (use sub item_lengths [OF refl, of ?pre] in \<open>auto simp: set_lefts set_rights dir_items_def\<close>)
  then have "remote_iter_next (mock_ops shuffle) (c, it) = pop_entry ?c (after_page it (lo_next_continuation_token ?r)
       (sort_key re_key (items_entries ?pre (take ?n (dir_items c token ?pre)))))"
    using assms by (simp add: remote_iter_next_def mock_ops_def list_objects_def inc_op_count_def service_def after_page_def Let_def)
  moreover have "length (dir_items c token ?pre) \<le> ?n" if "lo_next_continuation_token ?r = None"
    using page that by (simp add: page_ok_def dir_items_def)
  moreover have "?n < length (dir_items c token ?pre) \<and>
     dir_items ?c (lo_next_continuation_token ?r) ?pre = drop ?n (dir_items c token ?pre)" if "lo_next_continuation_token ?r \<noteq> None"
    using page that entries_from_split by (fastforce simp: page_ok_def dir_items_def ef)
  ultimately show thesis by (rule that [OF sb])
qed

lemma after_page_fields [simp]:
  "ri_entries (after_page it tok es) = es" "ri_bucket (after_page it tok es) = ri_bucket it"
  "ri_full_path (after_page it tok es) = ri_full_path it" "ri_page_size (after_page it tok es) = ri_page_size it"
  "ri_ordered (after_page it tok es) = ri_ordered it" "(after_page it tok es)\<lparr>ri_entries := fs\<rparr> = after_page it tok fs"
  "ri_state (after_page it tok es) = (case tok of Some t \<Rightarrow> InProgress (Some t) | None \<Rightarrow> Finished)"
  by (simp_all add: after_page_def)

lemma stream_page:
  assumes "remote_iter_next oc (c, it) = pop_entry c' (after_page it tok es)" "es \<noteq> []"
    and "stream (remote_iter_next oc) (c', after_page it tok []) xs t"
  shows "stream (remote_iter_next oc) (c, it) (es @ xs) t"
proof (rule stream_same_next [where get = "remote_iter_next oc"])
  show "stream (remote_iter_next oc) (c', after_page it tok es) (es @ xs) t"
    using stream_fetched [of oc c' "after_page it tok []" xs t es] assms(3) by simp
  show "remote_iter_next oc (c', after_page it tok es) = remote_iter_next oc (c, it)"
    using assms(1,2) by (simp add: remote_iter_next_def)
qed

text \<open>All pages of the in-memory bucket as one stream, which ends.\<close>

lemma mock_remote_stream:
  assumes "mcc_bucket (mc_config c) = ri_bucket it" "mcc_unordered_list_seed (mc_config c) = None" "0 < ri_page_size it" "ri_ordered it"
    and "ri_entries it = []" "ri_state it = InProgress token"
  shows "\<exists>xs t. stream (remote_iter_next (mock_ops shuffle)) (c, it) xs t \<and> exhausted t \<and>
    set xs = item_entry (ri_full_path it) ` set (dir_items c token (ri_full_path it)) \<and>
    length xs = length (dir_items c token (ri_full_path it)) \<and>
    (length (dir_items c token (ri_full_path it)) \<le> ri_page_size it \<longrightarrow>
       xs = sort_key re_key (items_entries (ri_full_path it) (dir_items c token (ri_full_path it))))"
  using assms
proof (induction "length (dir_items c token (ri_full_path it))" arbitrary: c it token rule: less_induct)
  case less
  let ?I = "dir_items c token (ri_full_path it)" and ?pre = "ri_full_path it" and ?n = "ri_page_size it"
  obtain c' tok where p: "same_bucket c c'" "remote_iter_next (mock_ops shuffle) (c, it) =
      pop_entry c' (after_page it tok (sort_key re_key (items_entries ?pre (take ?n ?I))))"
    "tok = None \<Longrightarrow> length ?I \<le> ?n" "tok \<noteq> None \<Longrightarrow> ?n < length ?I \<and> dir_items c' tok ?pre = drop ?n ?I"
    using mock_page [OF less.prems, of shuffle thesis] by blast
  show ?case
  proof (cases tok)
    case None
    have fin: "stream (remote_iter_next (mock_ops shuffle)) (c', after_page it tok []) [] (c', after_page it tok [])"
      using None by (auto intro!: stream.stop simp: remote_iter_next_def)
    have "stream (remote_iter_next (mock_ops shuffle)) (c, it) (sort_key re_key (items_entries ?pre ?I)) (c', after_page it tok [])"
    proof (cases "?I = []")
      case True
      with p(2) show ?thesis by (auto intro!: stream.stop simp: items_entries_def pop_entry_def)
    next
      case False
      then have "sort_key re_key (items_entries ?pre ?I) \<noteq> []" by (metis length_0_conv length_items_entries length_sort)
      with stream_page [of "mock_ops shuffle", OF p(2) _ fin] p(3) [OF None] show ?thesis by simp
    qed
    moreover have "exhausted (c', after_page it tok [])" using None by (simp add: exhausted_def)
    ultimately show ?thesis by (intro exI conjI) (assumption, assumption, simp_all add: set_items_entries length_items_entries)
  next
    case (Some t)
    let ?it = "after_page it tok []"
    have more: "?n < length ?I" "dir_items c' tok ?pre = drop ?n ?I" using p(4) Some by auto
    have "length (dir_items c' tok (ri_full_path ?it)) < length ?I" using more less.prems(3) by simp
    from less.hyps [OF this] less.prems p(1) Some obtain xs u where
      ih: "stream (remote_iter_next (mock_ops shuffle)) (c', ?it) xs u" "exhausted u"
        "set xs = item_entry ?pre ` set (drop ?n ?I)" "length xs = length (drop ?n ?I)"
      using more(2) by (auto simp: same_bucket_def simp del: split_paired_Ex)
    let ?es = "sort_key re_key (items_entries ?pre (take ?n ?I))"
    have "length ?es \<noteq> 0" using more(1) less.prems(3) by (simp add: length_items_entries)
    then have "?es \<noteq> []" by (metis list.size(3))
    from stream_page [of "mock_ops shuffle", OF p(2) this ih(1)]
    have "stream (remote_iter_next (mock_ops shuffle)) (c, it) (?es @ xs) u" .
    moreover have "set (?es @ xs) = item_entry ?pre ` set ?I"
      using ih(3) by (simp add: set_items_entries image_Un [symmetric]) (metis append_take_drop_id set_append)
    moreover have "length (?es @ xs) = length ?I" using ih(4) more(1) by (simp add: length_items_entries)
    ultimately show ?thesis using ih(2) more(1) by (intro exI conjI) (assumption | simp)+
  qed
qed

section \<open>The directory a bucket shows\<close>

lemma split_once_slash_None: "split_once s ''/'' = None \<longleftrightarrow> CHR ''/'' \<notin> set s"
  by (induction s) (auto simp: starts_with_def)

lemma split_once_slash: "CHR ''/'' \<notin> set a \<Longrightarrow> split_once (a @ ''/'' @ b) ''/'' = Some (a, b)"
  by (induction a) (auto simp: starts_with_def)

lemma split_once_slash_free: "split_once s ''/'' = Some (a, b) \<Longrightarrow> CHR ''/'' \<notin> set a"
  by (induction s arbitrary: a b) (auto simp: starts_with_def split: if_splits)

lemma prefix_item: "Inl cp \<in> set (dir_items c None pre) \<longleftrightarrow>
    (\<exists>n k. cp = pre @ n @ ''/'' \<and> CHR ''/'' \<notin> set n \<and> k \<in> set (RBT.keys (mc_objects c)) \<and> starts_with k (pre @ n @ ''/''))"
proof -
  have "Inl cp \<in> set (dir_items c None pre) \<longleftrightarrow> (\<exists>s k. cp = pre @ s \<and> k \<in> set (RBT.keys (mc_objects c)) \<and> starts_with k pre \<and>
      split_delimiter (Some ''/'') (drop (length pre) k) = Some s)"
    using set_lefts_items [of "Some ''/''" pre "RBT.entries (mc_objects c)"]
    by (auto simp: dir_items_def set_lefts [symmetric] entries_from_def RBT.keys_def_alt)
  also have "\<dots> \<longleftrightarrow> (\<exists>n k. cp = pre @ n @ ''/'' \<and> CHR ''/'' \<notin> set n \<and> k \<in> set (RBT.keys (mc_objects c)) \<and> starts_with k (pre @ n @ ''/''))"
  proof (intro iffI; elim exE conjE)
    fix s k assume "cp = pre @ s" "k \<in> set (RBT.keys (mc_objects c))" "starts_with k pre" "split_delimiter (Some ''/'') (drop (length pre) k) = Some s"
    moreover then obtain a b where "split_once (drop (length pre) k) ''/'' = Some (a, b)" "s = a @ ''/''"
      by (auto simp: split_delimiter_def)
    ultimately show "\<exists>n k. cp = pre @ n @ ''/'' \<and> CHR ''/'' \<notin> set n \<and> k \<in> set (RBT.keys (mc_objects c)) \<and> starts_with k (pre @ n @ ''/'')"
      using split_once_append [of "drop (length pre) k" "''/''" a b] split_once_slash_free [of "drop (length pre) k" a b]
      by (auto simp: starts_with_iff)
  next
    fix n k assume "cp = pre @ n @ ''/''" "CHR ''/'' \<notin> set n" "k \<in> set (RBT.keys (mc_objects c))" "starts_with k (pre @ n @ ''/'')"
    then show "\<exists>s k. cp = pre @ s \<and> k \<in> set (RBT.keys (mc_objects c)) \<and> starts_with k pre \<and>
      split_delimiter (Some ''/'') (drop (length pre) k) = Some s"
      using split_once_slash [of n] by (fastforce simp: starts_with_iff split_delimiter_def)
  qed
  finally show ?thesis .
qed

lemma object_item: "Inr oi \<in> set (dir_items c None pre) \<longleftrightarrow>
    (\<exists>n ob. RBT.lookup (mc_objects c) (pre @ n) = Some ob \<and> CHR ''/'' \<notin> set n \<and> oi = object_info_of (pre @ n, ob))"
proof -
  have item: "list_item (Some ''/'') pre e = Inr oi \<longleftrightarrow> CHR ''/'' \<notin> set (drop (length pre) (fst e)) \<and> oi = object_info_of e" for e
    using split_once_slash_None [of "drop (length pre) (fst e)"] by (auto simp: list_item_def split_delimiter_def split: option.splits)
  have "Inr oi \<in> set (dir_items c None pre) \<longleftrightarrow> (\<exists>k ob. (k, ob) \<in> set (RBT.entries (mc_objects c)) \<and> starts_with k pre \<and>
      CHR ''/'' \<notin> set (drop (length pre) k) \<and> oi = object_info_of (k, ob))"
    by (simp add: dir_items_def list_items_mem entries_from_def item Bex_def)
  also have "\<dots> \<longleftrightarrow> (\<exists>n ob. RBT.lookup (mc_objects c) (pre @ n) = Some ob \<and> CHR ''/'' \<notin> set n \<and> oi = object_info_of (pre @ n, ob))"
    unfolding RBT.lookup_in_tree starts_with_iff using append_eq_conv_conj [of pre] by (metis (no_types, lifting))
  finally show ?thesis .
qed

definition dir_entries :: "mock_client \<Rightarrow> string \<Rightarrow> readdir_entry set" where
  "dir_entries c pre = item_entry pre ` set (dir_items c None pre)"

lemma dir_entries_mem:
  "e \<in> dir_entries c pre \<longleftrightarrow> (\<exists>cp. Inl cp \<in> set (dir_items c None pre) \<and> e = item_entry pre (Inl cp)) \<or>
     (\<exists>oi. Inr oi \<in> set (dir_items c None pre) \<and> e = item_entry pre (Inr oi))"
  unfolding dir_entries_def image_iff Bex_def by (rule split_sum_ex)

lemma view_directory: "bucket_view c path = Some Directory \<longleftrightarrow> (\<exists>k. k \<in> set (RBT.keys (mc_objects c)) \<and> starts_with k (path @ ''/''))"
  by (auto simp: bucket_view_def)

lemma view_file: "bucket_view c path \<noteq> None \<longleftrightarrow> bucket_view c path = Some Directory \<or> RBT.lookup (mc_objects c) path \<noteq> None"
  by (auto simp: bucket_view_def)

lemma prefix_entry_mem: "RemotePrefix n \<in> dir_entries c pre \<longleftrightarrow> CHR ''/'' \<notin> set n \<and> bucket_view c (pre @ n) = Some Directory"
proof -
  have name: "drop (length pre) (butlast (pre @ m @ ''/'')) = m" for m by (simp add: butlast_append)
  have "RemotePrefix n \<in> dir_entries c pre \<longleftrightarrow> (\<exists>cp. Inl cp \<in> set (dir_items c None pre) \<and> n = drop (length pre) (butlast cp))"
    by (simp add: dir_entries_mem)
  also have "\<dots> \<longleftrightarrow> CHR ''/'' \<notin> set n \<and> (\<exists>k. k \<in> set (RBT.keys (mc_objects c)) \<and> starts_with k (pre @ n @ ''/''))"
    unfolding prefix_item using name by metis
  finally show ?thesis by (simp add: view_directory)
qed

lemma object_entry_mem: "RemoteObject n oi \<in> dir_entries c pre \<longleftrightarrow> CHR ''/'' \<notin> set n \<and>
    (\<exists>ob. RBT.lookup (mc_objects c) (pre @ n) = Some ob \<and> oi = object_info_of (pre @ n, ob))"
  by (auto simp: dir_entries_mem object_item object_info_of_def)

lemma local_entry_mem: "LocalInode l n \<notin> dir_entries c pre"
  by (simp add: dir_entries_mem)

lemma dir_entry_names: "n \<in> re_name ` dir_entries c pre \<longleftrightarrow> CHR ''/'' \<notin> set n \<and> bucket_view c (pre @ n) \<noteq> None"
proof
  assume "n \<in> re_name ` dir_entries c pre"
  then obtain e where "e \<in> dir_entries c pre" "re_name e = n" by auto
  then show "CHR ''/'' \<notin> set n \<and> bucket_view c (pre @ n) \<noteq> None"
    by (cases e) (auto simp: prefix_entry_mem object_entry_mem local_entry_mem view_file simp del: not_None_eq)
next
  assume "CHR ''/'' \<notin> set n \<and> bucket_view c (pre @ n) \<noteq> None"
  then have "RemotePrefix n \<in> dir_entries c pre \<or> (\<exists>oi. RemoteObject n oi \<in> dir_entries c pre)"
    by (auto simp: prefix_entry_mem object_entry_mem view_file simp del: not_None_eq)
  then show "n \<in> re_name ` dir_entries c pre" by (metis image_eqI re_name.simps(1,2))
qed

text \<open>How an entry must show, given the bucket: directories shadow files, and both shadow local entries.\<close>

definition shows_bucket :: "mock_client \<Rightarrow> string \<Rightarrow> readdir_entry list \<Rightarrow> readdir_entry \<Rightarrow> bool" where
  "shows_bucket c pre local_entries e = (case bucket_view c (pre @ re_name e) of
     Some Directory \<Rightarrow> e = RemotePrefix (re_name e)
   | Some File \<Rightarrow> map_option (\<lambda>ob. RemoteObject (re_name e) (object_info_of (pre @ re_name e, ob)))
       (RBT.lookup (mc_objects c) (pre @ re_name e)) = Some e
   | None \<Rightarrow> e \<in> set local_entries)"

definition valid_locals :: "readdir_entry list \<Rightarrow> bool" where
  "valid_locals ls \<longleftrightarrow> sorted (map re_key ls) \<and> list_all (\<lambda>e. re_kind e = KindLocalInode \<and> CHR ''/'' \<notin> set (re_name e)) ls"

lemma kind_le: "KindRemotePrefix \<le> k" "k \<le> KindRemotePrefix \<longleftrightarrow> k = KindRemotePrefix" "KindLocalInode \<le> k \<longleftrightarrow> k = KindLocalInode"
  "\<not> KindLocalInode \<le> KindRemoteObject"
  by (cases k; simp add: less_eq_readdir_entry_kind_def)+

lemma least_shows_bucket:
  assumes e: "e \<in> dir_entries c pre \<or> e \<in> set ls" and ls: "valid_locals ls"
    and least: "\<And>x. x \<in> dir_entries c pre \<or> x \<in> set ls \<Longrightarrow> re_name x = re_name e \<Longrightarrow> re_kind e \<le> re_kind x"
  shows "shows_bucket c pre ls e"
proof -
  let ?n = "re_name e"
  have slash: "CHR ''/'' \<notin> set ?n"
    using e dir_entry_names [of ?n c pre] ls by (auto simp: valid_locals_def list_all_iff)
  have loc: "re_kind e = KindLocalInode" if "e \<in> set ls" using that ls by (auto simp: valid_locals_def list_all_iff)
  show ?thesis
  proof (cases "bucket_view c (pre @ ?n)")
    case None
    with e dir_entry_names [of ?n c pre] show ?thesis by (auto simp: shows_bucket_def)
  next
    case (Some k)
    show ?thesis
    proof (cases k)
      case Directory
      with Some slash have "RemotePrefix ?n \<in> dir_entries c pre" by (simp add: prefix_entry_mem)
      from least [of "RemotePrefix ?n"] this have "re_kind e = KindRemotePrefix" by (simp add: kind_le)
      with Some Directory show ?thesis by (cases e) (simp_all add: shows_bucket_def)
    next
      case File
      with Some view_directory [of c "pre @ ?n"] have nd: "bucket_view c (pre @ ?n) \<noteq> Some Directory" by simp
      from Some File obtain ob where ob: "RBT.lookup (mc_objects c) (pre @ ?n) = Some ob" using view_file [of c "pre @ ?n"] nd by auto
      with slash have "RemoteObject ?n (object_info_of (pre @ ?n, ob)) \<in> dir_entries c pre" by (auto simp: object_entry_mem)
      with least [of "RemoteObject ?n (object_info_of (pre @ ?n, ob))"] have "re_kind e \<noteq> KindLocalInode" using kind_le(4) by auto
      then have "e \<in> dir_entries c pre" using e loc by auto
      with nd slash ob Some File \<open>re_kind e \<noteq> KindLocalInode\<close> show ?thesis
        by (cases e) (auto simp: shows_bucket_def prefix_entry_mem object_entry_mem)
    qed
  qed
qed

text \<open>
  C30: Listing a directory of an in-memory bucket that lists in key order, page by page with any page size, ends, and the names
  it gives are exactly those that a lookup finds in the bucket (an object, or a key below the name) and the local
  ones. When the listing fits a page, each name comes once, in ascending order, and shows as lookup does: as a
  directory if there are keys below it, else as the object, and as the local inode only if the bucket has neither.
\<close>

theorem readdir_agrees_with_lookup:
  assumes "mcc_unordered_list_seed (mc_config c) = None" and "0 < page_size" and "valid_locals ls"
    and "object_count c + length ls < fuel"
  shows "\<exists>out s'. stream (ordered_next (mock_ops shuffle) fuel) (c, ordered_iter_new (mcc_bucket (mc_config c)) pre page_size ls) out s' \<and>
    re_name ` set out = re_name ` set ls \<union> {n. CHR ''/'' \<notin> set n \<and> bucket_view c (pre @ n) \<noteq> None} \<and>
    (length (dir_items c None pre) \<le> page_size \<longrightarrow>
       sorted_wrt (<) (map re_name out) \<and> (\<forall>e \<in> set out. shows_bucket c pre ls e))"
proof -
  let ?it = "ordered_iter_new (mcc_bucket (mc_config c)) pre page_size ls"
  obtain rs t where rs: "stream (remote_iter_next (mock_ops shuffle)) (c, oi_remote ?it) rs t" "exhausted t"
    "set rs = dir_entries c pre" "length rs = length (dir_items c None pre)"
    "length (dir_items c None pre) \<le> page_size \<longrightarrow> rs = sort_key re_key (items_entries pre (dir_items c None pre))"
    using mock_remote_stream [of c "oi_remote ?it" None shuffle] assms(1,2)
    by (auto simp: ordered_iter_new_def remote_iter_new_def dir_entries_def simp del: split_paired_Ex)
  have holds: "ordered_holds (mock_ops shuffle) (c, ?it) rs ls"
    using rs(1,2) by (auto simp: ordered_holds_def pending_def ordered_iter_new_def simp del: split_paired_Ex)
  have "length (dir_items c None pre) \<le> object_count c"
    using list_items_length [of "Some ''/''" pre "RBT.entries (mc_objects c)"] by (simp add: dir_items_def entries_from_def object_count_def)
  with rs(4) assms(4) have "length rs + length ls < fuel" by simp
  from ordered_stream [OF holds this] obtain s' where
    out: "stream (ordered_next (mock_ops shuffle) fuel) (c, ?it) (drop_repeated None (merge_entries rs ls)) s'"
    by (auto simp: ordered_iter_new_def simp del: split_paired_Ex)
  let ?out = "drop_repeated None (merge_entries rs ls)"
  have names: "re_name ` set ?out = re_name ` set ls \<union> {n. CHR ''/'' \<notin> set n \<and> bucket_view c (pre @ n) \<noteq> None}"
    using drop_repeated_names [of None "merge_entries rs ls"] rs(3) dir_entry_names [of _ c pre] by (simp add: image_Un) blast
  have "sorted_wrt (<) (map re_name ?out) \<and> (\<forall>e \<in> set ?out. shows_bucket c pre ls e)" if "length (dir_items c None pre) \<le> page_size"
  proof -
    have "sorted (map re_key (merge_entries rs ls))"
      using sorted_merge_entries [of rs ls] rs(5) that assms(3) by (simp add: valid_locals_def)
    from drop_repeated_sorted [OF this, of None]
    have d: "sorted_wrt (<) (map re_name ?out)" "\<forall>e \<in> set ?out. \<forall>x \<in> set (merge_entries rs ls). re_name x = re_name e \<longrightarrow> re_kind e \<le> re_kind x"
      by simp_all
    moreover have "shows_bucket c pre ls e" if "e \<in> set ?out" for e
      using that d(2) drop_repeated_sub [of None "merge_entries rs ls"] rs(3)
      by (intro least_shows_bucket [OF _ assms(3)]) auto
    ultimately show ?thesis by blast
  qed
  with out names show ?thesis by blast
qed

definition witness_local :: readdir_entry where
  "witness_local = LocalInode \<lparr>li_inode = 0, li_stat = stat_for_directory \<lparr>ck_now = 5, ck_system = 7\<rparr> 7 3,
     li_path = \<lparr>sp_bucket = [], sp_prefix = \<lparr>pf_path = []\<rparr>\<rparr>, li_write_status = LocalUnopened\<rparr> ''c''"

lemma witness_bucket_count: "object_count witness_bucket = 3"
proof -
  have "length (RBT.keys (mc_objects witness_bucket)) = card (set (RBT.keys (mc_objects witness_bucket)))"
    by (simp add: distinct_card)
  then show ?thesis by (simp only: witness_bucket_keys) (simp add: object_count_def RBT.keys_def_alt)
qed

lemma witness_bucket_config: "mc_config witness_bucket = witness_mock_config"
  by (simp add: witness_bucket_def mock_client_new_def)

theorem readdir_agrees_with_lookup_witness:
  "\<exists>out s'. stream (ordered_next (mock_ops (\<lambda>_ ks. ks)) 5)
      (witness_bucket, ordered_iter_new (mcc_bucket (mc_config witness_bucket)) [] 9 [witness_local]) out s' \<and>
    ''a'' \<in> re_name ` set out \<and> ''c'' \<in> re_name ` set out \<and> sorted_wrt (<) (map re_name out) \<and>
    (\<forall>e \<in> set out. shows_bucket witness_bucket [] [witness_local] e)"
proof -
  have "length (dir_items witness_bucket None []) \<le> object_count witness_bucket"
    using list_items_length [of "Some ''/''" "[]" "RBT.entries (mc_objects witness_bucket)"]
    by (simp add: dir_items_def entries_from_def object_count_def)
  then have fits: "length (dir_items witness_bucket None []) \<le> 9" by (simp add: witness_bucket_count)
  have view: "bucket_view witness_bucket ([] @ ''a'') \<noteq> None"
    unfolding bucket_view_def witness_bucket_keys by (simp add: starts_with_def)
  have seed: "mcc_unordered_list_seed (mc_config witness_bucket) = None" by (simp add: witness_bucket_config witness_mock_config_def)
  have loc: "valid_locals [witness_local]" by (simp add: valid_locals_def witness_local_def)
  have fuel: "object_count witness_bucket + length [witness_local] < 5" by (simp add: witness_bucket_count)
  have nine: "0 < (9 :: nat)" by simp
  obtain out s' where o: "stream (ordered_next (mock_ops (\<lambda>_ ks. ks)) 5)
      (witness_bucket, ordered_iter_new (mcc_bucket (mc_config witness_bucket)) [] 9 [witness_local]) out s'"
    "re_name ` set out = re_name ` set [witness_local] \<union> {n. CHR ''/'' \<notin> set n \<and> bucket_view witness_bucket ([] @ n) \<noteq> None}"
    "sorted_wrt (<) (map re_name out) \<and> (\<forall>e \<in> set out. shows_bucket witness_bucket [] [witness_local] e)"
    using readdir_agrees_with_lookup [OF seed nine loc fuel, of "\<lambda>_ ks. ks" "[]"] fits by blast
  have "''a'' \<in> re_name ` set out" "''c'' \<in> re_name ` set out"
    unfolding o(2) using view by (simp_all add: witness_local_def)
  with o(1,3) show ?thesis by blast
qed

section \<open>Failed pages\<close>

text \<open>
  C31: A page that cannot be fetched ends the call with the client's error, keeps no entry and forgets how far the listing was:
  the next call asks for the first page again, like a new iterator, so entries of the pages before the failure are
  listed a second time.
\<close>

theorem failed_page_restarts_listing:
  assumes "ri_entries it = []" and "ri_state it = InProgress token"
    and "oc_list_objects oc c (ri_bucket it) token ''/'' (ri_page_size it) (ri_full_path it) = Done (c', Inl err)"
  shows "\<exists>it'. remote_iter_next oc (c, it) =
      Done ((c', it'), Inl (ClientError ''ListObjectsV2 failed'' (ri_bucket it) (ri_full_path it))) \<and>
    it' = remote_iter_new (ri_bucket it) (ri_full_path it) (ri_page_size it) (ri_ordered it)"
  using assms by (cases it) (simp add: remote_iter_next_def remote_iter_new_def)

theorem failed_page_restarts_listing_witness:
  "\<exists>it'. remote_iter_next (mock_ops (\<lambda>_ ks. ks))
      (witness_bucket, (remote_iter_new ''other'' [] 1 True)\<lparr>ri_state := InProgress (Some ''b'')\<rparr>) =
    Done ((inc_op_count OpListObjectsV2 witness_bucket, it'), Inl (ClientError ''ListObjectsV2 failed'' ''other'' [])) \<and>
    ri_state it' = InProgress None"
  using failed_page_restarts_listing [of "(remote_iter_new ''other'' [] 1 True)\<lparr>ri_state := InProgress (Some ''b'')\<rparr>"
      "Some ''b''" "mock_ops (\<lambda>_ ks. ks)" witness_bucket "inc_op_count OpListObjectsV2 witness_bucket" "ServiceError ListNoSuchBucket"]
  by (simp add: remote_iter_new_def mock_ops_def list_objects_def inc_op_count_def service_def witness_bucket_config witness_mock_config_def Let_def)

section \<open>Listing without order\<close>

lemma unordered_local_stream:
  assumes "exhausted (c, ui_remote it)" and "ui_local it = []"
  shows "\<exists>s. stream (unordered_next dr oc) (c, it) (ui_local_iter it) s"
  using assms
proof (induction "ui_local_iter it" arbitrary: it)
  case Nil
  then have "unordered_next dr oc (c, it) = Done ((c, it), Inr None)"
    by (simp add: unordered_next_def exhausted_next)
  from stream.stop [of "unordered_next dr oc", OF this] Nil(1) show ?case by (simp del: split_paired_Ex) blast
next
  case (Cons e es)
  let ?it = "it\<lparr>ui_local_iter := es\<rparr>"
  have "unordered_next dr oc (c, it) = Done ((c, ?it), Inr (Some e))"
    using Cons.hyps(2) [symmetric] Cons.prems by (simp add: unordered_next_def exhausted_next)
  moreover obtain s where "stream (unordered_next dr oc) (c, ?it) es s" using Cons.hyps(1) [of ?it] Cons.prems by auto
  ultimately have "stream (unordered_next dr oc) (c, it) (e # es) s" by (rule stream.more)
  then show ?case unfolding Cons.hyps(2) [symmetric] by blast
qed

lemma unordered_stream:
  assumes "stream (remote_iter_next oc) (c, ui_remote it) rs t" "exhausted t" "ui_local_iter it = []" "dr [] = []"
  shows "\<exists>s. stream (unordered_next dr oc) (c, it) (rs @ dr (filter (\<lambda>(n, _). n \<notin> re_name ` set rs) (ui_local it))) s"
  using assms
proof (induction rs arbitrary: c it)
  case Nil
  let ?it = "it\<lparr>ui_remote := snd t, ui_local := [], ui_local_iter := dr (ui_local it)\<rparr>"
  have "remote_iter_next oc (c, ui_remote it) = Done (t, Inr None)" using Nil(1) by (auto elim: stream_NilE)
  then have "unordered_next dr oc (c, it) = unordered_next dr oc (fst t, ?it)"
    using Nil(2-4) exhausted_next [OF Nil(2)] by (cases t; cases it) (auto simp: unordered_next_def Let_def split: list.splits)
  moreover have "\<exists>s. stream (unordered_next dr oc) (fst t, ?it) (dr (ui_local it)) s"
    using unordered_local_stream [of "fst t" ?it dr oc] Nil(2) by simp
  moreover have "filter (\<lambda>(n, _). n \<notin> re_name ` set []) (ui_local it) = ui_local it" by (simp add: case_prod_unfold)
  ultimately show ?case using stream_same_next [of "unordered_next dr oc" "(fst t, ?it)" "(c, it)"] by (simp del: split_paired_Ex) blast
next
  case (Cons r rs)
  then obtain u where u: "remote_iter_next oc (c, ui_remote it) = Done (u, Inr (Some r))" "stream (remote_iter_next oc) u rs t"
    by (auto elim: stream_ConsE)
  let ?it = "it\<lparr>ui_remote := snd u, ui_local := AList.delete (re_name r) (ui_local it)\<rparr>"
  have step: "unordered_next dr oc (c, it) = Done ((fst u, ?it), Inr (Some r))"
    using u(1) by (cases u) (simp add: unordered_next_def)
  obtain s where "stream (unordered_next dr oc) (fst u, ?it) (rs @ dr (filter (\<lambda>(n, _). n \<notin> re_name ` set rs) (ui_local ?it))) s"
    using Cons.IH [of "fst u" ?it] u(2) Cons.prems by auto
  moreover have "filter (\<lambda>(n, _). n \<notin> re_name ` set rs) (ui_local ?it) = filter (\<lambda>(n, _). n \<notin> re_name ` set (r # rs)) (ui_local it)"
    by (auto simp: AList.delete_eq case_prod_unfold intro!: filter_cong)
  ultimately have "stream (unordered_next dr oc) (c, it) (r # rs @ dr (filter (\<lambda>(n, _). n \<notin> re_name ` set (r # rs)) (ui_local it))) s"
    using stream.more [of "unordered_next dr oc", OF step] by (simp only:)
  then show ?case unfolding append_Cons by blast
qed

end
