(* ===== verification/Readdir.thy ===== *)
theory Readdir
  imports Readdir_Iter
begin

text \<open>
  Directory handles and the \<open>readdir\<close> request (\<open>ReaddirHandle\<close> and \<open>DirHandle\<close> of \<open>superblock/readdir.rs\<close>;
  \<open>new_readdir_handle\<close>, \<open>readdir\<close> and \<open>releasedir\<close> of \<open>superblock.rs\<close>): a handle turns entries into inodes, holds
  back the entry that did not fit the reply, and remembers the last response so that it can be repeated.
\<close>

section \<open>Handles\<close>

record readdir_handle =
  rh_dir_ino :: nat
  rh_parent_ino :: nat
  rh_iter :: readdir_iter
  rh_readded :: "looked_up_inode option"

record dir_entry =
  de_lookup :: looked_up_inode
  de_offset :: int
  de_name :: string
  de_generation :: nat

record dir_handle =
  dh_ino :: nat
  dh_handle :: readdir_handle
  dh_offset :: int
  dh_last_response :: "(int \<times> dir_entry list) option"

definition dir_handle_new :: "nat \<Rightarrow> readdir_handle \<Rightarrow> dir_handle" where
  "dir_handle_new ino h = \<lparr>dh_ino = ino, dh_handle = h, dh_offset = 0, dh_last_response = None\<rparr>"

text \<open>
  What the listing uses of other code: the order in which a hash set of inode numbers and a hash map of local
  entries are iterated.
\<close>

record hash_orders =
  ho_children :: "nat set \<Rightarrow> nat list"
  ho_drain :: "(string \<times> readdir_entry) list \<Rightarrow> readdir_entry list"

fun eff_map :: "('a \<Rightarrow> ('s, 'e, 'b) eff) \<Rightarrow> 'a list \<Rightarrow> ('s, 'e, 'b list) eff" where
  "eff_map f [] = eff_return []"
| "eff_map f (x # xs) = eff_bind (f x) (\<lambda>y. eff_bind (eff_map f xs) (\<lambda>ys. eff_return (y # ys)))"

definition local_entry :: "('m, 'c) sb_env \<Rightarrow> nat \<Rightarrow> ('m, 'c, readdir_entry) sb_op" where
  "local_entry env ino = eff_bind (sb_get env ino) (\<lambda>a. eff_bind (get_inode_state a) (\<lambda>n.
     eff_bind (eff_run (vk_name (in_key n))) (\<lambda>name.
     eff_gets (\<lambda>sb. LocalInode (looked_up sb a (is_stat (in_sync n)) (is_write_status (in_sync n))) name))))"

definition readdir_iter_for ::
  "bool \<Rightarrow> string \<Rightarrow> string \<Rightarrow> nat \<Rightarrow> readdir_entry list \<Rightarrow> readdir_iter run" where
  "readdir_iter_for list_ordered bucket full_path page_size local_entries =
     (if list_ordered then Done (Ordered (ordered_iter_new bucket full_path page_size local_entries))
      else and_then (unordered_iter_new bucket full_path page_size local_entries) (\<lambda>it. Done (Unordered it)))"

definition readdir_handle_new ::
  "('m, 'c) sb_env \<Rightarrow> hash_orders \<Rightarrow> nat \<Rightarrow> nat \<Rightarrow> string \<Rightarrow> nat \<Rightarrow> ('m, 'c, readdir_handle) sb_op" where
  "readdir_handle_new env ho dir_ino parent_ino full_path page_size =
     eff_bind (sb_get env dir_ino) (\<lambda>a. eff_bind (get_inode_state a) (\<lambda>n.
     case is_kind_data (in_sync n) of
       FileData \<Rightarrow> eff_error (NotADirectory (inode_err n))
     | DirectoryData _ writing_children _ \<Rightarrow>
         eff_bind (eff_map (local_entry env) (ho_children ho writing_children)) (\<lambda>new_results.
         eff_bind (eff_gets (\<lambda>sb. (sc_list_ordered (sb_config sb), sp_bucket (sb_s3_path sb)))) (\<lambda>(list_ordered, bucket).
         eff_bind (eff_run (readdir_iter_for list_ordered bucket full_path page_size (sort_key re_key new_results))) (\<lambda>it.
         eff_return \<lparr>rh_dir_ino = dir_ino, rh_parent_ino = parent_ino, rh_iter = it, rh_readded = None\<rparr>)))))"

definition lookup_from_entry ::
  "('m, 'c) sb_env \<Rightarrow> clock \<Rightarrow> nat \<Rightarrow> readdir_entry \<Rightarrow> string \<Rightarrow> ('m, 'c, looked_up_inode) sb_op" where
  "lookup_from_entry env clk dir_ino entry name = (case entry of
     LocalInode l _ \<Rightarrow> eff_return l
   | RemotePrefix _ \<Rightarrow>
       eff_bind (eff_gets (\<lambda>sb. stat_for_directory clk (sb_mount_time sb) (validity_of sb Directory))) (\<lambda>st.
       update_from_remote env clk dir_ino name (Some \<lparr>rl_kind = Directory, rl_stat = st\<rparr>))
   | RemoteObject _ ob \<Rightarrow>
       eff_bind (eff_gets (\<lambda>sb. stat_for_file clk (oi_size ob) (oi_last_modified ob) (Some (oi_etag ob)) (oi_storage_class ob)
         (oi_restore_status ob) (validity_of sb File))) (\<lambda>st.
       update_from_remote env clk dir_ino name (Some \<lparr>rl_kind = File, rl_stat = st\<rparr>)))"

text \<open>\<open>handle_next\<close> runs on the superblock and the handle; the fuel bounds the entries skipped by one call.\<close>

type_synonym ('m, 'c, 'a) handle_op = "(('m, 'c) superblock \<times> readdir_handle, inode_error, 'a) eff"

fun handle_loop ::
  "('m, 'c) sb_env \<Rightarrow> clock \<Rightarrow> hash_orders \<Rightarrow> nat \<Rightarrow> nat \<Rightarrow> ('m, 'c, looked_up_inode option) handle_op" where
  "handle_loop env clk ho n 0 = (\<lambda>_. Pending)"
| "handle_loop env clk ho n (Suc fuel) = (\<lambda>(sb, h).
     and_then (readdir_iter_next (ho_drain ho) (env_client env) n (sb_client sb, rh_iter h)) (\<lambda>((c, it), r).
     let sb = sb\<lparr>sb_client := c\<rparr>; h = h\<lparr>rh_iter := it\<rparr> in
     case r of
       Inl e \<Rightarrow> Done ((sb, h), Inl e)
     | Inr None \<Rightarrow> Done ((sb, h), Inr None)
     | Inr (Some e) \<Rightarrow> (case parse_str (re_name e) of
         Inl _ \<Rightarrow> handle_loop env clk ho n fuel (sb, h)
       | Inr name \<Rightarrow> and_then (lookup_from_entry env clk (rh_dir_ino h) e name sb) (\<lambda>(sb, r).
           Done ((sb, h), map_sum id Some r)))))"

definition handle_next ::
  "('m, 'c) sb_env \<Rightarrow> clock \<Rightarrow> hash_orders \<Rightarrow> nat \<Rightarrow> ('m, 'c, looked_up_inode option) handle_op" where
  "handle_next env clk ho fuel = (\<lambda>(sb, h). case rh_readded h of
     Some l \<Rightarrow> Done ((sb, h\<lparr>rh_readded := None\<rparr>), Inr (Some l))
   | None \<Rightarrow> handle_loop env clk ho fuel fuel (sb, h))"

definition handle_readd :: "looked_up_inode \<Rightarrow> readdir_handle \<Rightarrow> readdir_handle run" where
  "handle_readd entry h = and_then (assert_that (rh_readded h = None)) (\<lambda>_. Done (h\<lparr>rh_readded := Some entry\<rparr>))"

section \<open>Requests\<close>

text \<open>
  A request on an open handle runs on the superblock and the handle's state. The callback \<open>add\<close> is the test
  \<open>fits\<close> whether the reply still has room, given the entries it took; the result is the entries of the reply. Offsets
  are 64-bit in the code and count the entries returned.
\<close>

type_synonym ('m, 'c, 'a) dir_op = "(('m, 'c) superblock \<times> dir_handle, inode_error, 'a) eff"

type_synonym reply_space = "dir_entry list \<Rightarrow> dir_entry \<Rightarrow> bool"

definition on_sb :: "('m, 'c, 'a) sb_op \<Rightarrow> ('m, 'c, 'a) dir_op" where
  "on_sb m = (\<lambda>(sb, dh). and_then (m sb) (\<lambda>(sb, r). Done ((sb, dh), r)))"

definition on_handle :: "('m, 'c, 'a) handle_op \<Rightarrow> ('m, 'c, 'a) dir_op" where
  "on_handle m = (\<lambda>(sb, dh). and_then (m (sb, dh_handle dh)) (\<lambda>((sb, h), r). Done ((sb, dh\<lparr>dh_handle := h\<rparr>), r)))"

definition dir_modify :: "(dir_handle \<Rightarrow> dir_handle) \<Rightarrow> ('m, 'c, unit) dir_op" where
  "dir_modify f = eff_modify (\<lambda>(sb, dh). (sb, f dh))"

definition dir_gets :: "(dir_handle \<Rightarrow> 'a) \<Rightarrow> ('m, 'c, 'a) dir_op" where
  "dir_gets f = eff_gets (\<lambda>(sb, dh). f dh)"

definition next_offset :: "('m, 'c, unit) dir_op" where
  "next_offset = dir_modify (dh_offset_update (\<lambda>n. n + 1))"

definition reply_finish :: "int \<Rightarrow> dir_entry list \<Rightarrow> ('m, 'c, unit) dir_op" where
  "reply_finish offset entries = dir_modify (dh_last_response_update (\<lambda>_. Some (offset, entries)))"

definition readdir_rewind :: "('m, 'c) sb_env \<Rightarrow> hash_orders \<Rightarrow> nat \<Rightarrow> int \<Rightarrow> ('m, 'c, unit) dir_op" where
  "readdir_rewind env ho parent offset = eff_bind (dir_gets dh_offset) (\<lambda>at.
     if offset = 0 \<and> at \<noteq> 0 then
       eff_bind (on_sb (eff_bind (sb_get env parent) (\<lambda>a. eff_bind (sb_node a) (\<lambda>n.
         eff_bind (eff_gets (\<lambda>sb. full_key_for_inode sb n)) (\<lambda>key.
         readdir_handle_new env ho (in_ino n) (in_parent n) (vk_key key) 1000))))) (\<lambda>new_handle.
       dir_modify (\<lambda>dh. dh\<lparr>dh_handle := new_handle, dh_offset := 0, dh_last_response := None\<rparr>))
     else eff_return ())"

definition as_usize :: "int \<Rightarrow> nat" where
  "as_usize x = nat (x mod 2 ^ 64)"

fun repeat_entries :: "reply_space \<Rightarrow> bool \<Rightarrow> dir_entry list \<Rightarrow> dir_entry list \<Rightarrow> ('m, 'c, dir_entry list) dir_op" where
  "repeat_entries fits readdirplus added [] = eff_return added"
| "repeat_entries fits readdirplus added (e # es) =
     (if \<not> fits added e then eff_return added
      else eff_bind (if readdirplus \<and> de_name e \<noteq> ''.'' \<and> de_name e \<noteq> ''..'' then on_sb (remember (li_inode (de_lookup e))) else eff_return ())
        (\<lambda>_. repeat_entries fits readdirplus (added @ [e]) es))"

definition repeat_response :: "reply_space \<Rightarrow> bool \<Rightarrow> nat \<Rightarrow> int \<Rightarrow> ('m, 'c, dir_entry list) dir_op" where
  "repeat_response fits readdirplus fh offset = eff_bind (dir_gets (\<lambda>dh. (dh_offset dh, dh_last_response dh))) (\<lambda>(expected, last_response).
     case last_response of
       Some (last_offset, entries) \<Rightarrow>
         eff_bind (eff_run (assert_that (as_usize last_offset + length entries < 2 ^ 64))) (\<lambda>_.
         if as_usize last_offset \<le> as_usize offset \<and> as_usize offset < as_usize last_offset + length entries
         then repeat_entries fits readdirplus [] (drop (as_usize offset - as_usize last_offset) entries)
         else eff_error (OutOfOrderReadDir expected offset fh))
     | None \<Rightarrow> eff_error (OutOfOrderReadDir expected offset fh))"

text \<open>The entries \<open>.\<close> and \<open>..\<close>: the result says whether the reply has room for more.\<close>

definition add_dots ::
  "('m, 'c) sb_env \<Rightarrow> clock \<Rightarrow> bool \<Rightarrow> reply_space \<Rightarrow> int \<Rightarrow> int \<Rightarrow> string \<Rightarrow> nat \<Rightarrow> dir_entry list \<Rightarrow>
     ('m, 'c, bool \<times> dir_entry list) dir_op" where
  "add_dots env clk head_first fits offset limit name ino added = eff_bind (dir_gets dh_offset) (\<lambda>at.
     if at < limit then
       eff_bind (on_sb (getattr_with_inode env clk head_first ino False)) (\<lambda>l.
       let entry = \<lparr>de_lookup = l, de_offset = at + 1, de_name = name, de_generation = 0\<rparr> in
       if \<not> fits added entry then eff_bind (reply_finish offset added) (\<lambda>_. eff_return (False, added))
       else eff_bind next_offset (\<lambda>_. eff_return (True, added @ [entry])))
     else eff_return (True, added))"

fun readdir_loop ::
  "('m, 'c) sb_env \<Rightarrow> clock \<Rightarrow> hash_orders \<Rightarrow> nat \<Rightarrow> reply_space \<Rightarrow> bool \<Rightarrow> int \<Rightarrow> nat \<Rightarrow> dir_entry list \<Rightarrow>
     ('m, 'c, dir_entry list) dir_op" where
  "readdir_loop env clk ho n fits readdirplus offset 0 added = (\<lambda>_. Pending)"
| "readdir_loop env clk ho n fits readdirplus offset (Suc fuel) added =
     eff_bind (on_handle (handle_next env clk ho n)) (\<lambda>nxt. case nxt of
       None \<Rightarrow> eff_bind (reply_finish offset added) (\<lambda>_. eff_return added)
     | Some l \<Rightarrow>
         eff_bind (on_sb (eff_bind (sb_node (li_inode l)) (\<lambda>n. eff_run (vk_name (in_key n))))) (\<lambda>name.
         eff_bind (dir_gets dh_offset) (\<lambda>at.
         let entry = \<lparr>de_lookup = l, de_offset = at + 1, de_name = name, de_generation = 0\<rparr> in
         if \<not> fits added entry then
           eff_bind (dir_gets dh_handle) (\<lambda>h. eff_bind (eff_run (handle_readd l h)) (\<lambda>h.
           eff_bind (dir_modify (dh_handle_update (\<lambda>_. h))) (\<lambda>_.
           eff_bind (reply_finish offset added) (\<lambda>_. eff_return added))))
         else
           eff_bind (if readdirplus then on_sb (remember (li_inode l)) else eff_return ()) (\<lambda>_.
           eff_bind next_offset (\<lambda>_. readdir_loop env clk ho n fits readdirplus offset fuel (added @ [entry]))))))"

definition readdir_on ::
  "('m, 'c) sb_env \<Rightarrow> clock \<Rightarrow> bool \<Rightarrow> hash_orders \<Rightarrow> nat \<Rightarrow> reply_space \<Rightarrow> nat \<Rightarrow> nat \<Rightarrow> int \<Rightarrow> bool \<Rightarrow>
     ('m, 'c, dir_entry list) dir_op" where
  "readdir_on env clk head_first ho fuel fits parent fh offset readdirplus =
     eff_bind (readdir_rewind env ho parent offset) (\<lambda>_. eff_bind (dir_gets (\<lambda>dh. (dh_offset dh, rh_parent_ino (dh_handle dh)))) (\<lambda>(at, up).
     if offset \<noteq> at \<and> offset > 0 then repeat_response fits readdirplus fh offset
     else
       eff_bind (add_dots env clk head_first fits offset 1 ''.'' parent []) (\<lambda>(room, added).
       if \<not> room then eff_return added
       else eff_bind (add_dots env clk head_first fits offset 2 ''..'' up added) (\<lambda>(room, added).
       if \<not> room then eff_return added
       else readdir_loop env clk ho fuel fits readdirplus offset fuel added))))"

section \<open>Directory handles of the superblock\<close>

record ('m, 'c) dir_table =
  dt_sb :: "('m, 'c) superblock"
  dt_handles :: "nat \<rightharpoonup> dir_handle"
  dt_next_handle :: nat

type_synonym ('m, 'c, 'a) table_op = "(('m, 'c) dir_table, inode_error, 'a) eff"

definition dir_table_new :: "('m, 'c) superblock \<Rightarrow> ('m, 'c) dir_table" where
  "dir_table_new sb = \<lparr>dt_sb = sb, dt_handles = Map.empty, dt_next_handle = 1\<rparr>"

definition on_table :: "('m, 'c, 'a) sb_op \<Rightarrow> ('m, 'c, 'a) table_op" where
  "on_table m = (\<lambda>t. and_then (m (dt_sb t)) (\<lambda>(sb, r). Done (t\<lparr>dt_sb := sb\<rparr>, r)))"

definition new_readdir_handle_with_pagesize ::
  "('m, 'c) sb_env \<Rightarrow> hash_orders \<Rightarrow> nat \<Rightarrow> nat \<Rightarrow> ('m, 'c, nat) table_op" where
  "new_readdir_handle_with_pagesize env ho dir_ino page_size =
     eff_bind (on_table (eff_bind (sb_get env dir_ino) (\<lambda>a. eff_bind (sb_node a) (\<lambda>dir.
       if in_kind dir \<noteq> Directory then eff_error (NotADirectory (inode_err dir))
       else eff_bind (eff_gets (\<lambda>sb. full_key_for_inode sb dir)) (\<lambda>dir_key.
         eff_bind (eff_run (assert_that (vk_kind dir_key = Directory))) (\<lambda>_.
         readdir_handle_new env ho dir_ino (in_parent dir) (vk_key dir_key) page_size)))))) (\<lambda>handle.
     eff_bind (eff_gets dt_next_handle) (\<lambda>handle_id.
     eff_bind (eff_modify (\<lambda>t. t\<lparr>dt_next_handle := Suc handle_id,
       dt_handles := (dt_handles t)(handle_id \<mapsto> dir_handle_new (rh_parent_ino handle) handle)\<rparr>)) (\<lambda>_. eff_return handle_id)))"

definition new_readdir_handle :: "('m, 'c) sb_env \<Rightarrow> hash_orders \<Rightarrow> nat \<Rightarrow> ('m, 'c, nat) table_op" where
  "new_readdir_handle env ho dir_ino = new_readdir_handle_with_pagesize env ho dir_ino 1000"

definition sb_readdir ::
  "('m, 'c) sb_env \<Rightarrow> clock \<Rightarrow> bool \<Rightarrow> hash_orders \<Rightarrow> nat \<Rightarrow> reply_space \<Rightarrow> nat \<Rightarrow> nat \<Rightarrow> int \<Rightarrow> bool \<Rightarrow>
     ('m, 'c, dir_entry list) table_op" where
  "sb_readdir env clk head_first ho fuel fits parent fh offset readdirplus = (\<lambda>t. case dt_handles t fh of
     None \<Rightarrow> Done (t, Inl (NoSuchDirHandle fh))
   | Some dh \<Rightarrow> and_then (readdir_on env clk head_first ho fuel fits parent fh offset readdirplus (dt_sb t, dh)) (\<lambda>((sb, dh), r).
       Done (t\<lparr>dt_sb := sb, dt_handles := (dt_handles t)(fh \<mapsto> dh)\<rparr>, r)))"

definition sb_releasedir :: "nat \<Rightarrow> ('m, 'c, unit) table_op" where
  "sb_releasedir fh = (\<lambda>t. case dt_handles t fh of
     None \<Rightarrow> Done (t, Inl (NoSuchDirHandle fh))
   | Some _ \<Rightarrow> Done (t\<lparr>dt_handles := (dt_handles t)(fh := None)\<rparr>, Inr ()))"

section \<open>What a handle still lists\<close>

text \<open>
  The entries a handle gives, to a consumer that takes them all: each is pulled from the handle, named, and
  remembered when the request asks for inodes (\<open>readdirplus\<close>).
\<close>

definition take_entry :: "bool \<Rightarrow> looked_up_inode \<Rightarrow> ('m, 'c, unit) sb_op" where
  "take_entry readdirplus l = (if readdirplus then remember (li_inode l) else eff_return ())"

inductive listing ::
  "('m, 'c) sb_env \<Rightarrow> clock \<Rightarrow> hash_orders \<Rightarrow> nat \<Rightarrow> bool \<Rightarrow> ('m, 'c) superblock \<times> readdir_handle \<Rightarrow>
     (looked_up_inode \<times> string) list \<Rightarrow> ('m, 'c) superblock \<times> readdir_handle \<Rightarrow> bool"
  for env clk ho n readdirplus where
  finished: "handle_next env clk ho n s = Done (s', Inr None) \<Longrightarrow> listing env clk ho n readdirplus s [] s'"
| entry: "handle_next env clk ho n s = Done ((sb, h), Inr (Some l)) \<Longrightarrow> sb_arena sb (li_inode l) = Some nd \<Longrightarrow>
    vk_name (in_key nd) = Done name \<Longrightarrow> take_entry readdirplus l sb = Done (sb', Inr ()) \<Longrightarrow>
    listing env clk ho n readdirplus (sb', h) es t \<Longrightarrow> listing env clk ho n readdirplus s ((l, name) # es) t"

inductive_cases listing_NilE: "listing env clk ho n readdirplus s [] t"
inductive_cases listing_ConsE: "listing env clk ho n readdirplus s (x # es) t"

text \<open>The reply made of entries, numbered from an offset, and how many of them fit.\<close>

fun reply_entries :: "int \<Rightarrow> (looked_up_inode \<times> string) list \<Rightarrow> dir_entry list" where
  "reply_entries at [] = []"
| "reply_entries at ((l, name) # es) =
     \<lparr>de_lookup = l, de_offset = at + 1, de_name = name, de_generation = 0\<rparr> # reply_entries (at + 1) es"

fun fitting :: "reply_space \<Rightarrow> dir_entry list \<Rightarrow> dir_entry list \<Rightarrow> nat" where
  "fitting fits added [] = 0"
| "fitting fits added (e # es) = (if fits added e then Suc (fitting fits (added @ [e]) es) else 0)"

lemma length_reply_entries [simp]: "length (reply_entries at es) = length es"
  by (induction at es rule: reply_entries.induct) auto

lemma fitting_le: "fitting fits added es \<le> length es"
  by (induction fits added es rule: fitting.induct) auto

lemma fitting_all: "(\<And>a e. fits a e) \<Longrightarrow> fitting fits added es = length es"
  by (induction fits added es rule: fitting.induct) auto

lemma handle_loop_readded:
  "handle_loop env clk ho n fuel s = Done (s', r) \<Longrightarrow> rh_readded (snd s') = rh_readded (snd s)"
proof (induction fuel arbitrary: s)
  case (Suc fuel)
  obtain sb h where s: "s = (sb, h)" by (cases s)
  obtain c it r1 where it: "readdir_iter_next (ho_drain ho) (env_client env) n (sb_client sb, rh_iter h) = Done ((c, it), r1)"
    using Suc.prems s by (auto simp: and_then_Done_iff split: prod.splits)
  show ?case
  proof (cases r1)
    case (Inl e)
    with Suc.prems s it show ?thesis by auto
  next
    case (Inr x)
    show ?thesis
    proof (cases x)
      case None
      with Suc.prems s it Inr show ?thesis by auto
    next
      case (Some e)
      show ?thesis
      proof (cases "parse_str (re_name e)")
        case (Inl u)
        with Suc.prems s it Inr Some Suc.IH [of "(sb\<lparr>sb_client := c\<rparr>, h\<lparr>rh_iter := it\<rparr>)"] show ?thesis by simp
      next
        case (Inr name)
        with Suc.prems s it \<open>r1 = Inr x\<close> Some show ?thesis by (auto simp: and_then_Done_iff)
      qed
    qed
  qed
qed simp

lemma handle_next_readded:
  assumes "handle_next env clk ho n (sb, h) = Done (s', r)"
  shows "rh_readded (snd s') = None"
proof (cases "rh_readded h")
  case None
  with assms have "handle_loop env clk ho n n (sb, h) = Done (s', r)" by (simp add: handle_next_def)
  from handle_loop_readded [OF this] None show ?thesis by simp
next
  case (Some l)
  with assms show ?thesis by (auto simp: handle_next_def)
qed

lemma on_parts:
  "m (sb, dh_handle dh) = Done ((sb', h), r) \<Longrightarrow> on_handle m (sb, dh) = Done ((sb', dh\<lparr>dh_handle := h\<rparr>), r)"
  "m' sb = Done (sb', q) \<Longrightarrow> on_sb m' (sb, dh) = Done ((sb', dh), q)"
  "dir_gets f (sb, dh) = Done ((sb, dh), Inr (f dh))"
  "dir_modify g (sb, dh) = Done ((sb, g dh), Inr ())"
  "next_offset (sb, dh) = Done ((sb, dh\<lparr>dh_offset := dh_offset dh + 1\<rparr>), Inr ())"
  "reply_finish offset es (sb, dh) = Done ((sb, dh\<lparr>dh_last_response := Some (offset, es)\<rparr>), Inr ())"
  by (simp_all add: on_handle_def on_sb_def dir_gets_def dir_modify_def next_offset_def reply_finish_def)

text \<open>An entry that did not fit comes first when listing goes on.\<close>

lemma readd_listing:
  assumes "handle_next env clk ho n (sb0, h0) = Done ((sb, h), Inr (Some l))"
    and "listing env clk ho n readdirplus (sb0, h0) ((l, name) # es) t"
  shows "\<exists>h'. handle_readd l h = Done h' \<and> listing env clk ho n readdirplus (sb, h') ((l, name) # es) t"
proof -
  have r: "rh_readded h = None" using handle_next_readded [OF assms(1)] by simp
  let ?h = "h\<lparr>rh_readded := Some l\<rparr>"
  from assms obtain nd sb' where c: "sb_arena sb (li_inode l) = Some nd" "vk_name (in_key nd) = Done name"
    "take_entry readdirplus l sb = Done (sb', Inr ())" "listing env clk ho n readdirplus (sb', h) es t"
    by (auto elim!: listing_ConsE)
  have "handle_next env clk ho n (sb, ?h) = Done ((sb, h), Inr (Some l))" using r by (cases h) (simp add: handle_next_def)
  from listing.entry [OF this c] r show ?thesis by (simp add: handle_readd_def)
qed

lemma readdir_loop_lists:
  assumes "listing env clk ho n readdirplus (sb, dh_handle dh) es t" and "length es < fuel"
    and "k = fitting fits added (reply_entries (dh_offset dh) es)"
  shows "\<exists>sb' h'. readdir_loop env clk ho n fits readdirplus offset fuel added (sb, dh) =
      Done ((sb', dh\<lparr>dh_handle := h', dh_offset := dh_offset dh + int k,
          dh_last_response := Some (offset, added @ take k (reply_entries (dh_offset dh) es))\<rparr>),
        Inr (added @ take k (reply_entries (dh_offset dh) es))) \<and>
    (if k = length es then (sb', h') = t else listing env clk ho n readdirplus (sb', h') (drop k es) t)"
  using assms
proof (induction es arbitrary: sb dh fuel added k)
  case Nil
  then obtain f where "fuel = Suc f" by (cases fuel) auto
  moreover have "handle_next env clk ho n (sb, dh_handle dh) = Done (t, Inr None)" using Nil(1) by (auto elim: listing_NilE)
  ultimately show ?case using Nil(3)
    by (cases t) (simp add: on_parts)
next
  case (Cons x es)
  obtain l name where x: "x = (l, name)" by (cases x)
  from Cons.prems(1) x obtain sb1 h1 nd sb2 where c: "handle_next env clk ho n (sb, dh_handle dh) = Done ((sb1, h1), Inr (Some l))"
    "sb_arena sb1 (li_inode l) = Some nd" "vk_name (in_key nd) = Done name" "take_entry readdirplus l sb1 = Done (sb2, Inr ())"
    "listing env clk ho n readdirplus (sb2, h1) es t"
    by (auto elim!: listing_ConsE)
  obtain f where f: "fuel = Suc f" "length es < f" using Cons.prems(2) by (cases fuel) auto
  let ?e = "\<lparr>de_lookup = l, de_offset = dh_offset dh + 1, de_name = name, de_generation = 0\<rparr>"
  have nm: "eff_bind (sb_node (li_inode l)) (\<lambda>n. eff_run (vk_name (in_key n))) sb1 = Done (sb1, Inr name)"
    using c(2,3) by (simp add: eff_bind_def sb_node_def)
  have "on_handle (handle_next env clk ho n) (sb, dh) = Done ((sb1, dh\<lparr>dh_handle := h1\<rparr>), Inr (Some l))"
    by (rule on_parts(1)) (rule c(1))
  note run = this on_parts(2) [where m' = "eff_bind (sb_node (li_inode l)) (\<lambda>n. eff_run (vk_name (in_key n)))", OF nm] on_parts(3-) f(1)
  show ?case
  proof (cases "fits added ?e")
    case False
    obtain h' where h': "handle_readd l h1 = Done h'" "listing env clk ho n readdirplus (sb1, h') ((l, name) # es) t"
      using readd_listing [OF c(1)] Cons.prems(1) x by blast
    with False Cons.prems(3) x show ?thesis by (simp add: run) blast
  next
    case True
    let ?dh = "dh\<lparr>dh_handle := h1, dh_offset := dh_offset dh + 1\<rparr>"
    obtain k' where k': "k' = fitting fits (added @ [?e]) (reply_entries (dh_offset ?dh) es)" "k = Suc k'"
      using True Cons.prems(3) x by simp
    have te: "(if readdirplus then on_sb (remember (li_inode l)) else eff_return ()) (sb1, dh\<lparr>dh_handle := h1\<rparr>) =
        Done ((sb2, dh\<lparr>dh_handle := h1\<rparr>), Inr ())"
      using c(4) by (simp add: take_entry_def on_sb_def split: if_splits)
    have step: "readdir_loop env clk ho n fits readdirplus offset fuel added (sb, dh) =
        readdir_loop env clk ho n fits readdirplus offset f (added @ [?e]) (sb2, ?dh)"
      using True te by (simp add: run)
    have "listing env clk ho n readdirplus (sb2, dh_handle ?dh) es t" using c(5) by simp
    from Cons.IH [OF this f(2) k'(1)] obtain sb' h' where
      ih: "readdir_loop env clk ho n fits readdirplus offset f (added @ [?e]) (sb2, ?dh) =
        Done ((sb', ?dh\<lparr>dh_handle := h', dh_offset := dh_offset ?dh + int k',
          dh_last_response := Some (offset, (added @ [?e]) @ take k' (reply_entries (dh_offset ?dh) es))\<rparr>),
          Inr ((added @ [?e]) @ take k' (reply_entries (dh_offset ?dh) es)))"
      "if k' = length es then (sb', h') = t else listing env clk ho n readdirplus (sb', h') (drop k' es) t" by blast
    show ?thesis
      by (rule exI [of _ sb'], rule exI [of _ h']) (use step ih x k'(2) in simp)
  qed
qed

section \<open>Requests that go on\<close>

lemma no_rewind: "dh_offset dh = offset \<or> 0 < offset \<Longrightarrow> readdir_rewind env ho parent offset (sb, dh) = Done ((sb, dh), Inr ())"
  by (auto simp: readdir_rewind_def on_parts)

lemma no_dots: "limit \<le> dh_offset dh \<Longrightarrow> add_dots env clk h fits offset limit name ino added (sb, dh) = Done ((sb, dh), Inr (True, added))"
  by (simp add: add_dots_def on_parts)

text \<open>
  C32: A request at the handle's offset, after the entries \<open>.\<close> and \<open>..\<close>, returns the next entries of the directory in
  order with consecutive offsets, as many as fit the reply. It moves the handle's offset by that many, remembers
  the response, and loses nothing: the handle still lists exactly the entries that were not returned, the one
  that did not fit first. So the sizes of the replies do not change what a directory lists.
\<close>

theorem readdir_loses_nothing:
  assumes "dt_handles t fh = Some dh" and "dh_offset dh = offset" and "2 \<le> offset"
    and "listing env clk ho fuel readdirplus (dt_sb t, dh_handle dh) es u" and "length es < fuel"
  shows "\<exists>t' h' k. k = fitting fits [] (reply_entries offset es) \<and>
    sb_readdir env clk head_first ho fuel fits parent fh offset readdirplus t = Done (t', Inr (take k (reply_entries offset es))) \<and>
    dt_handles t' = (dt_handles t)(fh \<mapsto> dh\<lparr>dh_handle := h', dh_offset := offset + int k,
      dh_last_response := Some (offset, take k (reply_entries offset es))\<rparr>) \<and>
    (if k = length es then (dt_sb t', h') = u else listing env clk ho fuel readdirplus (dt_sb t', h') (drop k es) u)"
proof -
  let ?k = "fitting fits [] (reply_entries offset es)"
  obtain sb' h' where l: "readdir_loop env clk ho fuel fits readdirplus offset fuel [] (dt_sb t, dh) =
      Done ((sb', dh\<lparr>dh_handle := h', dh_offset := offset + int ?k, dh_last_response := Some (offset, take ?k (reply_entries offset es))\<rparr>),
        Inr (take ?k (reply_entries offset es)))"
    "if ?k = length es then (sb', h') = u else listing env clk ho fuel readdirplus (sb', h') (drop ?k es) u"
    using readdir_loop_lists [OF assms(4,5) refl, where fits = fits and added = "[]" and offset = offset] assms(2) by auto
  have "sb_readdir env clk head_first ho fuel fits parent fh offset readdirplus t =
      Done (t\<lparr>dt_sb := sb', dt_handles := (dt_handles t)(fh \<mapsto> dh\<lparr>dh_handle := h', dh_offset := offset + int ?k,
        dh_last_response := Some (offset, take ?k (reply_entries offset es))\<rparr>)\<rparr>, Inr (take ?k (reply_entries offset es)))"
    using assms(1-3) l(1) by (simp add: sb_readdir_def readdir_on_def no_rewind no_dots on_parts)
  then show ?thesis using l(2)
    by (intro exI [of _ "t\<lparr>dt_sb := sb', dt_handles := (dt_handles t)(fh \<mapsto> dh\<lparr>dh_handle := h', dh_offset := offset + int ?k,
        dh_last_response := Some (offset, take ?k (reply_entries offset es))\<rparr>)\<rparr>"] exI [of _ h'] exI [of _ ?k]) simp
qed

definition witness_orders :: hash_orders where
  "witness_orders = \<lparr>ho_children = (\<lambda>_. []), ho_drain = map snd\<rparr>"

text \<open>A handle on the root that has listed everything but an entry held back, the root itself.\<close>

definition witness_entry :: looked_up_inode where
  "witness_entry = looked_up witness_sb 0 (is_stat (in_sync witness_root_inode)) Remote"

definition witness_handle :: "looked_up_inode option \<Rightarrow> readdir_handle" where
  "witness_handle readded = \<lparr>rh_dir_ino = 1, rh_parent_ino = 1,
     rh_iter = Ordered ((ordered_iter_new [] [] 1 [])\<lparr>oi_remote := (remote_iter_new [] [] 1 True)\<lparr>ri_state := Finished\<rparr>\<rparr>), rh_readded = readded\<rparr>"

definition witness_dir :: dir_handle where
  "witness_dir = (dir_handle_new 1 (witness_handle (Some witness_entry)))\<lparr>dh_offset := 2\<rparr>"

definition witness_table :: "((neg_key \<times> nat) list, mock_client) dir_table" where
  "witness_table = (dir_table_new witness_sb)\<lparr>dt_handles := [1 \<mapsto> witness_dir]\<rparr>"

lemma witness_listing:
  "listing (mock_env (\<lambda>_. 0)) \<lparr>ck_now = 8, ck_system = 9\<rparr> witness_orders 3 False (witness_sb, witness_handle (Some witness_entry))
     [(witness_entry, [])] (witness_sb, witness_handle None)"
proof (rule listing.entry)
  show "handle_next (mock_env (\<lambda>_. 0)) \<lparr>ck_now = 8, ck_system = 9\<rparr> witness_orders 3 (witness_sb, witness_handle (Some witness_entry)) =
      Done ((witness_sb, witness_handle None), Inr (Some witness_entry))"
    by (simp add: handle_next_def witness_handle_def)
  show "sb_arena witness_sb (li_inode witness_entry) = Some witness_root_inode" by (simp add: witness_entry_def looked_up_def witness_arena)
  show "vk_name (in_key witness_root_inode) = Done []" by (simp add: witness_root_simps vk_root_def vk_name_def)
  show "take_entry False witness_entry witness_sb = Done (witness_sb, Inr ())" by (simp add: take_entry_def)
  show "listing (mock_env (\<lambda>_. 0)) \<lparr>ck_now = 8, ck_system = 9\<rparr> witness_orders 3 False (witness_sb, witness_handle None) []
      (witness_sb, witness_handle None)"
    by (rule listing.finished) (simp add: handle_next_def witness_handle_def numeral_3_eq_3 readdir_iter_next_def eff_bind_def refill_remote_def
        remote_iter_next_def ordered_iter_new_def remote_iter_new_def refill_local_def take_next_def take_local_def)
qed

theorem readdir_loses_nothing_witness:
  "\<exists>t'. sb_readdir (mock_env (\<lambda>_. 0)) \<lparr>ck_now = 8, ck_system = 9\<rparr> True witness_orders 3 (\<lambda>_ _. True) 1 1 2 False witness_table =
     Done (t', Inr [\<lparr>de_lookup = witness_entry, de_offset = 3, de_name = [], de_generation = 0\<rparr>])"
  using readdir_loses_nothing [of witness_table 1 witness_dir 2 "mock_env (\<lambda>_. 0)" "\<lparr>ck_now = 8, ck_system = 9\<rparr>" witness_orders 3 False
      "[(witness_entry, [])]" "(witness_sb, witness_handle None)" "\<lambda>_ _. True" True 1] witness_listing
  by (auto simp: witness_table_def dir_table_new_def witness_dir_def dir_handle_new_def)

lemma repeat_entries_ok:
  assumes "\<forall>e \<in> set es. sb_arena sb (li_inode (de_lookup e)) \<noteq> None"
  shows "\<exists>sb'. repeat_entries fits readdirplus added es (sb, dh) = Done ((sb', dh), Inr (added @ take (fitting fits added es) es)) \<and>
    (\<not> readdirplus \<longrightarrow> sb' = sb)"
  using assms
proof (induction es arbitrary: sb added)
  case (Cons e es)
  obtain nd where nd: "sb_arena sb (li_inode (de_lookup e)) = Some nd" using Cons.prems by auto
  let ?m = "if readdirplus \<and> de_name e \<noteq> ''.'' \<and> de_name e \<noteq> ''..'' then on_sb (remember (li_inode (de_lookup e))) else eff_return ()"
  let ?sb = "if readdirplus \<and> de_name e \<noteq> ''.'' \<and> de_name e \<noteq> ''..'' then increase_lookup_count (li_inode (de_lookup e)) nd sb else sb"
  have m: "?m (sb, dh) = Done ((?sb, dh), Inr ())"
    using nd by (simp add: on_sb_def remember_def eff_bind_def sb_node_def)
  have "\<forall>e \<in> set es. sb_arena ?sb (li_inode (de_lookup e)) \<noteq> None" using Cons.prems by (simp add: increase_lookup_count_def)
  from Cons.IH [OF this, of "added @ [e]"] m show ?case by auto
qed simp



end
