(* ===== verification/Readdir_Total.thy ===== *)
theory Readdir_Total
  imports Readdir
begin

text \<open>
  Opening and reading a directory returns: on the in-memory bucket, in every well-formed superblock, no request
  panics or loops for ever, and the superblock stays well-formed.
\<close>

section \<open>The client's state\<close>

lemma frame_client_modify [frame_intros]:
  "frame sb_client (eff_modify (update_negative_cache env clk i name r))"
  "frame sb_client (eff_modify (\<lambda>sb. sb\<lparr>sb_next_ino := k sb\<rparr>))"
  "frame sb_client (set_state a st)" "frame sb_client (alloc_inode nd)" "frame sb_client (sb_node b)"
  by (auto intro!: frame_modify simp: update_negative_cache_def set_state_def put_state_def alloc_inode_def frame_def sb_node_def
      split: option.splits)

lemma frame_client_update: "frame sb_client (update_from_remote env clk i name r)"
  unfolding update_from_remote_def try_update_fast_path_def update_slow_path_def create_remote_def create_inode_locked_def
    remove_writing_child_def sb_get_def get_inode_state_def Let_def
  by (intro frame_intros)

lemma frame_client_entry: "frame sb_client (lookup_from_entry env clk i e name)"
  unfolding lookup_from_entry_def by (cases e) (simp_all, (intro frame_intros frame_client_update)+)

lemma frame_client_take: "frame sb_client (take_entry b l)"
  unfolding take_entry_def remember_def
  by (intro frame_intros) (auto intro!: frame_modify simp: increase_lookup_count_def)

definition bucket_of :: "('m, mock_client) superblock \<Rightarrow> (string, mock_object) rbt \<times> mock_client_config" where
  "bucket_of sb = (mc_objects (sb_client sb), mc_config (sb_client sb))"

lemma frame_bucket_call:
  assumes "\<And>c c' r. f c = Done (c', r) \<Longrightarrow> mc_objects c' = mc_objects c \<and> mc_config c' = mc_config c"
  shows "frame bucket_of (client_call f)"
  using assms by (auto simp: frame_def client_call_def bucket_of_def and_then_Done_iff)

lemma frame_bucket: "frame sb_client m \<Longrightarrow> frame bucket_of m"
  by (auto simp: frame_def bucket_of_def)

lemma frame_bucket_sections [frame_intros]:
  "frame bucket_of (update_from_remote env clk i name r)" "frame bucket_of (set_state a st)"
  "frame bucket_of (eff_modify (update_negative_cache env clk i name r))"
  by (rule frame_bucket, rule frame_client_update frame_client_modify)+

lemma frame_bucket_nc: "frame bucket_of (eff_modify (\<lambda>sb. sb\<lparr>sb_negative_cache := l sb\<rparr>))"
  by (rule frame_modify) (simp add: bucket_of_def)

lemma frame_bucket_requests:
  assumes "env_client env = mock_ops shuffle"
  shows "frame bucket_of (remote_file_lookup env clk k)" "frame bucket_of (remote_dir_lookup env k d)"
  unfolding remote_file_lookup_def remote_dir_lookup_def assms
  by (intro frame_intros frame_bucket_call;
      auto simp: mock_ops_def service_def head_object_def list_objects_def inc_op_count_def Let_def and_then_Done_iff
        split: option.splits if_splits client_error.splits head_object_error.splits intro: frame_intros)+

lemma frame_bucket_getattr:
  assumes "env_client env = mock_ops shuffle"
  shows "frame bucket_of (getattr_with_inode env clk h i False)"
  unfolding getattr_with_inode_def lookup_by_name_def cache_lookup_def do_cache_lookup_def sb_remote_lookup_def
    remote_directory_def remote_file_def Let_def
  by (intro frame_intros frame_bucket_requests [OF assms] frame_bucket_nc)

section \<open>One entry\<close>

text \<open>What is left to list, at most \<open>m\<close> entries, with every local inode known.\<close>

definition lists_from :: "('m, 'c) sb_env \<Rightarrow> (nat \<times> inode) set \<Rightarrow> ('m, 'c) superblock \<Rightarrow> readdir_handle \<Rightarrow> nat \<Rightarrow> bool" where
  "lists_from env K sb h m \<longleftrightarrow> (\<exists>oi rs ls. rh_iter h = Ordered oi \<and> ordered_holds (env_client env) (sb_client sb, oi) rs ls \<and>
     length rs + length ls \<le> m \<and> (\<forall>l name. LocalInode l name \<in> set rs \<union> set ls \<longrightarrow> li_inode l \<in> fst ` K))"

lemma lists_fromI:
  assumes "rh_iter h = Ordered oi" "ordered_holds (env_client env) (sb_client sb, oi) rs ls" "length rs + length ls \<le> m"
    and "\<And>l name. LocalInode l name \<in> set rs \<union> set ls \<Longrightarrow> li_inode l \<in> fst ` K"
  shows "lists_from env K sb h m"
  using assms by (simp only: lists_from_def) blast

lemma lookup_from_entry_total:
  assumes inv: "sb_inv env D K sb" and "valid_name name" and "\<And>l nm. e = LocalInode l nm \<Longrightarrow> li_inode l \<in> fst ` K"
  shows "\<exists>sb' r. lookup_from_entry env clk i e name sb = Done (sb', r) \<and> sb_client sb' = sb_client sb \<and>
    (case r of Inl err \<Rightarrow> sane err \<and> sb_inv env D K sb' | Inr l \<Rightarrow> \<exists>nd. sb_inv env D (insert (li_inode l, nd) K) sb')"
proof -
  have "eff_ok (sb_inv env D K) (lookup_from_entry env clk i e name)
    (\<lambda>l s. \<exists>nd. sb_inv env D (insert (li_inode l, nd) K) s) (keeps_err env D K)"
  proof (cases e)
    case (LocalInode l nm)
    with assms(3) obtain nd where "(li_inode l, nd) \<in> K" by force
    then have "insert (li_inode l, nd) K = K" by auto
    then have "eff_ok (sb_inv env D K) (eff_return l) (\<lambda>l s. \<exists>nd. sb_inv env D (insert (li_inode l, nd) K) s) (keeps_err env D K)"
      by (intro eff_ok_return exI [of _ nd]) simp
    then show ?thesis unfolding lookup_from_entry_def LocalInode readdir_entry.case .
  next
    case (RemotePrefix nm)
    show ?thesis unfolding lookup_from_entry_def RemotePrefix readdir_entry.case
      by (rule bind_gets, rule eff_ok_weaken [OF update_from_remote_keeps [OF assms(2)]]) (auto simp: looked_ok_def)
  next
    case (RemoteObject nm ob)
    show ?thesis unfolding lookup_from_entry_def RemoteObject readdir_entry.case
      by (rule bind_gets, rule eff_ok_weaken [OF update_from_remote_keeps [OF assms(2)]]) (auto simp: looked_ok_def)
  qed
  from eff_okD [OF this inv] show ?thesis using frameD [OF frame_client_entry] by blast
qed

lemma handle_loop_total:
  assumes "sb_inv env D K sb" and "lists_from env K sb h m" and "m < n" "m < fuel"
  shows "\<exists>sb' h' r. handle_loop env clk ho n fuel (sb, h) = Done ((sb', h'), r) \<and> rh_parent_ino h' = rh_parent_ino h \<and>
    (case r of Inl err \<Rightarrow> sane err \<and> sb_inv env D K sb' | Inr None \<Rightarrow> sb_inv env D K sb'
     | Inr (Some l) \<Rightarrow> \<exists>nd m'. m' < m \<and> sb_inv env D (insert (li_inode l, nd) K) sb' \<and> lists_from env K sb' h' m')"
  using assms
proof (induction fuel arbitrary: sb h m)
  case (Suc fuel)
  obtain oi rs ls where h: "rh_iter h = Ordered oi" "ordered_holds (env_client env) (sb_client sb, oi) rs ls" "length rs + length ls \<le> m"
    "\<forall>l name. LocalInode l name \<in> set rs \<union> set ls \<longrightarrow> li_inode l \<in> fst ` K"
    using Suc.prems(2) by (auto simp: lists_from_def)
  have "length rs + length ls < n" using h(3) Suc.prems(3) by simp
  note nx = ordered_next_holds [OF h(2) this]
  show ?case
  proof (cases "drop_repeated (map_option re_name (oi_last_entry oi)) (merge_entries rs ls)")
    case Nil
    with nx obtain c' it' where "ordered_next (env_client env) n (sb_client sb, oi) = Done ((c', it'), Inr None)" by auto
    with h(1) sb_inv_client [OF Suc.prems(1)] show ?thesis by (simp add: readdir_iter_next_def Let_def)
  next
    case (Cons e es)
    with nx obtain c' it' rs' ls' where
      n: "ordered_next (env_client env) n (sb_client sb, oi) = Done ((c', it'), Inr (Some e))"
      "ordered_holds (env_client env) (c', it') rs' ls'" "length rs' + length ls' < length rs + length ls"
      "set rs' \<union> set ls' \<subseteq> set rs \<union> set ls" by auto
    let ?sb = "sb\<lparr>sb_client := c'\<rparr>" and ?h = "h\<lparr>rh_iter := Ordered it'\<rparr>" and ?m = "length rs' + length ls'"
    have inv: "sb_inv env D K ?sb" by (rule sb_inv_client [OF Suc.prems(1)])
    have rest: "lists_from env K ?sb ?h ?m"
      by (rule lists_fromI [of _ it' _ _ rs' ls']) (use n(2,4) h(4) in auto)
    have m: "?m < m" using n(3) h(3) by simp
    have e: "e \<in> set rs \<union> set ls" using drop_repeated_sub [of _ "merge_entries rs ls"] Cons by (metis list.set_intros(1) set_merge_entries subsetD)
    have it: "readdir_iter_next (ho_drain ho) (env_client env) n (sb_client sb, rh_iter h) = Done ((c', Ordered it'), Inr (Some e))"
      using h(1) n(1) by (simp add: readdir_iter_next_def)
    show ?thesis
    proof (cases "parse_str (re_name e)")
      case (Inl err)
      have step: "handle_loop env clk ho n (Suc fuel) (sb, h) = handle_loop env clk ho n fuel (?sb, ?h)" using it Inl by simp
      have "?m < n" "?m < fuel" using m Suc.prems(3,4) by simp_all
      from Suc.IH [OF inv rest this] obtain sb' h' r where ih: "handle_loop env clk ho n fuel (?sb, ?h) = Done ((sb', h'), r)"
        "rh_parent_ino h' = rh_parent_ino h" "case r of Inl err \<Rightarrow> sane err \<and> sb_inv env D K sb' | Inr None \<Rightarrow> sb_inv env D K sb'
          | Inr (Some l) \<Rightarrow> \<exists>nd m'. m' < ?m \<and> sb_inv env D (insert (li_inode l, nd) K) sb' \<and> lists_from env K sb' h' m'" by auto
      have "case r of Inl err \<Rightarrow> sane err \<and> sb_inv env D K sb' | Inr None \<Rightarrow> sb_inv env D K sb'
          | Inr (Some l) \<Rightarrow> \<exists>nd m'. m' < m \<and> sb_inv env D (insert (li_inode l, nd) K) sb' \<and> lists_from env K sb' h' m'"
        using ih(3) m by (auto split: sum.splits option.splits) (metis less_trans)
      with step ih(1,2) show ?thesis by auto
    next
      case (Inr name)
      then have v: "valid_name name" using parse_str_Inr_iff by auto
      have le: "\<exists>sb' r. lookup_from_entry env clk (rh_dir_ino ?h) e name ?sb = Done (sb', r) \<and> sb_client sb' = sb_client ?sb \<and>
        (case r of Inl err \<Rightarrow> sane err \<and> sb_inv env D K sb' | Inr l \<Rightarrow> \<exists>nd. sb_inv env D (insert (li_inode l, nd) K) sb')"
        by (rule lookup_from_entry_total [OF inv v]) (use h(4) e in blast)
      obtain sb' r where l: "lookup_from_entry env clk (rh_dir_ino ?h) e name ?sb = Done (sb', r)" "sb_client sb' = c'"
        "case r of Inl err \<Rightarrow> sane err \<and> sb_inv env D K sb' | Inr l \<Rightarrow> \<exists>nd. sb_inv env D (insert (li_inode l, nd) K) sb'"
        using le by auto
      have run: "handle_loop env clk ho n (Suc fuel) (sb, h) = Done ((sb', ?h), map_sum id Some r)" using it Inr l(1) by simp
      have "lists_from env K sb' ?h ?m" using rest l(2) by (simp add: lists_from_def)
      with run l(3) m show ?thesis by (cases r) auto
    qed
  qed
qed simp

section \<open>A request\<close>

lemma known_name:
  assumes "sb_inv env D (insert (a, nd) K) sb"
  shows "\<exists>name. eff_bind (sb_node a) (\<lambda>n. eff_run (vk_name (in_key n))) sb = Done (sb, Inr name)"
proof -
  obtain m where m: "sb_arena sb a = Some m" "hdr m = hdr nd" using sb_invD(3) [OF assms, of a nd] by (auto simp: snapshot_def)
  obtain name where "vk_name (in_key nd) = Done name" using node_name [OF sb_inv_facts [OF assms insertI1]] by blast
  with m hdr_eqD [OF m(2)] show ?thesis by (simp add: eff_bind_def sb_node_def)
qed

lemma lists_from_more: "lists_from env K sb h m \<Longrightarrow> sb_client sb' = sb_client sb \<Longrightarrow> K \<subseteq> K' \<Longrightarrow> lists_from env K' sb' h m"
  unfolding lists_from_def by (metis (no_types, lifting) image_mono subsetD)

lemma readdir_loop_total:
  assumes "sb_inv env D K sb" and "lists_from env K sb (dh_handle dh) m" and "rh_readded (dh_handle dh) = None" and "m < n" "m < fuel"
  shows "\<exists>sb' dh' r. readdir_loop env clk ho n fits readdirplus offset fuel added (sb, dh) = Done ((sb', dh'), r) \<and>
    sb_ok env sb' \<and> (case r of Inl err \<Rightarrow> sane err | Inr _ \<Rightarrow> True)"
  using assms
proof (induction fuel arbitrary: sb dh K m added)
  case (Suc fuel)
  have hn: "handle_next env clk ho n (sb, dh_handle dh) = handle_loop env clk ho n n (sb, dh_handle dh)"
    using Suc.prems(3) by (simp add: handle_next_def)
  obtain sb1 h1 r where 1: "handle_loop env clk ho n n (sb, dh_handle dh) = Done ((sb1, h1), r)"
    "case r of Inl err \<Rightarrow> sane err \<and> sb_inv env D K sb1 | Inr None \<Rightarrow> sb_inv env D K sb1
     | Inr (Some l) \<Rightarrow> \<exists>nd m'. m' < m \<and> sb_inv env D (insert (li_inode l, nd) K) sb1 \<and> lists_from env K sb1 h1 m'"
    using handle_loop_total [OF Suc.prems(1,2,4,4), of clk ho] by auto
  have "rh_readded h1 = None" using handle_loop_readded [OF 1(1)] Suc.prems(3) by simp
  have on: "on_handle (handle_next env clk ho n) (sb, dh) = Done ((sb1, dh\<lparr>dh_handle := h1\<rparr>), r)"
    by (rule on_parts(1)) (simp add: hn 1(1))
  show ?case
  proof (cases r)
    case (Inl err)
    with on 1(2) sb_invD(1) show ?thesis by auto
  next
    case (Inr x)
    show ?thesis
    proof (cases x)
      case None
      with on 1(2) Inr sb_invD(1) show ?thesis by (auto simp: on_parts)
    next
      case (Some l)
      with 1(2) Inr obtain nd m' where l: "m' < m" "sb_inv env D (insert (li_inode l, nd) K) sb1" "lists_from env K sb1 h1 m'" by auto
      obtain name where nm: "eff_bind (sb_node (li_inode l)) (\<lambda>n. eff_run (vk_name (in_key n))) sb1 = Done (sb1, Inr name)"
        using known_name [OF l(2)] by blast
      note run = on on_parts(2) [where m' = "eff_bind (sb_node (li_inode l)) (\<lambda>n. eff_run (vk_name (in_key n)))", OF nm] on_parts(3-) Inr Some
      let ?e = "\<lparr>de_lookup = l, de_offset = dh_offset dh + 1, de_name = name, de_generation = 0\<rparr>"
      show ?thesis
      proof (cases "fits added ?e")
        case False
        have "handle_readd l h1 = Done (h1\<lparr>rh_readded := Some l\<rparr>)" using \<open>rh_readded h1 = None\<close> by (simp add: handle_readd_def)
        with False sb_invD(1) [OF l(2)] show ?thesis by (simp add: run)
      next
        case True
        have "eff_ok (sb_inv env D (insert (li_inode l, nd) K)) (take_entry readdirplus l) (\<lambda>_. sb_inv env D (insert (li_inode l, nd) K)) (\<lambda>_ _. False)"
          unfolding take_entry_def by (cases readdirplus) (auto intro: remember_keeps eff_ok_return)
        from eff_okD [OF this l(2)] obtain sb2 q where "take_entry readdirplus l sb1 = Done (sb2, q)"
          "case q of Inl _ \<Rightarrow> False | Inr _ \<Rightarrow> sb_inv env D (insert (li_inode l, nd) K) sb2" by blast
        then have t: "take_entry readdirplus l sb1 = Done (sb2, Inr ())" "sb_inv env D (insert (li_inode l, nd) K) sb2"
          by (cases q; simp)+
        let ?dh = "dh\<lparr>dh_handle := h1, dh_offset := dh_offset dh + 1\<rparr>"
        have "lists_from env (insert (li_inode l, nd) K) sb2 (dh_handle ?dh) m'"
          using lists_from_more [OF l(3) frameD [OF frame_client_take t(1)] subset_insertI] by simp
        from Suc.IH [OF t(2) this] \<open>rh_readded h1 = None\<close> l(1) Suc.prems(4,5)
        have "\<exists>sb' dh' r. readdir_loop env clk ho n fits readdirplus offset fuel (added @ [?e]) (sb2, ?dh) = Done ((sb', dh'), r) \<and>
          sb_ok env sb' \<and> (case r of Inl err \<Rightarrow> sane err | Inr _ \<Rightarrow> True)" by simp
        moreover have "(if readdirplus then on_sb (remember (li_inode l)) else eff_return ()) (sb1, dh\<lparr>dh_handle := h1\<rparr>) =
            Done ((sb2, dh\<lparr>dh_handle := h1\<rparr>), Inr ())"
          using t(1) by (simp add: take_entry_def on_sb_def split: if_splits)
        ultimately show ?thesis using True by (simp add: run)
      qed
    qed
  qed
qed simp

lemma add_dots_total:
  assumes "env_client env = mock_ops shuffle" "client_total env" and inv: "sb_inv env D K sb"
  shows "\<exists>sb' dh' r. add_dots env clk hf fits offset limit name ino added (sb, dh) = Done ((sb', dh'), r) \<and>
    sb_inv env D K sb' \<and> bucket_of sb' = bucket_of sb \<and> dh_handle dh' = dh_handle dh \<and> (case r of Inl err \<Rightarrow> sane err | Inr _ \<Rightarrow> True)"
proof (cases "dh_offset dh < limit")
  case True
  obtain sb' r where g: "getattr_with_inode env clk hf ino False sb = Done (sb', r)"
    "case r of Inl err \<Rightarrow> sane err \<and> sb_inv env D K sb' | Inr l \<Rightarrow> \<exists>n. in_ino n = ino \<and> node_facts n \<and> sb_inv env D (insert (li_inode l, n) K) sb'"
    using eff_okD [OF getattr_with_inode_keeps [OF assms(2)] inv, of clk hf ino False] by blast
  have b: "bucket_of sb' = bucket_of sb" by (rule frameD [OF frame_bucket_getattr [OF assms(1)] g(1)])
  have inv': "sb_inv env D K sb'" using g(2) by (auto split: sum.splits elim: sb_inv_weaken)
  note run = on_parts(2) [where m' = "getattr_with_inode env clk hf ino False", OF g(1)] on_parts(3-) True
  show ?thesis
  proof (cases r)
    case (Inl err)
    with g(2) b inv' show ?thesis by (auto simp: add_dots_def run)
  next
    case (Inr l)
    with b inv' show ?thesis
      by (cases "fits added \<lparr>de_lookup = l, de_offset = dh_offset dh + 1, de_name = name, de_generation = 0\<rparr>") (auto simp: add_dots_def run)
  qed
next
  case False
  with inv show ?thesis by (simp add: no_dots)
qed

section \<open>A handle just opened\<close>

definition known_locals :: "('m, 'c) superblock \<Rightarrow> readdir_entry list \<Rightarrow> bool" where
  "known_locals sb ls \<longleftrightarrow> (\<forall>e \<in> set ls. \<exists>l name. e = LocalInode l name \<and> sb_arena sb (li_inode l) \<noteq> None)"

definition arena_facts :: "('m, 'c) superblock \<Rightarrow> (nat \<times> inode) set" where
  "arena_facts sb = {(a, n). sb_arena sb a = Some n}"

lemma sb_inv_arena: "sb_ok env sb \<Longrightarrow> sb_inv env {} (arena_facts sb) sb"
  using snapshot_self by (auto simp: sb_inv_def arena_facts_def)

lemma sb_get_total:
  assumes "sb_ok env sb"
  obtains e where "sb_get env i sb = Done (sb, Inl e)" "sane e" | a n where "sb_get env i sb = Done (sb, Inr a)" "sb_arena sb a = Some n" "in_ino n = i"
proof (cases "sb_inodes sb i")
  case None
  with that(1) show thesis by (simp add: sb_get_def eff_bind_def)
next
  case (Some x)
  then obtain a c where x: "sb_inodes sb i = Some (a, c)" by (cases x) auto
  with that(2) sb_get_found [OF assms x] sb_okD(5) [OF assms x] show thesis by blast
qed

lemma get_state_total:
  assumes "sb_ok env sb" "sb_arena sb a = Some n"
  shows "get_inode_state a sb = Done (sb, if is_deleted n then Inl (InodeDoesNotExist (in_ino n)) else Inr n)"
  using assms(2) by (simp add: get_inode_state_def eff_bind_def sb_node_def)

lemma local_entry_total:
  assumes "sb_ok env sb"
  shows "\<exists>r. local_entry env ino sb = Done (sb, r) \<and> (case r of Inl e \<Rightarrow> sane e | Inr e \<Rightarrow> known_locals sb [e])"
proof -
  consider e where "sb_get env ino sb = Done (sb, Inl e)" "sane e" | a n where "sb_get env ino sb = Done (sb, Inr a)" "sb_arena sb a = Some n"
    using sb_get_total [OF assms, of ino] by metis
  then show ?thesis
  proof cases
    case 1
    then show ?thesis by (simp add: local_entry_def)
  next
    case (2 a n)
    have "node_facts n" using sb_inv_facts [OF sb_inv_arena [OF assms], of a n] 2(2) by (simp add: arena_facts_def)
    then obtain name where "vk_name (in_key n) = Done name" using node_name by blast
    with 2 get_state_total [OF assms 2(2)] show ?thesis
      by (cases "is_deleted n") (auto simp: local_entry_def known_locals_def looked_up_def)
  qed
qed

lemma local_entries_total:
  assumes "sb_ok env sb"
  shows "\<exists>r. eff_map (local_entry env) inos sb = Done (sb, r) \<and> (case r of Inl e \<Rightarrow> sane e | Inr es \<Rightarrow> known_locals sb es)"
proof (induction inos)
  case (Cons i inos)
  obtain r where r: "local_entry env i sb = Done (sb, r)" "case r of Inl e \<Rightarrow> sane e | Inr e \<Rightarrow> known_locals sb [e]"
    using local_entry_total [OF assms] by blast
  from Cons obtain q where q: "eff_map (local_entry env) inos sb = Done (sb, q)" "case q of Inl e \<Rightarrow> sane e | Inr es \<Rightarrow> known_locals sb es"
    by blast
  show ?case
    by (cases r; cases q) (use r q in \<open>auto simp: known_locals_def\<close>)
qed (simp add: known_locals_def)

definition fresh_handle :: "('m, 'c) superblock \<Rightarrow> string \<Rightarrow> nat \<Rightarrow> readdir_handle \<Rightarrow> bool" where
  "fresh_handle sb full_path page_size h \<longleftrightarrow> rh_readded h = None \<and>
     (\<exists>ls. known_locals sb ls \<and> rh_iter h = Ordered (ordered_iter_new (sp_bucket (sb_s3_path sb)) full_path page_size ls))"

lemma readdir_handle_new_total:
  assumes "sb_ok env sb" "sc_list_ordered (sb_config sb)"
  shows "\<exists>r. readdir_handle_new env ho i pi fp ps sb = Done (sb, r) \<and>
    (case r of Inl e \<Rightarrow> sane e | Inr h \<Rightarrow> fresh_handle sb fp ps h)"
proof -
  consider e where "sb_get env i sb = Done (sb, Inl e)" "sane e" | a n where "sb_get env i sb = Done (sb, Inr a)" "sb_arena sb a = Some n"
    using sb_get_total [OF assms(1), of i] by metis
  then show ?thesis
  proof cases
    case 1
    then show ?thesis by (simp add: readdir_handle_new_def)
  next
    case (2 a n)
    show ?thesis
    proof (cases "is_deleted n \<or> is_kind_data (in_sync n) = FileData")
      case True
      with 2 get_state_total [OF assms(1) 2(2)] show ?thesis by (cases "is_deleted n") (auto simp: readdir_handle_new_def)
    next
      case False
      then obtain ch wc d where kd: "is_kind_data (in_sync n) = DirectoryData ch wc d" by (cases "is_kind_data (in_sync n)") auto
      obtain r where r: "eff_map (local_entry env) (ho_children ho wc) sb = Done (sb, r)" "case r of Inl e \<Rightarrow> sane e | Inr es \<Rightarrow> known_locals sb es"
        using local_entries_total [OF assms(1)] by blast
      show ?thesis
      proof (cases r)
        case (Inl e)
        with r 2 get_state_total [OF assms(1) 2(2)] False kd show ?thesis by (simp add: readdir_handle_new_def)
      next
        case (Inr es)
        with r have "known_locals sb (sort_key re_key es)" by (simp add: known_locals_def)
        with Inr r 2 get_state_total [OF assms(1) 2(2)] False kd assms(2) show ?thesis
          by (auto simp: readdir_handle_new_def readdir_iter_for_def fresh_handle_def)
      qed
    qed
  qed
qed

lemma fresh_lists_from:
  assumes "env_client env = mock_ops shuffle" "fresh_handle sb fp ps h" "0 < ps"
    and "mcc_bucket (mc_config (sb_client sb')) = sp_bucket (sb_s3_path sb)" "mcc_unordered_list_seed (mc_config (sb_client sb')) = None"
  shows "\<exists>m. \<forall>sb''. bucket_of sb'' = bucket_of sb' \<longrightarrow> lists_from env (arena_facts sb) sb'' h m"
proof -
  obtain ls where ls: "known_locals sb ls" "rh_iter h = Ordered (ordered_iter_new (sp_bucket (sb_s3_path sb)) fp ps ls)"
    using assms(2) by (auto simp: fresh_handle_def)
  let ?oi = "ordered_iter_new (sp_bucket (sb_s3_path sb)) fp ps ls"
  have "lists_from env (arena_facts sb) sb'' h (length (dir_items (sb_client sb') None fp) + length ls)" if "bucket_of sb'' = bucket_of sb'" for sb''
  proof -
    have eq: "dir_items (sb_client sb'') None fp = dir_items (sb_client sb') None fp"
      using that by (simp add: dir_items_def entries_from_def bucket_of_def)
    have cfg: "mcc_bucket (mc_config (sb_client sb'')) = ri_bucket (oi_remote ?oi)" "mcc_unordered_list_seed (mc_config (sb_client sb'')) = None"
      using that assms(4,5) by (simp_all add: bucket_of_def ordered_iter_new_def remote_iter_new_def)
    obtain rs t where rs: "stream (remote_iter_next (mock_ops shuffle)) (sb_client sb'', oi_remote ?oi) rs t" "exhausted t"
      "set rs = dir_entries (sb_client sb'') fp" "length rs = length (dir_items (sb_client sb') None fp)"
      using mock_remote_stream [OF cfg, of None shuffle] assms(3) eq
      by (auto simp: ordered_iter_new_def remote_iter_new_def dir_entries_def simp del: split_paired_Ex)
    have "ordered_holds (env_client env) (sb_client sb'', ?oi) rs ls"
      using rs(1,2) assms(1) by (auto simp: ordered_holds_def pending_def ordered_iter_new_def simp del: split_paired_Ex)
    moreover have "li_inode l \<in> fst ` arena_facts sb" if "LocalInode l name \<in> set rs \<union> set ls" for l name
      using that rs(3) local_entry_mem ls(1) by (force simp: known_locals_def arena_facts_def image_iff)
    ultimately show ?thesis using rs(4) ls(2) by (intro lists_fromI) auto
  qed
  then show ?thesis by blast
qed

lemma first_request_total:
  assumes env: "env_client env = mock_ops shuffle" "client_total env" and ok: "sb_ok env sb"
    and h: "fresh_handle sb fp ps (dh_handle dh)" "0 < ps" "dh_offset dh = 0"
    and b: "mcc_bucket (mc_config (sb_client sb)) = sp_bucket (sb_s3_path sb)" "mcc_unordered_list_seed (mc_config (sb_client sb)) = None"
  shows "\<exists>m. \<forall>fuel > m. \<exists>sb' dh' r. readdir_on env clk hf ho fuel fits parent fh 0 readdirplus (sb, dh) = Done ((sb', dh'), r) \<and>
    sb_ok env sb' \<and> (case r of Inl e \<Rightarrow> sane e | Inr _ \<Rightarrow> True)"
proof -
  obtain m where m: "\<And>sb''. bucket_of sb'' = bucket_of sb \<Longrightarrow> lists_from env (arena_facts sb) sb'' (dh_handle dh) m"
    using fresh_lists_from [OF env(1) h(1,2) b] by blast
  let ?K = "arena_facts sb"
  have "\<exists>sb' dh' r. readdir_on env clk hf ho fuel fits parent fh 0 readdirplus (sb, dh) = Done ((sb', dh'), r) \<and>
      sb_ok env sb' \<and> (case r of Inl e \<Rightarrow> sane e | Inr _ \<Rightarrow> True)" if fuel: "m < fuel" for fuel
  proof -
    let ?up = "rh_parent_ino (dh_handle dh)"
    obtain sb1 dh1 r1 where 1: "add_dots env clk hf fits 0 1 ''.'' parent [] (sb, dh) = Done ((sb1, dh1), r1)" "sb_inv env {} ?K sb1"
      "bucket_of sb1 = bucket_of sb" "dh_handle dh1 = dh_handle dh" "case r1 of Inl err \<Rightarrow> sane err | Inr _ \<Rightarrow> True"
      using add_dots_total [OF env sb_inv_arena [OF ok]] by metis
    have start: "readdir_rewind env ho parent 0 (sb, dh) = Done ((sb, dh), Inr ())" using h(3) by (simp add: no_rewind)
    show ?thesis
    proof (cases r1)
      case (Inl err)
      with 1 sb_invD(1) [OF 1(2)] h(3) start show ?thesis by (simp add: readdir_on_def on_parts)
    next
      case (Inr x)
      obtain room added where x: "x = (room, added)" by (cases x)
      obtain sb2 dh2 r2 where 2: "add_dots env clk hf fits 0 2 ''..'' ?up added (sb1, dh1) = Done ((sb2, dh2), r2)" "sb_inv env {} ?K sb2"
        "bucket_of sb2 = bucket_of sb1" "dh_handle dh2 = dh_handle dh1" "case r2 of Inl err \<Rightarrow> sane err | Inr _ \<Rightarrow> True"
        using add_dots_total [OF env 1(2)] by metis
      show ?thesis
      proof (cases "room \<and> (\<exists>added2. r2 = Inr (True, added2))")
        case False
        with 1 2 Inr x sb_invD(1) [OF 1(2)] sb_invD(1) [OF 2(2)] h(3) start show ?thesis
          by (cases room; cases r2) (auto simp: readdir_on_def on_parts)
      next
        case True
        then obtain added2 where r2: "room" "r2 = Inr (True, added2)" by auto
        have lf: "lists_from env ?K sb2 (dh_handle dh2) m" using m [of sb2] 1(3,4) 2(3,4) by simp
        have "rh_readded (dh_handle dh2) = None" using h(1) 1(4) 2(4) by (simp add: fresh_handle_def)
        from readdir_loop_total [OF 2(2) lf this fuel fuel] obtain sb' dh' r where "readdir_loop env clk ho fuel fits readdirplus 0 fuel added2 (sb2, dh2) = Done ((sb', dh'), r)"
          "sb_ok env sb'" "case r of Inl e \<Rightarrow> sane e | Inr _ \<Rightarrow> True"
          by metis
        with 1 2 Inr x r2 h(3) start show ?thesis by (simp add: readdir_on_def on_parts)
      qed
    qed
  qed
  then show ?thesis by blast
qed



end
