(* ===== verification/Spec2Isabelle.thy ===== *)
theory Spec2Isabelle
  imports Read_Path Readdir_Total
begin

text \<open>
  Verification of Mountpoint for Amazon S3 (a file system backed by an S3 bucket).

  \<^bold>\<open>The program and its parts.\<close> A FUSE request reaches the file system (\<open>mountpoint-s3-fs/src/fs.rs\<close>), which
  resolves inodes in the superblock (\<open>superblock.rs\<close>, \<open>superblock/\<close>, \<open>metablock/\<close>) and serves reads
  with one prefetcher per open handle (\<open>prefetch.rs\<close>, \<open>prefetch/\<close>) and writes with an upload per
  handle (\<open>upload/\<close>). The prefetcher spawns requests on a part stream, whose producer talks to the S3
  client (\<open>mountpoint-s3-client\<close>) and hands parts to the reader through a queue; a backpressure
  controller bounds how far the producer may run ahead, a memory limiter accounts the bytes in
  flight and a paged pool provides the buffers. The in-memory client of \<open>mock_client.rs\<close> is the
  reference implementation of the client interface that the program is tested against.

  \<^bold>\<open>Conventions.\<close> \<open>Prelude\<close>: code that can panic or wait for ever returns a value of \<open>'a run\<close>; a Rust
  \<open>Result\<close> is a sum with the error on the left. Offsets are natural numbers with checked or saturating
  operations written out, shared counters are 64-bit words. \<open>Text\<close>: strings.
  Concurrency appears as explicit schedules (which messages the producer has sent before each
  receive) or as step relations over all interleavings. Third-party code (hashes, clock,
  allocator, regular expressions, the network) is an argument of the definitions that use it.

  \<^bold>\<open>Theories.\<close>
  \<^item> \<open>Checksums\<close> (\<open>checksums.rs\<close>): checksummed buffers; extending keeps intact data intact and corrupt
    data detectable.
  \<^item> \<open>Paged_Pool\<close> (\<open>memory/\<close>): pages, size pools, buffers; isolation of live buffers and exact
    accounting in every reachable state.
  \<^item> \<open>Mem_Limiter\<close> (\<open>mem_limiter.rs\<close>): reservations against a limit under interference.
  \<^item> \<open>Prefetch_Part\<close> (\<open>object.rs\<close>, \<open>prefetch/part.rs\<close>, \<open>prefetch/seek_window.rs\<close>), \<open>Backpressure\<close>
    (\<open>prefetch/backpressure_controller.rs\<close>), \<open>Request_Range\<close> and \<open>Part_Stream\<close>
    (\<open>prefetch/part_stream.rs\<close>), \<open>Request_Task\<close> (\<open>prefetch/part_queue.rs\<close>, \<open>prefetch/task.rs\<close>), \<open>Prefetcher\<close>
    (\<open>prefetch.rs\<close>): the read path; the locale \<open>object_part_stream\<close> is what the prefetcher relies on, and
    \<open>Part_Stream\<close> shows that the client part stream provides it.
  \<^item> \<open>Mock_Object\<close>, \<open>Mock_Client\<close>, \<open>Mock_Store\<close>, \<open>Mock_Reads\<close>, \<open>Mock_List\<close>
    (\<open>mountpoint-s3-client/src/mock_client.rs\<close> and the types of \<open>object_client.rs\<close>): the in-memory client, its
    refinement of a key-value store, put/get round trips and complete listings; it is also a
    provider for the read path.
  \<^item> \<open>Read_Path\<close>: the end-to-end properties of reading through a handle.
  \<^item> \<open>Paths\<close> (\<open>metablock/path.rs\<close>, \<open>s3/prefix.rs\<close>, \<open>s3/path.rs\<close>): names, keys, prefixes and S3 URIs.
  \<^item> \<open>Metablock\<close> (\<open>metablock/\<close>, \<open>fs/time_to_live.rs\<close>, \<open>fs/config.rs\<close>): attributes, expiry, errors, write modes and
    cache settings. \<open>Handles_Map\<close> (\<open>superblock/handles_map.rs\<close>): which handles of an inode are active, with its
    refinement of an access policy. \<open>Negative_Cache\<close> (\<open>superblock/negative_cache.rs\<close>): the names known not to exist.
  \<^item> \<open>Effects\<close>: operations on a state that can fail, with total-correctness rules. \<open>Inodes\<close>, \<open>Superblock\<close>,
    \<open>Superblock_Ops\<close>, \<open>Superblock_Rename\<close> (\<open>superblock/inode.rs\<close>, \<open>superblock.rs\<close>): inodes as cells of an arena and the
    operations of the superblock as sequences of locked sections. \<open>Superblock_Inv\<close>, \<open>Superblock_Keeps\<close>,
    \<open>Superblock_Lookups\<close>, \<open>Superblock_Safe\<close>, \<open>Superblock_Changes\<close>, \<open>Superblock_Moves\<close>: the structural invariant and
    its preservation, section by section. \<open>Superblock_Frames\<close>: what operations leave alone. \<open>Remote_Lookup\<close>: the superblock over the
    in-memory bucket. \<open>Superblock_Props\<close>: requests, reachable states and the properties of the superblock.

  \<^bold>\<open>Bounds and fuel.\<close> Loops are structural or well-founded functions; the compare-exchange loop of the
  memory limiter runs against a list of interferences and is shown to end. Natural-number offsets
  stand for 64-bit values where the code cannot overflow them; where it can, the bound \<open>u64_max\<close>
  is explicit.

  \<^bold>\<open>Not modelled.\<close> Metrics, tracing and logging; the asynchronous runtime (its effects
  are the schedules); the bindings of \<open>mountpoint-s3-crt\<close> to the C runtime and the client built on them,
  whose observable contract is the client parameter of the part stream; the FUSE transport of
  \<open>mountpoint-s3-fuser\<close>; command-line parsing and benchmarks.
\<close>

end
